(* ===== verification/Prelude.thy ===== *)
theory Prelude
  imports Main "HOL-Library.Word" "HOL-Library.Sublist" "HOL-Library.Code_Target_Nat"
begin

unbundle bit_operations_syntax

text \<open>
  Shared vocabulary of the development: the machine integers and byte buffers of the Rust
  sources, I/O errors and poll results as values, big-endian integer encodings, and the
  generic lemmas on lists the component theories use.

  A \<open>usize\<close> is a \<open>nat\<close>: every value of that type in the modelled code is the length of a
  buffer in memory, an index into one, or a configured ceiling. Fixed-width integers are
  words, and the casts \<open>as u8\<close>, \<open>as u16\<close>, \<open>as u32\<close>, \<open>as u64\<close> are \<open>of_nat\<close>, which truncates
  as the cast does. \<open>Vec<u8>\<close>, \<open>Bytes\<close>, \<open>BytesMut\<close> and \<open>[u8; N]\<close> are lists of bytes.
\<close>

section \<open>Types\<close>

type_synonym u8 = "8 word"
type_synonym u16 = "16 word"
type_synonym u32 = "32 word"
type_synonym u64 = "64 word"
type_synonym bytes = "u8 list"

text \<open>\<open>std::io::Error\<close>, by its kind and message.\<close>

datatype error_kind = InvalidData | BrokenPipe | TimedOut | UnexpectedEof | OtherKind

datatype io_error = IoError (kind_of: error_kind) (message_of: string)

type_synonym 'a result = "io_error + 'a"

text \<open>\<open>std::task::Poll\<close>.\<close>

datatype 'a poll = Ready 'a | Pending

text \<open>
  Collections of facts: \<open>be_simps\<close> evaluates the big-endian encodings, \<open>wire_consts\<close> unfolds
  the numeric constants of the sources.
\<close>

named_theorems be_simps \<open>big-endian encodings\<close>
named_theorems wire_consts \<open>numeric constants of the sources\<close>

section \<open>Big-endian integers\<close>

text \<open>
  \<open>to_be n v\<close> is the big-endian encoding of \<open>v\<close> in \<open>n\<close> bytes (\<open>to_be_bytes\<close>, \<open>put_u16\<close>,
  \<open>put_u32\<close>, \<open>put_u64\<close>); \<open>from_be\<close> reads one back (\<open>from_be_bytes\<close>).
\<close>

fun to_be :: "nat \<Rightarrow> nat \<Rightarrow> bytes" where
  "to_be 0 v = []"
| "to_be (Suc n) v = to_be n (v div 256) @ [of_nat v]"

definition from_be :: "bytes \<Rightarrow> nat" where
  "from_be bs = foldl (\<lambda>acc b. acc * 256 + unat b) 0 bs"

lemma from_be_Nil [simp, be_simps]: "from_be [] = 0"
  by (simp add: from_be_def)

lemma from_be_snoc [be_simps]: "from_be (bs @ [b]) = from_be bs * 256 + unat b"
  by (simp add: from_be_def)

lemma length_to_be [simp, be_simps]: "length (to_be n v) = n"
  by (induction n arbitrary: v) auto

lemma to_be_neq_Nil [simp]: "0 < n \<Longrightarrow> to_be n v \<noteq> []"
  by (metis length_to_be length_greater_0_conv)

lemma unat_u8_less [simp]: "unat (b :: u8) < 256"
proof -
  have "unat b < 2 ^ LENGTH(8)"
    by (rule unsigned_less)
  then show ?thesis by simp
qed

lemma unat_of_nat_u8: "unat (of_nat v :: u8) = v mod 256"
  by (simp add: unat_of_nat)

lemma from_be_to_be_mod: "from_be (to_be n v) = v mod 256 ^ n"
proof (induction n arbitrary: v)
  case 0
  then show ?case by simp
next
  case (Suc n)
  have "from_be (to_be (Suc n) v) = (v div 256 mod 256 ^ n) * 256 + v mod 256"
    by (simp add: from_be_snoc Suc.IH unat_of_nat_u8)
  also have "\<dots> = v mod (256 * 256 ^ n)"
    by (metis mod_mult2_eq mult.commute)
  finally show ?case by simp
qed

lemma from_be_to_be [be_simps]: "v < 256 ^ n \<Longrightarrow> from_be (to_be n v) = v"
  by (simp add: from_be_to_be_mod)

lemma from_be_bound: "from_be bs < 256 ^ length bs"
proof (induction bs rule: rev_induct)
  case Nil
  then show ?case by simp
next
  case (snoc b bs)
  have "from_be bs * 256 + unat b < (from_be bs + 1) * 256"
    by simp
  also have "\<dots> \<le> 256 ^ length bs * 256"
    using snoc by (intro mult_le_mono1) simp
  finally show ?case
    by (simp add: from_be_snoc mult.commute)
qed

lemma to_be_from_be: "to_be (length bs) (from_be bs) = bs"
proof (induction bs rule: rev_induct)
  case Nil
  then show ?case by simp
next
  case (snoc b bs)
  have b: "unat b < 256"
    by simp
  have "of_nat (from_be bs * 256 + unat b) = b"
  proof -
    have "unat (of_nat (from_be bs * 256 + unat b) :: u8) = unat b"
      using b by (simp only: unat_of_nat_u8) simp
    then show ?thesis by (simp only: word_unat_eq_iff)
  qed
  with snoc b show ?case
    by (simp add: from_be_snoc)
qed

lemma to_be_mod: "to_be n (v mod 256 ^ n) = to_be n v"
  by (metis from_be_to_be_mod length_to_be to_be_from_be)

lemma to_be_unat_of_nat_u16 [be_simps]: "to_be 2 (unat (of_nat v :: u16)) = to_be 2 v"
proof -
  have "unat (of_nat v :: u16) = v mod 256 ^ 2"
    by (simp add: unat_of_nat)
  then show ?thesis by (simp only: to_be_mod)
qed

lemma to_be_2: "to_be 2 v = [of_nat (v div 256), of_nat v]"
  by (simp add: numeral_2_eq_2)

lemma from_be_2 [be_simps]: "v < 65536 \<Longrightarrow> from_be [of_nat (v div 256), of_nat v] = v"
  using from_be_to_be [of v 2] by (simp add: to_be_2)

section \<open>Lists\<close>

lemma prefix_iff_take: "prefix xs ys \<longleftrightarrow> xs = take (length xs) ys"
  by (metis append_eq_conv_conj prefix_def take_is_prefix)

lemma sum_list_length_concat: "length (concat xss) = (\<Sum>xs\<leftarrow>xss. length xs)"
  by (simp add: length_concat)

lemma first_two_append [simp]:
  "2 \<le> length xs \<Longrightarrow> (xs @ ys) ! 0 = xs ! 0"
  "2 \<le> length xs \<Longrightarrow> (xs @ ys) ! Suc 0 = xs ! Suc 0"
  by (cases xs; auto simp: nth_append)+

text \<open>Counting the entries of a list with a property, when one is updated.\<close>

lemma filter_update_count:
  "i < length xs \<Longrightarrow>
   length (filter P (xs[i := x])) + (if P (xs ! i) then 1 else 0) = length (filter P xs) + (if P x then 1 else 0)"
proof (induction xs arbitrary: i)
  case Nil
  then show ?case by simp
next
  case (Cons y ys)
  then show ?case by (cases i) auto
qed

end
