(* ===== verification/Wire.thy ===== *)
theory Wire
  imports Prelude
begin

text \<open>
  \<open>src/src/wire.rs\<close>: the wire constants shared by both connection kinds, and the mux
  \<open>Frame\<close> of \<open>src/src/mux.rs\<close> that the link codec carries.
\<close>

section \<open>Constants\<close>

definition MAGIC_CLIENT :: bytes where
  "MAGIC_CLIENT = [0x44, 0x53, 0x48, 0x43]" \<comment> \<open>DSHC\<close>

definition MAGIC_BRIDGE :: bytes where
  "MAGIC_BRIDGE = [0x44, 0x53, 0x48, 0x42]" \<comment> \<open>DSHB\<close>

definition VERSION :: u8 where
  "VERSION = 1"

definition HEAD_LEN :: nat where
  [wire_consts]: "HEAD_LEN = 37"

definition NOISE_XX :: string where
  "NOISE_XX = ''Noise_XX_25519_ChaChaPoly_SHA256''"

definition NOISE_IK :: string where
  "NOISE_IK = ''Noise_IK_25519_ChaChaPoly_SHA256''"

definition MAX_NOISE_MSG :: nat where
  [wire_consts]: "MAX_NOISE_MSG = 65535"

definition MAX_HANDSHAKE_MSG :: nat where
  [wire_consts]: "MAX_HANDSHAKE_MSG = 1024"

definition TAG_LEN :: nat where
  [wire_consts]: "TAG_LEN = 16"

definition KIND_OPEN :: u8 where
  "KIND_OPEN = 0"

definition KIND_DATA :: u8 where
  "KIND_DATA = 1"

definition KIND_CLOSE :: u8 where
  "KIND_CLOSE = 2"

definition KIND_WINDOW :: u8 where
  "KIND_WINDOW = 3"

definition FRAME_HEAD :: nat where
  [wire_consts]: "FRAME_HEAD = 8"

definition MAX_PAYLOAD :: nat where
  [wire_consts]: "MAX_PAYLOAD = 16384"

definition WINDOW :: u32 where
  "WINDOW = 256 * 1024"

definition MAX_STREAMS_PER_BRIDGE :: nat where
  [wire_consts]: "MAX_STREAMS_PER_BRIDGE = 2048"

lemmas kind_defs = KIND_OPEN_def KIND_DATA_def KIND_CLOSE_def KIND_WINDOW_def

lemma kinds_distinct [simp]:
  "KIND_OPEN \<noteq> KIND_DATA" "KIND_OPEN \<noteq> KIND_CLOSE" "KIND_OPEN \<noteq> KIND_WINDOW"
  "KIND_DATA \<noteq> KIND_OPEN" "KIND_DATA \<noteq> KIND_CLOSE" "KIND_DATA \<noteq> KIND_WINDOW"
  "KIND_CLOSE \<noteq> KIND_OPEN" "KIND_CLOSE \<noteq> KIND_DATA" "KIND_CLOSE \<noteq> KIND_WINDOW"
  "KIND_WINDOW \<noteq> KIND_OPEN" "KIND_WINDOW \<noteq> KIND_DATA" "KIND_WINDOW \<noteq> KIND_CLOSE"
  by (simp_all add: kind_defs)

lemma unat_WINDOW [wire_consts]: "unat WINDOW = 262144"
  by (simp add: WINDOW_def)

section \<open>Mux frames\<close>

record frame =
  frame_id :: u32
  frame_kind :: u8
  frame_payload :: bytes

text \<open>\<open>Frame::control\<close>.\<close>

definition control :: "u32 \<Rightarrow> u8 \<Rightarrow> frame" where
  "control i k = \<lparr>frame_id = i, frame_kind = k, frame_payload = []\<rparr>"

lemma control_simps [simp]:
  "frame_id (control i k) = i" "frame_kind (control i k) = k" "frame_payload (control i k) = []"
  by (simp_all add: control_def)

end
