(* ===== verification/Framing.thy ===== *)
theory Framing
  imports Prelude
begin

text \<open>
  The contract of an incremental decoder: a function that is offered a growing buffer and
  either takes one item off its front, asks for more bytes, or fails for good. The bridge
  link (\<open>NoiseDecoder::decode\<close> under \<open>FramedRead\<close>) and the WebSocket (\<open>WsStream::decode\<close> under
  \<open>poll_read\<close>) are both such decoders, and what makes them correct over a socket is the same:
  where the network cut the byte stream must not matter. The contract is the locale
  \<open>incr_decoder\<close>; the locale \<open>framing\<close> adds an encoder and gives the transport theorem.
\<close>

section \<open>Running a decoder over arriving chunks\<close>

type_synonym ('s, 'm) decoder = "'s \<Rightarrow> bytes \<Rightarrow> io_error + ('m \<times> 's \<times> bytes) option"

type_synonym ('s, 'm) outcome = "'m list \<times> io_error option \<times> 's \<times> bytes"

text \<open>
  \<open>drain_buf d s b\<close> calls the decoder on the buffer until it wants more bytes or fails: the
  items taken, the error, the decoder's state and what is left. The length test makes the
  recursion well-founded for any \<open>d\<close>; a decoder that meets the contract always passes it.
\<close>

function drain_buf :: "('s, 'm) decoder \<Rightarrow> 's \<Rightarrow> bytes \<Rightarrow> ('s, 'm) outcome" where
  "drain_buf d s b =
     (case d s b of
        Inl e \<Rightarrow> ([], Some e, s, b)
      | Inr None \<Rightarrow> ([], None, s, b)
      | Inr (Some (m, s', r)) \<Rightarrow>
          (if length r < length b
           then (case drain_buf d s' r of (ms, e, s'', r') \<Rightarrow> (m # ms, e, s'', r'))
           else ([m], None, s', r)))"
  by pat_completeness auto
termination
  by (relation "measure (\<lambda>(d, s, b). length b)") auto

declare drain_buf.simps [simp del]

text \<open>
  \<open>feed_all d s buf cs\<close>: the chunks \<open>cs\<close> arrive one after the other, and the decoder is
  drained after each.
\<close>

fun feed_all :: "('s, 'm) decoder \<Rightarrow> 's \<Rightarrow> bytes \<Rightarrow> bytes list \<Rightarrow> ('s, 'm) outcome" where
  "feed_all d s buf [] = drain_buf d s buf"
| "feed_all d s buf (c # cs) =
     (case drain_buf d s buf of
        (ms, Some e, s', r) \<Rightarrow> (ms, Some e, s', r)
      | (ms, None, s', r) \<Rightarrow>
          (case feed_all d s' (r @ c) cs of (ms', e, s'', r') \<Rightarrow> (ms @ ms', e, s'', r')))"

lemma drain_buf_need: "d s b = Inr None \<Longrightarrow> drain_buf d s b = ([], None, s, b)"
  by (simp add: drain_buf.simps)

lemma drain_buf_fail: "d s b = Inl e \<Longrightarrow> drain_buf d s b = ([], Some e, s, b)"
  by (simp add: drain_buf.simps)

section \<open>The contract\<close>

locale incr_decoder =
  fixes dec :: "('s, 'm) decoder"
  assumes dec_shrinks: "dec s b = Inr (Some (m, s', r)) \<Longrightarrow> length r < length b"
    and dec_more: "dec s b = Inr (Some (m, s', r)) \<Longrightarrow> dec s (b @ x) = Inr (Some (m, s', r @ x))"
    and dec_fails: "dec s b = Inl e \<Longrightarrow> dec s (b @ x) = Inl e"
begin

lemma drain_step:
  "dec s b = Inr (Some (m, s', r)) \<Longrightarrow>
   drain_buf dec s b = (case drain_buf dec s' r of (ms, e, s'', r') \<Rightarrow> (m # ms, e, s'', r'))"
  using dec_shrinks by (subst drain_buf.simps) simp

lemma drain_induct [case_names fail need step]:
  assumes fail: "\<And>s b e. dec s b = Inl e \<Longrightarrow> P s b"
    and need: "\<And>s b. dec s b = Inr None \<Longrightarrow> P s b"
    and step: "\<And>s b m s' r. dec s b = Inr (Some (m, s', r)) \<Longrightarrow> P s' r \<Longrightarrow> P s b"
  shows "P s b"
proof (induction b arbitrary: s rule: length_induct)
  case (1 b)
  show ?case
  proof (cases "dec s b")
    case (Inl e)
    then show ?thesis by (rule fail)
  next
    case (Inr item)
    show ?thesis
    proof (cases item)
      case None
      with Inr show ?thesis by (simp add: need)
    next
      case (Some t)
      obtain m s' r where "t = (m, s', r)" by (cases t)
      with Some Inr have got: "dec s b = Inr (Some (m, s', r))" by simp
      with 1 have "P s' r" by (blast dest: dec_shrinks)
      with got show ?thesis by (rule step)
    qed
  qed
qed

lemma drain_stops: "drain_buf dec s b = (ms, None, s', r) \<Longrightarrow> dec s' r = Inr None"
proof (induction s b arbitrary: ms rule: drain_induct)
  case (step s b m s1 r1)
  then show ?case by (auto simp: drain_step split: prod.splits)
qed (auto simp: drain_buf_need drain_buf_fail)

text \<open>Bytes behind an undecoded rest join that rest.\<close>

lemma drain_append:
  "drain_buf dec s b = (ms, None, s', r) \<Longrightarrow>
   drain_buf dec s (b @ x) =
     (case drain_buf dec s' (r @ x) of (ms', e, s'', r') \<Rightarrow> (ms @ ms', e, s'', r'))"
proof (induction s b arbitrary: ms rule: drain_induct)
  case (step s b m s1 r1)
  from step.prems obtain ms1 where ms: "ms = m # ms1"
    and rest: "drain_buf dec s1 r1 = (ms1, None, s', r)"
    by (auto simp: drain_step [OF step.hyps] split: prod.splits)
  show ?case
    using step.IH [OF rest] by (simp add: drain_step [OF dec_more [OF step.hyps]] ms split: prod.splits)
qed (auto simp: drain_buf_need drain_buf_fail split: prod.splits)

text \<open>A failed decoder fails at the same item whatever follows.\<close>

lemma drain_fail_append:
  "drain_buf dec s b = (ms, Some e, s', r) \<Longrightarrow>
   drain_buf dec s (b @ x) = (ms, Some e, s', r @ x)"
proof (induction s b arbitrary: ms rule: drain_induct)
  case (fail s b e')
  then show ?case by (simp add: drain_buf_fail dec_fails)
next
  case (step s b m s1 r1)
  from step.prems obtain ms1 where ms: "ms = m # ms1"
    and rest: "drain_buf dec s1 r1 = (ms1, Some e, s', r)"
    by (auto simp: drain_step [OF step.hyps] split: prod.splits)
  show ?case
    using step.IH [OF rest] by (simp add: drain_step [OF dec_more [OF step.hyps]] ms)
qed (simp add: drain_buf_need)

text \<open>
  Where the stream was cut does not matter: draining after every chunk gives the items, the
  error and the decoder state of draining the whole stream at once.
\<close>

theorem feed_all_concat:
  "feed_all dec s buf cs = (ms, e, s', r) \<Longrightarrow>
   \<exists>r'. drain_buf dec s (buf @ concat cs) = (ms, e, s', r') \<and> (e = None \<longrightarrow> r' = r)"
proof (induction cs arbitrary: s buf ms)
  case Nil
  then show ?case by simp
next
  case (Cons c cs)
  obtain ms1 e1 s1 r1 where d: "drain_buf dec s buf = (ms1, e1, s1, r1)"
    by (cases "drain_buf dec s buf")
  show ?case
  proof (cases e1)
    case (Some err)
    with d Cons.prems show ?thesis
      by (auto dest: drain_fail_append [where x = "c @ concat cs"])
  next
    case None
    obtain ms2 where f: "feed_all dec s1 (r1 @ c) cs = (ms2, e, s', r)" and ms: "ms = ms1 @ ms2"
      using Cons.prems d None by (auto split: prod.splits)
    from Cons.IH [OF f] obtain r' where
      "drain_buf dec s1 ((r1 @ c) @ concat cs) = (ms2, e, s', r')" and "e = None \<longrightarrow> r' = r"
      by blast
    moreover from d None have
      "drain_buf dec s (buf @ c @ concat cs) =
         (case drain_buf dec s1 (r1 @ c @ concat cs) of (ms', e, s'', r') \<Rightarrow> (ms1 @ ms', e, s'', r'))"
      by (simp add: drain_append)
    ultimately show ?thesis using ms by simp
  qed
qed

corollary feed_all_split:
  assumes "concat cs = concat cs'"
    and "feed_all dec s [] cs = (ms, e, s1, r1)"
    and "feed_all dec s [] cs' = (ms', e', s2, r2)"
  shows "ms = ms' \<and> e = e' \<and> s1 = s2 \<and> (e = None \<longrightarrow> r1 = r2)"
  using feed_all_concat [OF assms(2)] feed_all_concat [OF assms(3)] assms(1) by auto

end

section \<open>With an encoder\<close>

text \<open>
  \<open>enc s m\<close> is what the encoder puts on the wire for \<open>m\<close> in state \<open>s\<close>, \<open>nxt s m\<close> the state
  both ends are in afterwards, \<open>ok s m\<close> that the encoder accepts \<open>m\<close>.
\<close>

fun enc_all :: "('s \<Rightarrow> 'm \<Rightarrow> bytes) \<Rightarrow> ('s \<Rightarrow> 'm \<Rightarrow> 's) \<Rightarrow> 's \<Rightarrow> 'm list \<Rightarrow> bytes" where
  "enc_all enc nxt s [] = []"
| "enc_all enc nxt s (m # ms) = enc s m @ enc_all enc nxt (nxt s m) ms"

fun ok_all :: "('s \<Rightarrow> 'm \<Rightarrow> bool) \<Rightarrow> ('s \<Rightarrow> 'm \<Rightarrow> 's) \<Rightarrow> 's \<Rightarrow> 'm list \<Rightarrow> bool" where
  "ok_all ok nxt s [] \<longleftrightarrow> True"
| "ok_all ok nxt s (m # ms) \<longleftrightarrow> ok s m \<and> ok_all ok nxt (nxt s m) ms"

locale framing = incr_decoder dec
  for dec :: "('s, 'm) decoder" +
  fixes enc :: "'s \<Rightarrow> 'm \<Rightarrow> bytes"
    and nxt :: "'s \<Rightarrow> 'm \<Rightarrow> 's"
    and ok :: "'s \<Rightarrow> 'm \<Rightarrow> bool"
  assumes dec_empty: "dec s [] = Inr None"
    and dec_enc: "ok s m \<Longrightarrow> dec s (enc s m) = Inr (Some (m, nxt s m, []))"
begin

lemma drain_enc_all:
  "ok_all ok nxt s ms \<Longrightarrow> drain_buf dec s (enc_all enc nxt s ms) = (ms, None, foldl nxt s ms, [])"
proof (induction ms arbitrary: s)
  case Nil
  then show ?case by (simp add: drain_buf_need dec_empty)
next
  case (Cons m ms)
  then have "dec s (enc_all enc nxt s (m # ms)) = Inr (Some (m, nxt s m, enc_all enc nxt (nxt s m) ms))"
    using dec_more [OF dec_enc] by simp
  with Cons show ?case by (simp add: drain_step)
qed

text \<open>
  The bytes that have arrived so far decode to a prefix of what was encoded, without an error,
  and to all of it when none are missing.
\<close>

lemma transport_prefix:
  assumes "ok_all ok nxt s ms" and "concat cs @ rest = enc_all enc nxt s ms"
  shows "\<exists>ms' s' r. feed_all dec s [] cs = (ms', None, s', r) \<and> prefix ms' ms \<and> (rest = [] \<longrightarrow> ms' = ms \<and> r = [])"
proof -
  obtain ms' e s' r where f: "feed_all dec s [] cs = (ms', e, s', r)"
    by (cases "feed_all dec s [] cs")
  from feed_all_concat [OF this] obtain r' where
    d: "drain_buf dec s (concat cs) = (ms', e, s', r')" and r': "e = None \<longrightarrow> r' = r"
    by auto
  have all: "drain_buf dec s (concat cs @ rest) = (ms, None, foldl nxt s ms, [])"
    using drain_enc_all [OF assms(1)] by (simp only: assms(2))
  have "e = None" using all drain_fail_append [of s "concat cs" ms' _ s' r' rest] d by (cases e) auto
  moreover from this have "prefix ms' ms"
    using all drain_append [of s "concat cs" ms' s' r' rest] d by (auto split: prod.splits)
  moreover have "rest = [] \<longrightarrow> ms' = ms \<and> r' = []" using all d by auto
  ultimately show ?thesis using f r' by auto
qed

text \<open>Everything encoded arrives, once and in order, however the network cut it.\<close>

theorem transport:
  assumes "ok_all ok nxt s ms" and "concat cs = enc_all enc nxt s ms"
  shows "feed_all dec s [] cs = (ms, None, foldl nxt s ms, [])"
proof -
  obtain ms' e s' r where f: "feed_all dec s [] cs = (ms', e, s', r)"
    by (cases "feed_all dec s [] cs")
  from feed_all_concat [OF f] assms show ?thesis
    using f by (auto simp: drain_enc_all)
qed

end

end
