(* ===== verification/Noise.thy ===== *)
theory Noise
  imports Wire Framing
begin

text \<open>
  \<open>src/src/noise.rs\<close>: the codec that carries mux frames over the bridge link, and the
  responder's side of the Noise_XX handshake.

  The cryptography is the crate \<open>snow\<close>. Its operations are arguments of the definitions:
  \<open>StatelessTransportState::write_message\<close> and \<open>read_message\<close> are functions from a nonce and a
  message to an error text or the bytes put into the output buffer, and a handshake is a
  record of operations on an opaque state. What the codec relies on is \<open>noise_session\<close>: what
  one side seals under a nonce is sixteen bytes longer and opens to itself under that nonce
  on the other side.
\<close>

section \<open>The link codec\<close>

type_synonym snow_op = "u64 \<Rightarrow> bytes \<Rightarrow> string + bytes"

definition noise_session :: "snow_op \<Rightarrow> snow_op \<Rightarrow> bool" where
  "noise_session seal unseal \<longleftrightarrow>
     (\<forall>n p c. seal n p = Inr c \<longrightarrow> length c = length p + TAG_LEN \<and> unseal n c = Inr p)"

definition bad :: "string \<Rightarrow> io_error" where
  "bad msg = IoError InvalidData msg"

record noise_encoder =
  enc_nonce :: u64
  scratch :: bytes

record noise_decoder =
  dec_nonce :: u64

text \<open>\<open>codecs\<close>: both halves start at nonce zero.\<close>

definition codecs :: "noise_decoder \<times> noise_encoder" where
  "codecs = (\<lparr>dec_nonce = 0\<rparr>, \<lparr>enc_nonce = 0, scratch = []\<rparr>)"

text \<open>
  The plaintext the encoder stages for a frame: \<open>streamId(u32) kind(u8) len(u16) rsv(u8)\<close> and
  the payload, with the length cast to \<open>u16\<close>.
\<close>

definition frame_bytes :: "frame \<Rightarrow> bytes" where
  "frame_bytes f =
     to_be 4 (unat (frame_id f)) @ [frame_kind f]
     @ to_be 2 (unat (of_nat (length (frame_payload f)) :: u16)) @ [0] @ frame_payload f"

text \<open>
  \<open>NoiseEncoder::encode\<close>. The buffer \<open>dst\<close> is appended to; an error ends the writer task and
  with it the encoder, so only its value is kept. The nonce is a \<open>u64\<close> and \<open>+ 1\<close> wraps.
\<close>

definition noise_encode ::
    "snow_op \<Rightarrow> noise_encoder \<Rightarrow> frame \<Rightarrow> bytes \<Rightarrow> (noise_encoder \<times> bytes) result" where
  "noise_encode write_message self frame dst =
     (let scratch' = frame_bytes frame;
          sealed = length scratch' + TAG_LEN
      in if sealed > MAX_NOISE_MSG then Inl (bad ''noise message too large'')
         else (case write_message (enc_nonce self) scratch' of
                 Inl error \<Rightarrow> Inl (bad error)
               | Inr c \<Rightarrow>
                   Inr (\<lparr>enc_nonce = enc_nonce self + 1, scratch = scratch'\<rparr>,
                        dst @ to_be 2 (unat (of_nat sealed :: u16)) @ c)))"

text \<open>
  \<open>NoiseDecoder::decode\<close>: \<open>Inr None\<close> asks for more bytes and leaves the buffer alone;
  \<open>Inr (Some (plain, self', src'))\<close> is one opened message, the decoder with its nonce
  advanced, and the buffer behind the message.
\<close>

definition noise_decode :: "snow_op \<Rightarrow> (noise_decoder, bytes) decoder" where
  "noise_decode read_message self src =
     (if length src < 2 then Inr None
      else let len = from_be [src ! 0, src ! 1]
           in if len < TAG_LEN then Inl (bad ''short noise message'')
              else if length src < 2 + len then Inr None
              else let src' = drop 2 src; sealed = take len src'
                   in (case read_message (dec_nonce self) sealed of
                         Inl error \<Rightarrow> Inl (bad error)
                       | Inr plain \<Rightarrow>
                           Inr (Some (plain, \<lparr>dec_nonce = dec_nonce self + 1\<rparr>, drop len src'))))"

subsection \<open>The decoder meets the incremental contract\<close>

lemma noise_decode_Some:
  "noise_decode rm d b = Inr (Some (p, d', r)) \<longleftrightarrow>
     (\<exists>len. 2 \<le> length b \<and> len = from_be [b ! 0, b ! 1] \<and> TAG_LEN \<le> len \<and> 2 + len \<le> length b
        \<and> rm (dec_nonce d) (take len (drop 2 b)) = Inr p
        \<and> d' = \<lparr>dec_nonce = dec_nonce d + 1\<rparr> \<and> r = drop (2 + len) b)"
  by (auto simp: noise_decode_def Let_def add.commute split: sum.splits)

interpretation noise_dec: incr_decoder "noise_decode rm" for rm
proof unfold_locales
  fix s b m s' r
  assume "noise_decode rm s b = Inr (Some (m, s', r))"
  then show "length r < length b"
    by (auto simp: noise_decode_Some)
next
  fix s b m s' r x
  assume "noise_decode rm s b = Inr (Some (m, s', r))"
  then show "noise_decode rm s (b @ x) = Inr (Some (m, s', r @ x))"
    by (auto simp: noise_decode_Some)
next
  fix s b e x
  assume "noise_decode rm s b = Inl e"
  then show "noise_decode rm s (b @ x) = Inl e"
    by (auto simp: noise_decode_def Let_def split: sum.splits if_splits)
qed

subsection \<open>The two halves together\<close>

text \<open>
  What one sealed message looks like on the wire, the decoder's state after it, and when the
  encoder's side accepts it. \<open>seals\<close> carries the assumption on \<open>snow\<close>, so that the framing
  contract holds of the codec with any pair of transport functions.
\<close>

definition sealed_bytes :: "snow_op \<Rightarrow> noise_decoder \<Rightarrow> bytes \<Rightarrow> bytes" where
  "sealed_bytes wm d p =
     (case wm (dec_nonce d) p of Inl _ \<Rightarrow> [] | Inr c \<Rightarrow> to_be 2 (length c) @ c)"

definition next_decoder :: "noise_decoder \<Rightarrow> bytes \<Rightarrow> noise_decoder" where
  "next_decoder d p = \<lparr>dec_nonce = dec_nonce d + 1\<rparr>"

definition seals :: "snow_op \<Rightarrow> snow_op \<Rightarrow> noise_decoder \<Rightarrow> bytes \<Rightarrow> bool" where
  "seals wm rm d p \<longleftrightarrow>
     noise_session wm rm \<and> length p + TAG_LEN \<le> MAX_NOISE_MSG \<and> \<not> isl (wm (dec_nonce d) p)"

lemma noise_decode_sealed:
  assumes "rm (dec_nonce d) c = Inr p" and "TAG_LEN \<le> length c" and "length c < 65536"
  shows "noise_decode rm d (to_be 2 (length c) @ c) = Inr (Some (p, next_decoder d p, []))"
  using assms by (simp add: noise_decode_def next_decoder_def to_be_2 from_be_2)

interpretation noise_link: framing "noise_decode rm" "sealed_bytes wm" next_decoder "seals wm rm"
  for rm wm
proof unfold_locales
  fix s
  show "noise_decode rm s [] = Inr None"
    by (simp add: noise_decode_def)
next
  fix s m
  assume ok: "seals wm rm s m"
  then obtain c where c: "wm (dec_nonce s) m = Inr c"
    by (cases "wm (dec_nonce s) m") (auto simp: seals_def)
  with ok have "length c = length m + TAG_LEN" and "rm (dec_nonce s) c = Inr m"
    by (auto simp: seals_def noise_session_def)
  with ok have "noise_decode rm s (to_be 2 (length c) @ c) = Inr (Some (m, next_decoder s m, []))"
    by (intro noise_decode_sealed) (auto simp: seals_def wire_consts)
  with c show "noise_decode rm s (sealed_bytes wm s m) = Inr (Some (m, next_decoder s m, []))"
    by (simp add: sealed_bytes_def)
qed

subsection \<open>A batch of frames\<close>

text \<open>
  The writer task of \<open>MuxSession::start\<close> feeds the frames of a batch to the encoder one after
  the other, into one buffer, and gives up at the first error.
\<close>

fun feed_frames ::
    "snow_op \<Rightarrow> noise_encoder \<Rightarrow> frame list \<Rightarrow> bytes \<Rightarrow> (noise_encoder \<times> bytes) result" where
  "feed_frames wm e [] dst = Inr (e, dst)"
| "feed_frames wm e (f # fs) dst =
     (case noise_encode wm e f dst of
        Inl err \<Rightarrow> Inl err
      | Inr (e', dst') \<Rightarrow> feed_frames wm e' fs dst')"

text \<open>
  The documented limits of \<open>snow\<close>: sealing fails only for a message that does not fit a Noise
  message, or at the reserved last nonce.
\<close>

definition noise_accepts :: "snow_op \<Rightarrow> bool" where
  "noise_accepts seal \<longleftrightarrow>
     (\<forall>n p. n \<noteq> - 1 \<longrightarrow> length p + TAG_LEN \<le> MAX_NOISE_MSG \<longrightarrow> \<not> isl (seal n p))"

lemma length_frame_bytes [simp]: "length (frame_bytes f) = FRAME_HEAD + length (frame_payload f)"
  by (simp add: frame_bytes_def wire_consts)

abbreviation peer_of :: "noise_encoder \<Rightarrow> noise_decoder" where
  "peer_of e \<equiv> \<lparr>dec_nonce = enc_nonce e\<rparr>"

lemma noise_encode_Inr:
  assumes "noise_session wm rm" and "noise_encode wm e f dst = Inr (e', dst')"
  shows "seals wm rm (peer_of e) (frame_bytes f)"
    and "dst' = dst @ sealed_bytes wm (peer_of e) (frame_bytes f)"
    and "enc_nonce e' = enc_nonce e + 1"
  using assms
  by (auto simp: noise_encode_def Let_def seals_def sealed_bytes_def noise_session_def
      to_be_unat_of_nat_u16 simp del: of_nat_add split: if_splits sum.splits)

lemma feed_frames_Inr:
  assumes "noise_session wm rm" and "feed_frames wm e fs dst = Inr (e', dst')"
  shows "ok_all (seals wm rm) next_decoder (peer_of e) (map frame_bytes fs)
    \<and> dst' = dst @ enc_all (sealed_bytes wm) next_decoder (peer_of e) (map frame_bytes fs)
    \<and> foldl next_decoder (peer_of e) (map frame_bytes fs) = peer_of e'"
  using assms(2)
proof (induction fs arbitrary: e dst)
  case Nil
  then show ?case by simp
next
  case (Cons f fs)
  then obtain e1 dst1 where one: "noise_encode wm e f dst = Inr (e1, dst1)"
    and rest: "feed_frames wm e1 fs dst1 = Inr (e', dst')"
    by (auto split: sum.splits)
  note step = noise_encode_Inr [OF assms(1) one]
  have "next_decoder (peer_of e) (frame_bytes f) = peer_of e1"
    by (simp add: next_decoder_def step(3))
  with step Cons.IH [OF rest] show ?case by simp
qed

lemma feed_frames_succeeds:
  assumes "noise_accepts wm"
    and "\<forall>f \<in> set fs. length (frame_payload f) \<le> MAX_PAYLOAD"
    and "unat (enc_nonce e) + length fs < 2 ^ 64"
  shows "\<exists>e' dst'. feed_frames wm e fs dst = Inr (e', dst')"
  using assms(2,3)
proof (induction fs arbitrary: e dst)
  case Nil
  then show ?case by simp
next
  case (Cons f fs)
  have "enc_nonce e \<noteq> - 1"
    using Cons.prems(2) by (auto simp: unsigned_minus_1_eq_mask mask_eq_exp_minus_1)
  moreover have "length (frame_bytes f) + TAG_LEN \<le> MAX_NOISE_MSG"
    using Cons.prems(1) by (simp add: wire_consts)
  ultimately obtain c where c: "wm (enc_nonce e) (frame_bytes f) = Inr c"
    using assms(1) unfolding noise_accepts_def
    by (cases "wm (enc_nonce e) (frame_bytes f)") fastforce+
  then obtain e1 dst1 where one: "noise_encode wm e f dst = Inr (e1, dst1)"
      and nonce: "enc_nonce e1 = enc_nonce e + 1"
    using Cons.prems(1) by (auto simp: noise_encode_def Let_def wire_consts)
  have "unat (enc_nonce e1) \<le> Suc (unat (enc_nonce e))"
    by (simp add: nonce unat_word_ariths)
  with Cons.prems(2) have "unat (enc_nonce e1) + length fs < 2 ^ 64"
    by simp
  with one Cons show ?case by simp
qed

section \<open>Properties\<close>

lemma drain_nonces:
  "drain_buf (noise_decode rm) d b = (ms, e, d', r) \<Longrightarrow>
     dec_nonce d' = dec_nonce d + of_nat (length ms)
     \<and> (\<forall>i < length ms. \<exists>c. rm (dec_nonce d + of_nat i) c = Inr (ms ! i) \<and> TAG_LEN \<le> length c)"
proof (induction d b arbitrary: ms rule: noise_dec.drain_induct [where rm = rm])
  case (step d b m d1 r1)
  from step.prems obtain ms1 where ms: "ms = m # ms1"
    and rest: "drain_buf (noise_decode rm) d1 r1 = (ms1, e, d', r)"
    by (auto simp: noise_dec.drain_step [OF step.hyps] split: prod.splits)
  from step.hyps obtain c where "rm (dec_nonce d) c = Inr m" "TAG_LEN \<le> length c"
    and d1: "dec_nonce d1 = dec_nonce d + 1"
    by (force simp: noise_decode_Some)
  with step.IH [OF rest] show ?case
    by (auto simp: ms nth_Cons algebra_simps split: nat.splits)
qed (auto simp: drain_buf_need drain_buf_fail)

text \<open>
  A concrete session for the witnesses: sealing appends the nonce and eight zero bytes,
  opening checks and strips them.
\<close>

definition demo_seal :: snow_op where
  "demo_seal n p =
     (if length p + TAG_LEN \<le> MAX_NOISE_MSG then Inr (p @ to_be 8 (unat n) @ replicate 8 0)
      else Inl ''input error'')"

definition demo_open :: snow_op where
  "demo_open n c =
     (if TAG_LEN \<le> length c \<and> drop (length c - TAG_LEN) c = to_be 8 (unat n) @ replicate 8 0
      then Inr (take (length c - TAG_LEN) c) else Inl ''decrypt error'')"

lemma demo_session [simp]: "noise_session demo_seal demo_open"
  by (auto simp: noise_session_def demo_seal_def demo_open_def wire_consts split: if_splits)

lemma demo_accepts [simp]: "noise_accepts demo_seal"
  by (simp add: noise_accepts_def demo_seal_def)

lemma link_transport:
  assumes "noise_session wm rm" and "noise_accepts wm"
    and "\<forall>f \<in> set fs. length (frame_payload f) \<le> MAX_PAYLOAD" and "length fs < 2 ^ 64"
  obtains e wire where "feed_frames wm (snd codecs) fs [] = Inr (e, wire)"
    and "\<And>cs. concat cs = wire \<Longrightarrow> feed_all (noise_decode rm) (fst codecs) [] cs
      = (map frame_bytes fs, None, \<lparr>dec_nonce = enc_nonce e\<rparr>, [])"
proof -
  obtain e wire where run: "feed_frames wm (snd codecs) fs [] = Inr (e, wire)"
    using feed_frames_succeeds [OF assms(2,3), of "snd codecs" "[]"] assms(4)
    by (auto simp: codecs_def)
  have "peer_of (snd codecs) = fst codecs"
    by (simp add: codecs_def)
  with feed_frames_Inr [OF assms(1) run] run show ?thesis
    by (intro that [of e wire]) (auto dest: noise_link.transport)
qed

text \<open>
  C25. Where the network cuts the bytes of a link makes no difference, whatever the bytes are:
  two ways of cutting the same stream give the same messages, the same error and the same
  nonce, also when the stream is truncated, tampered with or garbage.
\<close>

theorem link_chunking:
  assumes "concat cs = concat cs'"
    and "feed_all (noise_decode rm) d [] cs = (ms, e, d1, r1)"
    and "feed_all (noise_decode rm) d [] cs' = (ms', e', d2, r2)"
  shows "ms = ms' \<and> e = e' \<and> d1 = d2 \<and> (e = None \<longrightarrow> r1 = r2)"
  using assms by (rule noise_dec.feed_all_split)

theorem link_chunking_witness:
  "feed_all (noise_decode demo_open) (fst codecs) [] [[0], [3, 9]] = ([], Some (bad ''short noise message''), fst codecs, [0, 3, 9])
   \<and> feed_all (noise_decode demo_open) (fst codecs) [] [[0, 3], [9]] = ([], Some (bad ''short noise message''), fst codecs, [0, 3])
   \<and> Some (bad ''short noise message'') = Some (bad ''short noise message'')"
proof -
  have a: "feed_all (noise_decode demo_open) (fst codecs) [] [[0], [3, 9]] = ([], Some (bad ''short noise message''), fst codecs, [0, 3, 9])"
    by (simp add: drain_buf.simps noise_decode_def from_be_def wire_consts)
  have b: "feed_all (noise_decode demo_open) (fst codecs) [] [[0, 3], [9]] = ([], Some (bad ''short noise message''), fst codecs, [0, 3])"
    by (simp add: drain_buf.simps noise_decode_def from_be_def wire_consts)
  show ?thesis
    using link_chunking [OF _ a b] a b by simp
qed

text \<open>
  C26. The decoder never accepts a message out of its place: the \<open>i\<close>-th message it hands on was
  opened by \<open>snow\<close> under the nonce \<open>i\<close> steps after the first, and carried a whole tag. A
  dropped, repeated or reordered message is therefore opened under a nonce it was not sealed
  under.
\<close>

theorem link_nonces_in_order:
  assumes "feed_all (noise_decode rm) d [] cs = (ms, e, d', r)"
  shows "dec_nonce d' = dec_nonce d + of_nat (length ms)
    \<and> (\<forall>i < length ms. \<exists>c. rm (dec_nonce d + of_nat i) c = Inr (ms ! i) \<and> TAG_LEN \<le> length c)"
proof -
  from noise_dec.feed_all_concat [OF assms]
  obtain r' where "drain_buf (noise_decode rm) d ([] @ concat cs) = (ms, e, d', r')" by blast
  then show ?thesis by (rule drain_nonces)
qed

theorem link_nonces_in_order_witness:
  "\<exists>c. demo_open 0 c = Inr [5] \<and> TAG_LEN \<le> length c"
proof -
  have "feed_all (noise_decode demo_open) \<lparr>dec_nonce = 0\<rparr> [] [[0, 17, 5], replicate 16 0]
      = ([[5]], None, \<lparr>dec_nonce = 1\<rparr>, [])"
    by code_simp
  from link_nonces_in_order [OF this] show ?thesis by simp
qed

end
