(* ===== verification/Handshake.thy ===== *)
theory Handshake
  imports Noise
begin

text \<open>
  \<open>src/src/noise.rs\<close>, the handshake half: \<open>read_frame\<close>, \<open>write_frame\<close>, \<open>xx_respond\<close> and the key
  helpers. The socket is the bytes the peer sends before it stops (\<open>rx\<close>), what has been
  written to it (\<open>tx\<close>), and the error a write would return, if any. A peer that stalls is
  handled by the caller's deadline, not here; reading past \<open>rx\<close> is \<open>read_exact\<close>'s
  \<open>UnexpectedEof\<close>.
\<close>

section \<open>Length-prefixed handshake messages\<close>

record hs_io =
  rx :: bytes
  tx :: bytes
  wfail :: "io_error option"

text \<open>\<open>AsyncReadExt::read_exact\<close>: all \<open>n\<close> bytes, or an error.\<close>

definition read_exact :: "nat \<Rightarrow> hs_io \<Rightarrow> hs_io \<times> bytes result" where
  "read_exact n io =
     (if length (rx io) < n then (io\<lparr>rx := []\<rparr>, Inl (IoError UnexpectedEof ''early eof''))
      else (io\<lparr>rx := drop n (rx io)\<rparr>, Inr (take n (rx io))))"

definition read_frame :: "hs_io \<Rightarrow> hs_io \<times> bytes result" where
  "read_frame io =
     (case read_exact 2 io of
        (io1, Inl e) \<Rightarrow> (io1, Inl e)
      | (io1, Inr len_bytes) \<Rightarrow>
          (let len = from_be len_bytes
           in if len > MAX_HANDSHAKE_MSG then (io1, Inl (bad ''handshake message too large''))
              else read_exact len io1))"

definition write_frame :: "hs_io \<Rightarrow> bytes \<Rightarrow> hs_io \<times> unit result" where
  "write_frame io body =
     (if length body > MAX_HANDSHAKE_MSG then (io, Inl (bad ''handshake message too large''))
      else (case wfail io of
              Some e \<Rightarrow> (io, Inl e)
            | None \<Rightarrow>
                (io\<lparr>tx := tx io @ to_be 2 (unat (of_nat (length body) :: u16)) @ body\<rparr>, Inr ())))"

section \<open>The Noise_XX responder\<close>

text \<open>
  The operations of a \<open>snow\<close> handshake the responder calls, on an opaque state \<open>'h\<close>:
  \<open>Builder...build_responder\<close>, \<open>read_message\<close>, \<open>write_message\<close>, \<open>get_remote_static\<close>,
  \<open>into_stateless_transport_mode\<close> (the two directions of the finished transport, of type \<open>'t\<close>).
\<close>

record ('h, 't) snow_ops =
  build_responder :: "string \<Rightarrow> bytes \<Rightarrow> bytes \<Rightarrow> string + 'h"
  hs_read :: "'h \<Rightarrow> bytes \<Rightarrow> string + 'h"
  hs_write :: "'h \<Rightarrow> bytes \<Rightarrow> string + 'h \<times> bytes"
  get_remote_static :: "'h \<Rightarrow> bytes option"
  into_transport :: "'h \<Rightarrow> string + 't"

text \<open>The steps of \<open>xx_respond\<close>, in the order of the source.\<close>

definition xx_finish :: "('h, 't) snow_ops \<Rightarrow> 'h \<Rightarrow> (bytes \<times> 't) result" where
  "xx_finish ops h =
     (case get_remote_static ops h of
        None \<Rightarrow> Inl (bad ''bridge sent no static key'')
      | Some remote \<Rightarrow>
          if length remote \<noteq> 32 then Inl (bad ''bad static key length'')
          else (case into_transport ops h of
                  Inl e \<Rightarrow> Inl (bad e)
                | Inr transport \<Rightarrow> Inr (remote, transport)))"

definition xx_msg3 :: "('h, 't) snow_ops \<Rightarrow> 'h \<Rightarrow> hs_io \<Rightarrow> hs_io \<times> (bytes \<times> 't) result" where
  "xx_msg3 ops h io =
     (case read_frame io of
        (io', Inl e) \<Rightarrow> (io', Inl e)
      | (io', Inr msg3) \<Rightarrow>
          (case hs_read ops h msg3 of
             Inl e \<Rightarrow> (io', Inl (bad e))
           | Inr h' \<Rightarrow> (io', xx_finish ops h')))"

definition xx_msg2 :: "('h, 't) snow_ops \<Rightarrow> 'h \<Rightarrow> hs_io \<Rightarrow> hs_io \<times> (bytes \<times> 't) result" where
  "xx_msg2 ops h io =
     (case hs_write ops h [] of
        Inl e \<Rightarrow> (io, Inl (bad e))
      | Inr (h', msg2) \<Rightarrow>
          (case write_frame io msg2 of
             (io', Inl e) \<Rightarrow> (io', Inl e)
           | (io', Inr _) \<Rightarrow> xx_msg3 ops h' io'))"

definition xx_respond ::
    "('h, 't) snow_ops \<Rightarrow> hs_io \<Rightarrow> bytes \<Rightarrow> bytes \<Rightarrow> hs_io \<times> (bytes \<times> 't) result" where
  "xx_respond ops io private_key prologue =
     (case build_responder ops NOISE_XX private_key prologue of
        Inl e \<Rightarrow> (io, Inl (bad e))
      | Inr h \<Rightarrow>
          (case read_frame io of
             (io', Inl e) \<Rightarrow> (io', Inl e)
           | (io', Inr msg1) \<Rightarrow>
               (case hs_read ops h msg1 of
                  Inl e \<Rightarrow> (io', Inl (bad e))
                | Inr h' \<Rightarrow> xx_msg2 ops h' io')))"

section \<open>Keys\<close>

text \<open>\<open>public_key_of\<close>: the curve arithmetic of \<open>x25519_dalek\<close> is the argument \<open>x25519\<close>.\<close>

definition public_key_of :: "(bytes \<Rightarrow> bytes) \<Rightarrow> bytes \<Rightarrow> bytes result" where
  "public_key_of x25519 private_key =
     (if length private_key \<noteq> 32 then Inl (bad ''private key must be 32 bytes'')
      else Inr (x25519 private_key))"

text \<open>\<open>generate_keypair\<close>: \<open>gen\<close> is what \<open>snow\<close>'s builder answers for the suite.\<close>

definition generate_keypair :: "(string \<Rightarrow> string + bytes \<times> bytes) \<Rightarrow> (bytes \<times> bytes) result" where
  "generate_keypair gen =
     (case gen NOISE_XX of Inl e \<Rightarrow> Inl (bad e) | Inr (private, public) \<Rightarrow> Inr (private, public))"

section \<open>Lemmas\<close>

lemmas frame_io_defs = read_exact_def read_frame_def write_frame_def Let_def

definition lp :: "bytes \<Rightarrow> bytes" where
  "lp body = to_be 2 (length body) @ body"

lemma read_frame_Inr:
  "read_frame io = (io', Inr body) \<longleftrightarrow>
     length body \<le> MAX_HANDSHAKE_MSG \<and> rx io = lp body @ rx io' \<and> io' = io\<lparr>rx := rx io'\<rparr>"
proof
  assume "read_frame io = (io', Inr body)"
  then have len: "2 \<le> length (rx io)" and n: "from_be (take 2 (rx io)) \<le> MAX_HANDSHAKE_MSG"
    and enough: "from_be (take 2 (rx io)) \<le> length (drop 2 (rx io))"
    and body: "body = take (from_be (take 2 (rx io))) (drop 2 (rx io))"
    and rest: "io' = io\<lparr>rx := drop (from_be (take 2 (rx io))) (drop 2 (rx io))\<rparr>"
    by (auto simp: frame_io_defs split: if_splits)
  have "to_be 2 (from_be (take 2 (rx io))) = take 2 (rx io)"
    using to_be_from_be [of "take 2 (rx io)"] len by simp
  then show "length body \<le> MAX_HANDSHAKE_MSG \<and> rx io = lp body @ rx io' \<and> io' = io\<lparr>rx := rx io'\<rparr>"
    using n enough by (simp add: body rest lp_def del: drop_drop)
next
  assume "length body \<le> MAX_HANDSHAKE_MSG \<and> rx io = lp body @ rx io' \<and> io' = io\<lparr>rx := rx io'\<rparr>"
  then show "read_frame io = (io', Inr body)"
    by (cases io') (auto simp: frame_io_defs lp_def from_be_to_be wire_consts)
qed

lemma write_frame_Inr:
  "write_frame io body = (io', Inr u) \<longleftrightarrow>
     length body \<le> MAX_HANDSHAKE_MSG \<and> wfail io = None \<and> io' = io\<lparr>tx := tx io @ lp body\<rparr>"
  by (auto simp: write_frame_def lp_def to_be_unat_of_nat_u16 split: option.splits)

lemma read_frame_tx [simp]: "read_frame io = (io', r) \<Longrightarrow> tx io' = tx io"
  by (auto simp: frame_io_defs split: if_splits)

lemma write_frame_tx:
  "write_frame io body = (io', r) \<Longrightarrow> tx io' = tx io \<or> tx io' = tx io @ lp body \<and> length body \<le> MAX_HANDSHAKE_MSG"
  by (auto simp: write_frame_def lp_def to_be_unat_of_nat_u16 split: option.splits if_splits)

lemma xx_msg3_tx: "xx_msg3 ops h io = (io', r) \<Longrightarrow> tx io' = tx io"
  by (auto simp: xx_msg3_def split: prod.splits sum.splits)

lemma xx_msg2_tx:
  "xx_msg2 ops h io = (io', r) \<Longrightarrow>
   tx io' = tx io \<or> (\<exists>m2. tx io' = tx io @ lp m2 \<and> length m2 \<le> MAX_HANDSHAKE_MSG)"
  unfolding xx_msg2_def
  by (auto split: prod.splits sum.splits dest!: xx_msg3_tx write_frame_tx)

lemma xx_finish_Inr:
  "xx_finish ops h = Inr (key, t) \<longleftrightarrow>
     get_remote_static ops h = Some key \<and> length key = 32 \<and> into_transport ops h = Inr t"
  by (auto simp: xx_finish_def split: option.splits sum.splits)

lemma xx_msg3_Inr:
  "xx_msg3 ops h io = (io', Inr kt) \<longleftrightarrow>
     (\<exists>m3 h3. read_frame io = (io', Inr m3) \<and> hs_read ops h m3 = Inr h3
        \<and> xx_finish ops h3 = Inr kt)"
  by (auto simp: xx_msg3_def split: prod.splits sum.splits)

lemma xx_msg2_Inr:
  "xx_msg2 ops h io = (io', Inr kt) \<longleftrightarrow>
     (\<exists>h2 m2 io2. hs_write ops h [] = Inr (h2, m2) \<and> write_frame io m2 = (io2, Inr ())
        \<and> xx_msg3 ops h2 io2 = (io', Inr kt))"
  by (auto simp: xx_msg2_def split: prod.splits sum.splits)

lemma xx_respond_Inr:
  "xx_respond ops io pk head = (io', Inr kt) \<longleftrightarrow>
     (\<exists>h0 m1 h1 io1. build_responder ops NOISE_XX pk head = Inr h0
        \<and> read_frame io = (io1, Inr m1) \<and> hs_read ops h0 m1 = Inr h1
        \<and> xx_msg2 ops h1 io1 = (io', Inr kt))"
  by (auto simp: xx_respond_def split: prod.splits sum.splits)

lemmas xx_success = xx_respond_Inr xx_msg2_Inr xx_msg3_Inr xx_finish_Inr read_frame_Inr write_frame_Inr

lemma rx_update_tx [simp]: "io\<lparr>rx := a, tx := b\<rparr> = io\<lparr>tx := b, rx := a\<rparr>"
  by (cases io) simp

lemma xx_respond_complete:
  assumes "build_responder ops NOISE_XX pk head = Inr h0"
    and "rx io = lp m1 @ lp m3 @ rest" and "wfail io = None"
    and "length m1 \<le> MAX_HANDSHAKE_MSG" and "length m2 \<le> MAX_HANDSHAKE_MSG"
    and "length m3 \<le> MAX_HANDSHAKE_MSG"
    and "hs_read ops h0 m1 = Inr h1" and "hs_write ops h1 [] = Inr (h2, m2)"
    and "hs_read ops h2 m3 = Inr h3"
    and "get_remote_static ops h3 = Some key" and "length key = 32" and "into_transport ops h3 = Inr t"
  shows "xx_respond ops io pk head = (io\<lparr>rx := rest, tx := tx io @ lp m2\<rparr>, Inr (key, t))"
proof -
  have r1: "read_frame io = (io\<lparr>rx := lp m3 @ rest\<rparr>, Inr m1)"
    using assms by (simp add: read_frame_Inr)
  have w2: "write_frame (io\<lparr>rx := lp m3 @ rest\<rparr>) m2
      = (io\<lparr>rx := lp m3 @ rest, tx := tx io @ lp m2\<rparr>, Inr ())"
    using assms by (simp add: write_frame_Inr)
  have r3: "read_frame (io\<lparr>rx := lp m3 @ rest, tx := tx io @ lp m2\<rparr>)
      = (io\<lparr>rx := rest, tx := tx io @ lp m2\<rparr>, Inr m3)"
    using assms by (simp add: read_frame_Inr)
  show ?thesis
    using assms r1 w2 r3
    by (simp add: xx_respond_def xx_msg2_def xx_msg3_def xx_finish_def)
qed

section \<open>Properties\<close>

lemma read_frame_parts:
  assumes "read_frame io = (io', Inr body)"
  shows "length body \<le> MAX_HANDSHAKE_MSG" "rx io = lp body @ rx io'" "tx io' = tx io" "wfail io' = wfail io"
  using assms by (cases io; cases io'; simp add: read_frame_Inr)+

lemma xx_respond_success:
  assumes "xx_respond ops io pk head = (io', Inr (key, t))"
  obtains h0 h1 h2 h3 m1 m2 m3 where
    "build_responder ops NOISE_XX pk head = Inr h0"
    "rx io = lp m1 @ lp m3 @ rx io'" "tx io' = tx io @ lp m2" "wfail io = None"
    "length m1 \<le> MAX_HANDSHAKE_MSG" "length m2 \<le> MAX_HANDSHAKE_MSG" "length m3 \<le> MAX_HANDSHAKE_MSG"
    "hs_read ops h0 m1 = Inr h1" "hs_write ops h1 [] = Inr (h2, m2)" "hs_read ops h2 m3 = Inr h3"
    "get_remote_static ops h3 = Some key" "length key = 32" "into_transport ops h3 = Inr t"
proof -
  from assms obtain h0 m1 h1 io1 h2 m2 io2 m3 h3 where
    *: "build_responder ops NOISE_XX pk head = Inr h0" "read_frame io = (io1, Inr m1)"
      "hs_read ops h0 m1 = Inr h1" "hs_write ops h1 [] = Inr (h2, m2)"
      "write_frame io1 m2 = (io2, Inr ())" "read_frame io2 = (io', Inr m3)"
      "hs_read ops h2 m3 = Inr h3" "xx_finish ops h3 = Inr (key, t)"
    by (auto simp: xx_respond_Inr xx_msg2_Inr xx_msg3_Inr)
  have io1: "rx io = lp m1 @ rx io1" "tx io1 = tx io" "wfail io1 = wfail io" "length m1 \<le> MAX_HANDSHAKE_MSG"
    using read_frame_parts [OF *(2)] by simp_all
  have io2: "rx io2 = rx io1" "tx io2 = tx io1 @ lp m2" "wfail io1 = None" "length m2 \<le> MAX_HANDSHAKE_MSG"
    using *(5) by (auto simp: write_frame_Inr)
  have io3: "rx io2 = lp m3 @ rx io'" "tx io' = tx io2" "length m3 \<le> MAX_HANDSHAKE_MSG"
    using read_frame_parts [OF *(6)] by simp_all
  show ?thesis
    using io1 io2 io3 * by (intro that [of h0 m1 m3 m2 h1 h2 h3]) (simp_all add: xx_finish_Inr)
qed

text \<open>
  C27. \<open>xx_respond\<close> adopts a bridge exactly when the three-message exchange succeeds: two
  length-prefixed messages of at most \<open>MAX_HANDSHAKE_MSG\<close> bytes arrive, \<open>snow\<close> accepts both
  in turn on a responder bound to the 37-byte preamble as prologue, the one reply is written
  between them, and the key it returns is the 32-byte static key \<open>snow\<close> reports. Nothing
  behind the third message is consumed.
\<close>

theorem xx_respond_iff:
  "xx_respond ops io pk head = (io', Inr (key, t)) \<longleftrightarrow>
     (\<exists>h0 h1 h2 h3 m1 m2 m3 rest.
        build_responder ops NOISE_XX pk head = Inr h0 \<and> wfail io = None
        \<and> rx io = lp m1 @ lp m3 @ rest \<and> io' = io\<lparr>rx := rest, tx := tx io @ lp m2\<rparr>
        \<and> length m1 \<le> MAX_HANDSHAKE_MSG \<and> length m2 \<le> MAX_HANDSHAKE_MSG \<and> length m3 \<le> MAX_HANDSHAKE_MSG
        \<and> hs_read ops h0 m1 = Inr h1 \<and> hs_write ops h1 [] = Inr (h2, m2) \<and> hs_read ops h2 m3 = Inr h3
        \<and> get_remote_static ops h3 = Some key \<and> length key = 32 \<and> into_transport ops h3 = Inr t)"
    (is "?run \<longleftrightarrow> ?exchange")
proof
  assume run: ?run
  then show ?exchange
  proof (rule xx_respond_success, goal_cases)
    case (1 h0 h1 h2 h3 m1 m2 m3)
    have "xx_respond ops io pk head = (io\<lparr>rx := rx io', tx := tx io @ lp m2\<rparr>, Inr (key, t))"
      by (rule xx_respond_complete) (use 1 in simp_all)
    with run have "io' = io\<lparr>rx := rx io', tx := tx io @ lp m2\<rparr>" by simp
    with 1 show ?case by blast
  qed
next
  assume ?exchange
  then show ?run by (elim exE conjE) (simp only: xx_respond_complete)
qed

text \<open>
  C28. Whatever the peer sends, and whatever \<open>snow\<close> makes of it, an unauthenticated peer gets
  back nothing or one message of at most 1026 bytes, length prefix included.
\<close>

theorem xx_respond_reply_bounded:
  "\<exists>reply. tx (fst (xx_respond ops io pk head)) = tx io @ reply \<and> length reply \<le> 2 + MAX_HANDSHAKE_MSG"
proof -
  obtain io' r where run: "xx_respond ops io pk head = (io', r)"
    by (cases "xx_respond ops io pk head")
  then have "tx io' = tx io \<or> (\<exists>m2. tx io' = tx io @ lp m2 \<and> length m2 \<le> MAX_HANDSHAKE_MSG)"
    by (auto simp: xx_respond_def split: sum.splits prod.splits dest!: xx_msg2_tx)
  with run show ?thesis
    by (auto simp: lp_def intro: exI [of _ "[]"])
qed

text \<open>
  An oversized handshake length is refused on the two bytes of the prefix: nothing of the
  announced body is read or buffered, and any length within the bound is honoured exactly.
\<close>

theorem read_frame_prefix:
  assumes "rx io = to_be 2 n @ body" and "n < 65536"
  shows "read_frame io =
     (if MAX_HANDSHAKE_MSG < n then (io\<lparr>rx := body\<rparr>, Inl (bad ''handshake message too large''))
      else if length body < n then (io\<lparr>rx := []\<rparr>, Inl (IoError UnexpectedEof ''early eof''))
      else (io\<lparr>rx := drop n body\<rparr>, Inr (take n body)))"
  using assms by (auto simp: frame_io_defs from_be_to_be)

theorem read_frame_prefix_witness:
  "read_frame \<lparr>rx = to_be 2 2048 @ [1, 2, 3], tx = [], wfail = None\<rparr> =
     (if MAX_HANDSHAKE_MSG < 2048
      then (\<lparr>rx = to_be 2 2048 @ [1, 2, 3], tx = [], wfail = None\<rparr>\<lparr>rx := [1, 2, 3]\<rparr>,
            Inl (bad ''handshake message too large''))
      else if length [1 :: u8, 2, 3] < 2048
      then (\<lparr>rx = to_be 2 2048 @ [1, 2, 3], tx = [], wfail = None\<rparr>\<lparr>rx := []\<rparr>,
            Inl (IoError UnexpectedEof ''early eof''))
      else (\<lparr>rx = to_be 2 2048 @ [1, 2, 3], tx = [], wfail = None\<rparr>\<lparr>rx := drop 2048 [1, 2, 3]\<rparr>,
            Inr (take 2048 [1, 2, 3])))"
  by (rule read_frame_prefix) simp_all

end
