(* ===== verification/Tokio.thy ===== *)
theory Tokio
  imports Wire
begin

text \<open>
  The synchronisation primitives the mux is built on, \<open>tokio::sync::Semaphore\<close> and the bounded
  \<open>tokio::sync::mpsc\<close> channel. They are not part of the sources, so they are parameters: a
  record of operations on an opaque state, with the observers their documentation is written
  in terms of, and the documented behaviour as the predicates \<open>sem_laws\<close> and \<open>chan_laws\<close>. One
  operation is one indivisible access; a method that awaits is polled, and answers that it
  has to wait.
\<close>

section \<open>Semaphores\<close>

datatype 'q acquired = Acquired 'q | NoPermits | SemClosed

text \<open>
  \<open>sem_acquire n\<close> is one attempt to take \<open>n\<close> permits: \<open>try_acquire_owned\<close> fails on both other
  answers, \<open>acquire_many\<close> waits on \<open>NoPermits\<close>. \<open>sem_add\<close> is \<open>add_permits\<close>, with \<open>None\<close> for its
  panic above \<open>MAX_PERMITS\<close>; \<open>sem_release\<close> is the drop of a permit.
\<close>

record 'q sem_ops =
  sem_new :: "nat \<Rightarrow> 'q"
  sem_acquire :: "nat \<Rightarrow> 'q \<Rightarrow> 'q acquired"
  sem_add :: "nat \<Rightarrow> 'q \<Rightarrow> 'q option"
  sem_release :: "nat \<Rightarrow> 'q \<Rightarrow> 'q"
  sem_close :: "'q \<Rightarrow> 'q"
  permits :: "'q \<Rightarrow> nat"
  sem_closed :: "'q \<Rightarrow> bool"
  max_permits :: nat

definition sem_laws :: "'q sem_ops \<Rightarrow> bool" where
  "sem_laws ops \<longleftrightarrow>
     unat WINDOW \<le> max_permits ops
     \<and> (\<forall>n \<le> max_permits ops. permits ops (sem_new ops n) = n \<and> \<not> sem_closed ops (sem_new ops n))
     \<and> (\<forall>n q. case sem_acquire ops n q of
           Acquired q' \<Rightarrow> \<not> sem_closed ops q \<and> permits ops q = permits ops q' + n \<and> \<not> sem_closed ops q'
         | NoPermits \<Rightarrow> \<not> sem_closed ops q \<and> permits ops q < n
         | SemClosed \<Rightarrow> sem_closed ops q)
     \<and> (\<forall>n q. case sem_add ops n q of
           Some q' \<Rightarrow> permits ops q' = permits ops q + n \<and> sem_closed ops q' = sem_closed ops q
             \<and> permits ops q + n \<le> max_permits ops
         | None \<Rightarrow> max_permits ops < permits ops q + n)
     \<and> (\<forall>n q. permits ops (sem_release ops n q) = permits ops q + n
           \<and> sem_closed ops (sem_release ops n q) = sem_closed ops q)
     \<and> (\<forall>q. permits ops (sem_close ops q) = permits ops q \<and> sem_closed ops (sem_close ops q))"

section \<open>Channels\<close>

datatype 'c sending = SendOk 'c | SendFull | SendClosed

datatype ('c, 'a) received = Got 'a 'c | NothingYet | Ended

text \<open>
  \<open>ch_try_send\<close> is one attempt to put a message: \<open>try_send\<close> hands all three answers on,
  \<open>send\<close> waits on \<open>SendFull\<close>. \<open>ch_recv\<close> is one poll of \<open>recv\<close>. \<open>ch_drop_tx\<close> is the drop of the
  last sender, \<open>ch_drop_rx\<close> of the receiver.
\<close>

record ('c, 'a) chan_ops =
  ch_new :: "nat \<Rightarrow> 'c"
  ch_try_send :: "'a \<Rightarrow> 'c \<Rightarrow> 'c sending"
  ch_recv :: "'c \<Rightarrow> ('c, 'a) received"
  ch_drop_tx :: "'c \<Rightarrow> 'c"
  ch_drop_rx :: "'c \<Rightarrow> 'c"
  ch_items :: "'c \<Rightarrow> 'a list"
  ch_cap :: "'c \<Rightarrow> nat"
  ch_tx_open :: "'c \<Rightarrow> bool"
  ch_rx_open :: "'c \<Rightarrow> bool"

text \<open>What an observer sees of a channel: its messages, capacity, and which ends are there.\<close>

definition ch_view :: "('c, 'a) chan_ops \<Rightarrow> 'c \<Rightarrow> 'a list \<times> nat \<times> bool \<times> bool" where
  "ch_view ops c = (ch_items ops c, ch_cap ops c, ch_tx_open ops c, ch_rx_open ops c)"

definition chan_laws :: "('c, 'a) chan_ops \<Rightarrow> bool" where
  "chan_laws ops \<longleftrightarrow>
     (\<forall>n. 0 < n \<longrightarrow> ch_view ops (ch_new ops n) = ([], n, True, True))
     \<and> (\<forall>x c. case ch_try_send ops x c of
           SendOk c' \<Rightarrow> ch_rx_open ops c \<and> length (ch_items ops c) < ch_cap ops c
             \<and> ch_view ops c' = (ch_items ops c @ [x], ch_cap ops c, ch_tx_open ops c, True)
         | SendFull \<Rightarrow> ch_rx_open ops c \<and> ch_cap ops c \<le> length (ch_items ops c)
         | SendClosed \<Rightarrow> \<not> ch_rx_open ops c)
     \<and> (\<forall>c. ch_rx_open ops c \<longrightarrow>
           (case ch_recv ops c of
              Got x c' \<Rightarrow> ch_items ops c = x # ch_items ops c' \<and> ch_cap ops c' = ch_cap ops c
                \<and> ch_tx_open ops c' = ch_tx_open ops c \<and> ch_rx_open ops c'
            | NothingYet \<Rightarrow> ch_items ops c = [] \<and> ch_tx_open ops c
            | Ended \<Rightarrow> ch_items ops c = [] \<and> \<not> ch_tx_open ops c))
     \<and> (\<forall>c. ch_view ops (ch_drop_tx ops c) = (ch_items ops c, ch_cap ops c, False, ch_rx_open ops c))
     \<and> (\<forall>c. \<not> ch_rx_open ops (ch_drop_rx ops c) \<and> ch_items ops (ch_drop_rx ops c) = []
           \<and> ch_tx_open ops (ch_drop_rx ops c) = ch_tx_open ops c)"

section \<open>The runtime\<close>

record ('q, 'b, 'o) runtime =
  sem :: "'q sem_ops"
  inch :: "('b, bytes) chan_ops"
  outch :: "('o, frame) chan_ops"

definition runtime_laws :: "('q, 'b, 'o) runtime \<Rightarrow> bool" where
  "runtime_laws rt \<longleftrightarrow> sem_laws (sem rt) \<and> chan_laws (inch rt) \<and> chan_laws (outch rt)"

subsection \<open>The laws as rewrite rules\<close>

lemma sem_new_laws:
  assumes "sem_laws ops" and "n \<le> max_permits ops"
  shows "permits ops (sem_new ops n) = n" "\<not> sem_closed ops (sem_new ops n)"
  using assms unfolding sem_laws_def by blast+

lemma window_permits:
  assumes "sem_laws ops"
  shows "permits ops (sem_new ops (unat WINDOW)) = unat WINDOW" "\<not> sem_closed ops (sem_new ops (unat WINDOW))"
  using sem_new_laws [OF assms assms [unfolded sem_laws_def, THEN conjunct1]] by simp_all

lemma sem_acquire_laws:
  assumes "sem_laws ops"
  shows "sem_acquire ops n q = Acquired q' \<Longrightarrow>
      permits ops q = permits ops q' + n \<and> \<not> sem_closed ops q \<and> \<not> sem_closed ops q'"
    and "sem_acquire ops n q = NoPermits \<Longrightarrow> \<not> sem_closed ops q \<and> permits ops q < n"
    and "sem_acquire ops n q = SemClosed \<Longrightarrow> sem_closed ops q"
proof -
  have "case sem_acquire ops n q of
      Acquired q' \<Rightarrow> \<not> sem_closed ops q \<and> permits ops q = permits ops q' + n \<and> \<not> sem_closed ops q'
    | NoPermits \<Rightarrow> \<not> sem_closed ops q \<and> permits ops q < n
    | SemClosed \<Rightarrow> sem_closed ops q"
    using assms unfolding sem_laws_def by blast
  then show "sem_acquire ops n q = Acquired q' \<Longrightarrow>
      permits ops q = permits ops q' + n \<and> \<not> sem_closed ops q \<and> \<not> sem_closed ops q'"
    and "sem_acquire ops n q = NoPermits \<Longrightarrow> \<not> sem_closed ops q \<and> permits ops q < n"
    and "sem_acquire ops n q = SemClosed \<Longrightarrow> sem_closed ops q"
    by simp_all
qed

lemma sem_acquire_open:
  assumes "sem_laws ops" and "\<not> sem_closed ops q" and "n \<le> permits ops q"
  obtains q' where "sem_acquire ops n q = Acquired q'" "permits ops q' = permits ops q - n" "\<not> sem_closed ops q'"
  using assms sem_acquire_laws [OF assms(1), of n q]
  by (cases "sem_acquire ops n q") auto

lemma sem_add_laws:
  assumes "sem_laws ops"
  shows "sem_add ops n q = Some q' \<Longrightarrow>
      permits ops q' = permits ops q + n \<and> sem_closed ops q' = sem_closed ops q \<and> permits ops q + n \<le> max_permits ops"
    and "sem_add ops n q = None \<longleftrightarrow> max_permits ops < permits ops q + n"
proof -
  have *: "case sem_add ops n q of
      Some q' \<Rightarrow> permits ops q' = permits ops q + n \<and> sem_closed ops q' = sem_closed ops q
        \<and> permits ops q + n \<le> max_permits ops
    | None \<Rightarrow> max_permits ops < permits ops q + n"
    using assms unfolding sem_laws_def by blast
  then show "sem_add ops n q = Some q' \<Longrightarrow>
      permits ops q' = permits ops q + n \<and> sem_closed ops q' = sem_closed ops q \<and> permits ops q + n \<le> max_permits ops"
    by simp
  from * show "sem_add ops n q = None \<longleftrightarrow> max_permits ops < permits ops q + n"
    by (cases "sem_add ops n q") auto
qed

lemma sem_release_laws:
  assumes "sem_laws ops"
  shows "permits ops (sem_release ops n q) = permits ops q + n"
    "sem_closed ops (sem_release ops n q) = sem_closed ops q"
  using assms unfolding sem_laws_def by blast+

lemma sem_close_laws:
  assumes "sem_laws ops"
  shows "permits ops (sem_close ops q) = permits ops q" "sem_closed ops (sem_close ops q)"
  using assms unfolding sem_laws_def by blast+

lemma ch_new_laws:
  assumes "chan_laws ops" and "0 < n"
  shows "ch_view ops (ch_new ops n) = ([], n, True, True)"
  using assms unfolding chan_laws_def by blast

lemma ch_try_send_laws:
  assumes "chan_laws ops"
  shows "ch_try_send ops x c = SendOk c' \<Longrightarrow> ch_rx_open ops c \<and> length (ch_items ops c) < ch_cap ops c
      \<and> ch_view ops c' = (ch_items ops c @ [x], ch_cap ops c, ch_tx_open ops c, True)"
    and "ch_try_send ops x c = SendFull \<Longrightarrow> ch_rx_open ops c \<and> ch_cap ops c \<le> length (ch_items ops c)"
    and "ch_try_send ops x c = SendClosed \<Longrightarrow> \<not> ch_rx_open ops c"
proof -
  have *: "case ch_try_send ops x c of
      SendOk c' \<Rightarrow> ch_rx_open ops c \<and> length (ch_items ops c) < ch_cap ops c
        \<and> ch_view ops c' = (ch_items ops c @ [x], ch_cap ops c, ch_tx_open ops c, True)
    | SendFull \<Rightarrow> ch_rx_open ops c \<and> ch_cap ops c \<le> length (ch_items ops c)
    | SendClosed \<Rightarrow> \<not> ch_rx_open ops c"
    using assms unfolding chan_laws_def by blast
  show "ch_try_send ops x c = SendOk c' \<Longrightarrow> ch_rx_open ops c \<and> length (ch_items ops c) < ch_cap ops c
      \<and> ch_view ops c' = (ch_items ops c @ [x], ch_cap ops c, ch_tx_open ops c, True)"
    and "ch_try_send ops x c = SendFull \<Longrightarrow> ch_rx_open ops c \<and> ch_cap ops c \<le> length (ch_items ops c)"
    and "ch_try_send ops x c = SendClosed \<Longrightarrow> \<not> ch_rx_open ops c"
    using * by simp_all
qed

lemma ch_recv_laws:
  assumes "chan_laws ops" and "ch_rx_open ops c"
  shows "ch_recv ops c = Got x c' \<Longrightarrow> ch_items ops c = x # ch_items ops c' \<and> ch_cap ops c' = ch_cap ops c
      \<and> ch_tx_open ops c' = ch_tx_open ops c \<and> ch_rx_open ops c'"
    and "ch_recv ops c = NothingYet \<Longrightarrow> ch_items ops c = [] \<and> ch_tx_open ops c"
    and "ch_recv ops c = Ended \<Longrightarrow> ch_items ops c = [] \<and> \<not> ch_tx_open ops c"
proof -
  have *: "case ch_recv ops c of
      Got x c' \<Rightarrow> ch_items ops c = x # ch_items ops c' \<and> ch_cap ops c' = ch_cap ops c
        \<and> ch_tx_open ops c' = ch_tx_open ops c \<and> ch_rx_open ops c'
    | NothingYet \<Rightarrow> ch_items ops c = [] \<and> ch_tx_open ops c
    | Ended \<Rightarrow> ch_items ops c = [] \<and> \<not> ch_tx_open ops c"
    using assms unfolding chan_laws_def by blast
  show "ch_recv ops c = Got x c' \<Longrightarrow> ch_items ops c = x # ch_items ops c' \<and> ch_cap ops c' = ch_cap ops c
      \<and> ch_tx_open ops c' = ch_tx_open ops c \<and> ch_rx_open ops c'"
    and "ch_recv ops c = NothingYet \<Longrightarrow> ch_items ops c = [] \<and> ch_tx_open ops c"
    and "ch_recv ops c = Ended \<Longrightarrow> ch_items ops c = [] \<and> \<not> ch_tx_open ops c"
    using * by simp_all
qed

lemma ch_drop_laws:
  assumes "chan_laws ops"
  shows "ch_view ops (ch_drop_tx ops c) = (ch_items ops c, ch_cap ops c, False, ch_rx_open ops c)"
    and "\<not> ch_rx_open ops (ch_drop_rx ops c)"
    and "ch_items ops (ch_drop_rx ops c) = []"
    and "ch_tx_open ops (ch_drop_rx ops c) = ch_tx_open ops c"
  using assms unfolding chan_laws_def by blast+

section \<open>A concrete runtime\<close>

text \<open>
  Counters and lists that obey the laws, with the \<open>MAX_PERMITS\<close> of a 64-bit target: the
  instance at which the theorems are evaluated.
\<close>

definition count_sem :: "(nat \<times> bool) sem_ops" where
  "count_sem = \<lparr>
     sem_new = (\<lambda>n. (n, False)),
     sem_acquire = (\<lambda>n (k, c). if c then SemClosed else if k < n then NoPermits else Acquired (k - n, False)),
     sem_add = (\<lambda>n (k, c). if 2 ^ 61 - 1 < k + n then None else Some (k + n, c)),
     sem_release = (\<lambda>n (k, c). (k + n, c)),
     sem_close = (\<lambda>(k, c). (k, True)),
     permits = fst, sem_closed = snd, max_permits = 2 ^ 61 - 1\<rparr>"

definition list_chan :: "('a list \<times> nat \<times> bool \<times> bool, 'a) chan_ops" where
  "list_chan = \<lparr>
     ch_new = (\<lambda>n. ([], n, True, True)),
     ch_try_send = (\<lambda>x (xs, n, t, r). if \<not> r then SendClosed
        else if length xs < n then SendOk (xs @ [x], n, t, True) else SendFull),
     ch_recv = (\<lambda>(xs, n, t, r). case xs of x # ys \<Rightarrow> Got x (ys, n, t, r) | [] \<Rightarrow> if t then NothingYet else Ended),
     ch_drop_tx = (\<lambda>(xs, n, t, r). (xs, n, False, r)),
     ch_drop_rx = (\<lambda>(xs, n, t, r). ([], n, t, False)),
     ch_items = fst, ch_cap = (\<lambda>(xs, n, t, r). n), ch_tx_open = (\<lambda>(xs, n, t, r). t),
     ch_rx_open = (\<lambda>(xs, n, t, r). r)\<rparr>"

type_synonym 'a list_chan = "'a list \<times> nat \<times> bool \<times> bool"

definition demo_rt :: "(nat \<times> bool, bytes list_chan, frame list_chan) runtime" where
  "demo_rt = \<lparr>sem = count_sem, inch = list_chan, outch = list_chan\<rparr>"

lemma count_sem_laws: "sem_laws count_sem"
  by (auto simp: sem_laws_def count_sem_def unat_WINDOW)

lemma list_chan_laws: "chan_laws list_chan"
  by (auto simp: chan_laws_def list_chan_def ch_view_def split: list.splits)

lemma demo_rt_laws [simp]: "runtime_laws demo_rt"
  by (simp add: runtime_laws_def demo_rt_def count_sem_laws list_chan_laws)

end
