(* ===== verification/Mux.thy ===== *)
theory Mux
  imports Tokio "HOL-Library.AList"
begin

text \<open>
  \<open>src/src/mux.rs\<close>, the session: one bridge link and the streams riding it. The state is
  \<open>MuxSession\<close>; the operations are \<open>start\<close>, the three stages of \<open>try_open_stream\<close>, the reader's
  handling of one frame, \<open>StreamTx\<close>'s \<open>send\<close>, \<open>grant\<close> and \<open>close\<close>, \<open>close_stream\<close> and \<open>shutdown\<close>.

  A stream's inbox channel and credit semaphore are shared between the session's table and
  the \<open>StreamTx\<close>/\<open>StreamRx\<close> halves, and outlive the table entry. They live in the list
  \<open>shared\<close>; table and halves hold the index. The table (a \<open>DashMap\<close>) is an association list.
\<close>

section \<open>Constants\<close>

definition INBOX_FRAMES :: nat where
  [wire_consts]: "INBOX_FRAMES = 1024"

definition OUTBOX_FRAMES :: nat where
  [wire_consts]: "OUTBOX_FRAMES = 256"

definition broken :: io_error where
  "broken = IoError BrokenPipe ''bridge link closed''"

section \<open>State\<close>

type_synonym addr = nat

text \<open>The \<open>_budget\<close> permit of a \<open>StreamState\<close> has no value: it is returned by \<open>drop_state\<close>.\<close>

record ('q, 'b) stream_state =
  inbox :: 'b
  credit :: 'q

record ('q, 'b, 'o) mux_session =
  out :: 'o
  streams :: "(u32 \<times> addr) list"
  next_id :: u32
  budget :: 'q
  shared :: "('q, 'b) stream_state list"
  on_open :: bool

text \<open>\<open>StreamTx\<close>, less its handle on the session. A \<open>StreamRx\<close> is the address of its inbox.\<close>

record stream_tx =
  tx_id :: u32
  tx_addr :: addr

text \<open>
  \<open>MuxSession::start\<close>, the session it builds; \<open>None\<close> is the panic of \<open>Semaphore::new\<close> above
  \<open>MAX_PERMITS\<close>. Whether a handler is registered by \<open>on_open\<close> is the last argument.
\<close>

definition start :: "('q, 'b, 'o) runtime \<Rightarrow> nat \<Rightarrow> bool \<Rightarrow> ('q, 'b, 'o) mux_session option" where
  "start rt max_streams handler =
     (if max_permits (sem rt) < max max_streams 1 then None
      else Some \<lparr>out = ch_new (outch rt) OUTBOX_FRAMES, streams = [], next_id = 1,
                 budget = sem_new (sem rt) (max max_streams 1), shared = [], on_open = handler\<rparr>)"

definition stream_count :: "('q, 'b, 'o) mux_session \<Rightarrow> nat" where
  "stream_count s = length (streams s)"

text \<open>
  \<open>MuxSession::on_open\<close>: the handler is a \<open>OnceLock\<close>, so the first registration stands; which
  handler it is does not matter to the session, only that there is one.
\<close>

definition register_handler :: "('q, 'b, 'o) mux_session \<Rightarrow> ('q, 'b, 'o) mux_session" where
  "register_handler s = s\<lparr>on_open := True\<rparr>"

section \<open>Table operations\<close>

definition new_stream :: "('q, 'b, 'o) runtime \<Rightarrow> ('q, 'b) stream_state" where
  "new_stream rt = \<lparr>inbox = ch_new (inch rt) INBOX_FRAMES, credit = sem_new (sem rt) (unat WINDOW)\<rparr>"

text \<open>Dropping a \<open>StreamState\<close>: its sender goes, its budget slot is free again.\<close>

definition drop_state :: "('q, 'b, 'o) runtime \<Rightarrow> addr \<Rightarrow> ('q, 'b, 'o) mux_session \<Rightarrow> ('q, 'b, 'o) mux_session" where
  "drop_state rt a s = s\<lparr>
     shared := (shared s)[a := (shared s ! a)\<lparr>inbox := ch_drop_tx (inch rt) (inbox (shared s ! a))\<rparr>],
     budget := sem_release (sem rt) 1 (budget s)\<rparr>"

text \<open>\<open>streams.remove(&id)\<close>, and the drop of what it returned.\<close>

definition remove_stream :: "('q, 'b, 'o) runtime \<Rightarrow> u32 \<Rightarrow> ('q, 'b, 'o) mux_session \<Rightarrow> ('q, 'b, 'o) mux_session" where
  "remove_stream rt i s =
     (case map_of (streams s) i of
        None \<Rightarrow> s
      | Some a \<Rightarrow> drop_state rt a (s\<lparr>streams := AList.delete i (streams s)\<rparr>))"

text \<open>The same with \<open>state.credit.close()\<close> before the drop.\<close>

definition drop_stream :: "('q, 'b, 'o) runtime \<Rightarrow> u32 \<Rightarrow> ('q, 'b, 'o) mux_session \<Rightarrow> ('q, 'b, 'o) mux_session" where
  "drop_stream rt i s =
     (case map_of (streams s) i of
        None \<Rightarrow> s
      | Some a \<Rightarrow> remove_stream rt i
          (s\<lparr>shared := (shared s)[a := (shared s ! a)\<lparr>credit := sem_close (sem rt) (credit (shared s ! a))\<rparr>]\<rparr>))"

text \<open>\<open>streams.insert(id, ..)\<close> of a new stream: a stream already under that id is dropped.\<close>

definition insert_stream :: "('q, 'b, 'o) runtime \<Rightarrow> u32 \<Rightarrow> ('q, 'b, 'o) mux_session \<Rightarrow> ('q, 'b, 'o) mux_session \<times> addr" where
  "insert_stream rt i s =
     (let s' = remove_stream rt i s
      in (s'\<lparr>streams := (i, length (shared s')) # streams s', shared := shared s' @ [new_stream rt]\<rparr>,
          length (shared s')))"

text \<open>\<open>streams.retain(|_, state| {state.credit.close(); false})\<close>.\<close>

definition drop_all :: "('q, 'b, 'o) runtime \<Rightarrow> ('q, 'b, 'o) mux_session \<Rightarrow> ('q, 'b, 'o) mux_session" where
  "drop_all rt s = fold (\<lambda>(i, a). drop_stream rt i) (streams s) s"

section \<open>Sending on the link\<close>

text \<open>\<open>MuxSession::send\<close>, one poll.\<close>

definition session_send :: "('q, 'b, 'o) runtime \<Rightarrow> frame \<Rightarrow> ('q, 'b, 'o) mux_session \<Rightarrow> ('q, 'b, 'o) mux_session \<times> unit result poll" where
  "session_send rt f s =
     (case ch_try_send (outch rt) f (out s) of
        SendOk c \<Rightarrow> (s\<lparr>out := c\<rparr>, Ready (Inr ()))
      | SendFull \<Rightarrow> (s, Pending)
      | SendClosed \<Rightarrow> (s, Ready (Inl broken)))"

section \<open>Opening a stream\<close>

text \<open>
  \<open>try_open_stream\<close> touches the shared state four times: it reserves a budget slot, draws an
  id, inserts the stream, and announces it; other tasks may run in between.
\<close>

datatype opener = Reserved | Numbered u32 | Announcing stream_tx

definition open_reserve :: "('q, 'b, 'o) runtime \<Rightarrow> ('q, 'b, 'o) mux_session \<Rightarrow> ('q, 'b, 'o) mux_session option" where
  "open_reserve rt s =
     (case sem_acquire (sem rt) 1 (budget s) of Acquired b \<Rightarrow> Some (s\<lparr>budget := b\<rparr>) | _ \<Rightarrow> None)"

definition open_number :: "('q, 'b, 'o) mux_session \<Rightarrow> ('q, 'b, 'o) mux_session \<times> u32" where
  "open_number s = (s\<lparr>next_id := next_id s + 1\<rparr>, next_id s)"

definition open_insert :: "('q, 'b, 'o) runtime \<Rightarrow> u32 \<Rightarrow> ('q, 'b, 'o) mux_session \<Rightarrow> ('q, 'b, 'o) mux_session \<times> stream_tx" where
  "open_insert rt i s = (case insert_stream rt i s of (s', a) \<Rightarrow> (s', \<lparr>tx_id = i, tx_addr = a\<rparr>))"

text \<open>The announcement: \<open>Some (Some tx)\<close> is the opened stream, \<open>Some None\<close> that the link died.\<close>

definition open_announce :: "('q, 'b, 'o) runtime \<Rightarrow> stream_tx \<Rightarrow> ('q, 'b, 'o) mux_session
    \<Rightarrow> ('q, 'b, 'o) mux_session \<times> stream_tx option poll" where
  "open_announce rt tx s =
     (case session_send rt (control (tx_id tx) KIND_OPEN) s of
        (s', Pending) \<Rightarrow> (s', Pending)
      | (s', Ready (Inr _)) \<Rightarrow> (s', Ready (Some tx))
      | (s', Ready (Inl _)) \<Rightarrow> (remove_stream rt (tx_id tx) s', Ready None))"

text \<open>All four in a row, as they run when no other task gets in between.\<close>

definition try_open_stream :: "('q, 'b, 'o) runtime \<Rightarrow> ('q, 'b, 'o) mux_session
    \<Rightarrow> ('q, 'b, 'o) mux_session \<times> stream_tx option poll" where
  "try_open_stream rt s =
     (case open_reserve rt s of
        None \<Rightarrow> (s, Ready None)
      | Some s1 \<Rightarrow>
          (case open_number s1 of (s2, i) \<Rightarrow>
             (case open_insert rt i s2 of (s3, tx) \<Rightarrow> open_announce rt tx s3)))"

section \<open>The reader\<close>

text \<open>
  What the reader does next: take another frame, first send a frame and go on (\<open>send\<close> is
  awaited), return with an error, or panic (\<open>add_permits\<close>; the release profile aborts).
\<close>

datatype rl_next = Continue | SendThen frame | Fail io_error | Panicked

text \<open>The head of a decrypted frame: id, kind and body.\<close>

definition parse_frame :: "bytes \<Rightarrow> (u32 \<times> u8 \<times> bytes) result" where
  "parse_frame frm =
     (if length frm < FRAME_HEAD then Inl (IoError InvalidData ''short frame'')
      else Inr (of_nat (from_be [frm ! 0, frm ! 1, frm ! 2, frm ! 3]), frm ! 4, drop FRAME_HEAD frm))"

text \<open>
  The \<open>KIND_OPEN\<close> arm. The third component is the call of the registered handler; with none
  registered the receiving half is dropped on the spot.
\<close>

definition handle_open :: "('q, 'b, 'o) runtime \<Rightarrow> u32 \<Rightarrow> ('q, 'b, 'o) mux_session
    \<Rightarrow> ('q, 'b, 'o) mux_session \<times> rl_next \<times> stream_tx option" where
  "handle_open rt i s =
     (case sem_acquire (sem rt) 1 (budget s) of
        Acquired b \<Rightarrow>
          (case insert_stream rt i (s\<lparr>budget := b\<rparr>) of (s', a) \<Rightarrow>
             if on_open s then (s', Continue, Some \<lparr>tx_id = i, tx_addr = a\<rparr>)
             else (s'\<lparr>shared := (shared s')[a := (shared s' ! a)\<lparr>inbox := ch_drop_rx (inch rt) (inbox (shared s' ! a))\<rparr>]\<rparr>,
                   Continue, None))
      | _ \<Rightarrow> (s, SendThen (control i KIND_CLOSE), None))"

definition handle_data :: "('q, 'b, 'o) runtime \<Rightarrow> u32 \<Rightarrow> bytes \<Rightarrow> ('q, 'b, 'o) mux_session
    \<Rightarrow> ('q, 'b, 'o) mux_session \<times> rl_next" where
  "handle_data rt i body s =
     (case map_of (streams s) i of
        None \<Rightarrow> (s, Continue)
      | Some a \<Rightarrow>
          (case ch_try_send (inch rt) body (inbox (shared s ! a)) of
             SendOk c \<Rightarrow> (s\<lparr>shared := (shared s)[a := (shared s ! a)\<lparr>inbox := c\<rparr>]\<rparr>, Continue)
           | SendClosed \<Rightarrow> (s, Continue)
           | SendFull \<Rightarrow> (drop_stream rt i s, SendThen (control i KIND_CLOSE))))"

definition handle_window :: "('q, 'b, 'o) runtime \<Rightarrow> u32 \<Rightarrow> u32 \<Rightarrow> ('q, 'b, 'o) mux_session
    \<Rightarrow> ('q, 'b, 'o) mux_session \<times> rl_next" where
  "handle_window rt i grant s =
     (case map_of (streams s) i of
        None \<Rightarrow> (s, Continue)
      | Some a \<Rightarrow>
          (case sem_add (sem rt) (unat grant) (credit (shared s ! a)) of
             Some q \<Rightarrow> (s\<lparr>shared := (shared s)[a := (shared s ! a)\<lparr>credit := q\<rparr>]\<rparr>, Continue)
           | None \<Rightarrow> (s, Panicked)))"

text \<open>The body of \<open>read_loop\<close> behind the decoder.\<close>

definition handle_frame :: "('q, 'b, 'o) runtime \<Rightarrow> bytes \<Rightarrow> ('q, 'b, 'o) mux_session
    \<Rightarrow> ('q, 'b, 'o) mux_session \<times> rl_next \<times> stream_tx option" where
  "handle_frame rt frm s =
     (case parse_frame frm of
        Inl e \<Rightarrow> (s, Fail e, None)
      | Inr (i, kind, body) \<Rightarrow>
          if i = 0 then (s, SendThen (control 0 KIND_DATA), None)
          else if kind = KIND_OPEN then handle_open rt i s
          else if kind = KIND_DATA then (case handle_data rt i body s of (s', nx) \<Rightarrow> (s', nx, None))
          else if kind = KIND_WINDOW \<and> length body = 4
          then (case handle_window rt i (of_nat (from_be body)) s of (s', nx) \<Rightarrow> (s', nx, None))
          else if kind = KIND_CLOSE then (drop_stream rt i s, Continue, None)
          else (s, Continue, None))"

text \<open>
  One round of \<open>read_loop\<close>: what \<open>reader.next()\<close> gave under \<open>IDLE_TIMEOUT\<close> (the deadline, the end
  of the link, an error of socket or decoder, a message), and either the value the loop returns or
  what the body does with the message.
\<close>

datatype arrival = IdleTimeout | LinkEof | LinkError io_error | Decoded bytes

definition read_round :: "('q, 'b, 'o) runtime \<Rightarrow> arrival \<Rightarrow> ('q, 'b, 'o) mux_session
    \<Rightarrow> unit result + (('q, 'b, 'o) mux_session \<times> rl_next \<times> stream_tx option)" where
  "read_round rt x s =
     (case x of
        IdleTimeout \<Rightarrow> Inl (Inl (IoError TimedOut ''bridge idle''))
      | LinkError e \<Rightarrow> Inl (Inl e)
      | LinkEof \<Rightarrow> Inl (Inr ())
      | Decoded frm \<Rightarrow> Inr (handle_frame rt frm s))"

lemma read_round_Inr [simp]:
  "read_round rt x s = Inr y \<longleftrightarrow> (\<exists>frm. x = Decoded frm \<and> handle_frame rt frm s = y)"
  by (cases x) (simp_all add: read_round_def)

section \<open>The sending half of a stream\<close>

text \<open>
  \<open>StreamTx::send\<close> is a future: the bytes not yet taken, and the frame whose credit has been
  paid but which the outbox had no room for. \<open>tx_step\<close> runs it to its next access to shared
  state, \<open>tx_poll\<close> until it waits or ends.
\<close>

type_synonym send_fut = "bytes \<times> frame option"

datatype 'x progress = Step 'x | Stop "unit result poll"

definition tx_step :: "('q, 'b, 'o) runtime \<Rightarrow> stream_tx \<Rightarrow> send_fut \<Rightarrow> ('q, 'b, 'o) mux_session
    \<Rightarrow> (('q, 'b, 'o) mux_session \<times> send_fut) progress" where
  "tx_step rt tx fut s =
     (case fut of
        (data, Some f) \<Rightarrow>
          (case session_send rt f s of
             (s', Ready (Inr _)) \<Rightarrow> Step (s', (data, None))
           | (s', Ready (Inl e)) \<Rightarrow> Stop (Ready (Inl e))
           | (s', Pending) \<Rightarrow> Stop Pending)
      | (data, None) \<Rightarrow>
          if data = [] then Stop (Ready (Inr ()))
          else let k = min (length data) MAX_PAYLOAD; st = shared s ! tx_addr tx
               in (case sem_acquire (sem rt) (unat (of_nat k :: u32)) (credit st) of
                     Acquired q \<Rightarrow>
                       Step (s\<lparr>shared := (shared s)[tx_addr tx := st\<lparr>credit := q\<rparr>]\<rparr>,
                             (drop k data, Some \<lparr>frame_id = tx_id tx, frame_kind = KIND_DATA, frame_payload = take k data\<rparr>))
                   | NoPermits \<Rightarrow> Stop Pending
                   | SemClosed \<Rightarrow> Stop (Ready (Inl broken))))"

definition fut_size :: "send_fut \<Rightarrow> nat" where
  "fut_size fut = 2 * length (fst fut) + (if snd fut = None then 0 else 1)"

lemma tx_step_size: "tx_step rt tx fut s = Step (s', fut') \<Longrightarrow> fut_size fut' < fut_size fut"
  by (cases fut; cases "fst fut")
    (auto simp: tx_step_def fut_size_def Let_def wire_consts min_def
      split: option.splits prod.splits poll.splits sum.splits if_splits acquired.splits)

function tx_poll :: "('q, 'b, 'o) runtime \<Rightarrow> stream_tx \<Rightarrow> send_fut \<Rightarrow> ('q, 'b, 'o) mux_session
    \<Rightarrow> ('q, 'b, 'o) mux_session \<times> send_fut \<times> unit result poll" where
  "tx_poll rt tx fut s =
     (case tx_step rt tx fut s of
        Stop r \<Rightarrow> (s, fut, r)
      | Step (s', fut') \<Rightarrow> tx_poll rt tx fut' s')"
  by pat_completeness auto
termination
  by (relation "measure (\<lambda>(rt, tx, fut, s). fut_size fut)") (auto dest: tx_step_size)

declare tx_poll.simps [simp del]

text \<open>\<open>StreamTx::grant\<close>, one poll of its \<open>send\<close>; \<open>StreamTx::close\<close>, up to its \<open>send\<close>.\<close>

definition grant_frame :: "u32 \<Rightarrow> u32 \<Rightarrow> frame" where
  "grant_frame i n = \<lparr>frame_id = i, frame_kind = KIND_WINDOW, frame_payload = to_be 4 (unat n)\<rparr>"

definition tx_grant :: "('q, 'b, 'o) runtime \<Rightarrow> stream_tx \<Rightarrow> u32 \<Rightarrow> ('q, 'b, 'o) mux_session
    \<Rightarrow> ('q, 'b, 'o) mux_session \<times> unit result poll" where
  "tx_grant rt tx n s = session_send rt (grant_frame (tx_id tx) n) s"

definition tx_close :: "('q, 'b, 'o) runtime \<Rightarrow> stream_tx \<Rightarrow> ('q, 'b, 'o) mux_session
    \<Rightarrow> ('q, 'b, 'o) mux_session \<times> frame" where
  "tx_close rt tx s = (remove_stream rt (tx_id tx) s, control (tx_id tx) KIND_CLOSE)"

text \<open>\<open>StreamRx::recv\<close>, one poll.\<close>

definition rx_recv :: "('q, 'b, 'o) runtime \<Rightarrow> addr \<Rightarrow> ('q, 'b, 'o) mux_session
    \<Rightarrow> ('q, 'b, 'o) mux_session \<times> bytes option poll" where
  "rx_recv rt a s =
     (case ch_recv (inch rt) (inbox (shared s ! a)) of
        Got x c \<Rightarrow> (s\<lparr>shared := (shared s)[a := (shared s ! a)\<lparr>inbox := c\<rparr>]\<rparr>, Ready (Some x))
      | NothingYet \<Rightarrow> (s, Pending)
      | Ended \<Rightarrow> (s, Ready None))"

text \<open>\<open>close_stream\<close>: the CLOSE is offered to the outbox, and lost when there is no room.\<close>

definition close_stream :: "('q, 'b, 'o) runtime \<Rightarrow> u32 \<Rightarrow> ('q, 'b, 'o) mux_session \<Rightarrow> ('q, 'b, 'o) mux_session" where
  "close_stream rt i s =
     (let s' = drop_stream rt i s
      in case ch_try_send (outch rt) (control i KIND_CLOSE) (out s') of
           SendOk c \<Rightarrow> s'\<lparr>out := c\<rparr>
         | _ \<Rightarrow> s')"

text \<open>
  \<open>shutdown\<close>: every stream is dropped and both tasks are aborted; the writer task owns the
  receiving end of the outbox.
\<close>

definition shutdown :: "('q, 'b, 'o) runtime \<Rightarrow> ('q, 'b, 'o) mux_session \<Rightarrow> ('q, 'b, 'o) mux_session" where
  "shutdown rt s = (let s' = drop_all rt s in s'\<lparr>out := ch_drop_rx (outch rt) (out s')\<rparr>)"

text \<open>The writer task takes the next frame off the outbox.\<close>

definition writer_take :: "('q, 'b, 'o) runtime \<Rightarrow> ('q, 'b, 'o) mux_session \<Rightarrow> (('q, 'b, 'o) mux_session \<times> frame) option" where
  "writer_take rt s = (case ch_recv (outch rt) (out s) of Got f c \<Rightarrow> Some (s\<lparr>out := c\<rparr>, f) | _ \<Rightarrow> None)"

end
