(* ===== verification/Mux_Table.thy ===== *)
theory Mux_Table
  imports Mux
begin

text \<open>
  What each operation of the session does to its table, its budget and the credit of its
  streams. \<open>table_ok\<close> is the well-formedness invariant, \<open>slots\<close> the budget that is free or
  held by a stream in the table, \<open>cred\<close> the sending credit left at an address.
\<close>

section \<open>Association lists\<close>

lemma length_alist_delete:
  "distinct (map fst xs) \<Longrightarrow>
   length (AList.delete k xs) + (if k \<in> fst ` set xs then 1 else 0) = length xs"
proof (induction xs)
  case Nil
  then show ?case by simp
next
  case (Cons x xs)
  then show ?case by (cases x; cases "k \<in> fst ` set xs"; cases "fst x = k") (simp_all add: delete_id)
qed

lemma set_alist_delete: "set (AList.delete k xs) = {(i, a) \<in> set xs. i \<noteq> k}"
  by (auto simp: AList.delete_eq)

lemma distinct_snd_delete: "distinct (map snd xs) \<Longrightarrow> distinct (map snd (AList.delete k xs))"
  by (induction xs) (auto simp: set_alist_delete)

lemma snd_notin_delete:
  assumes "distinct (map snd xs)" and "map_of xs k = Some a"
  shows "a \<notin> snd ` set (AList.delete k xs)"
proof
  assume "a \<in> snd ` set (AList.delete k xs)"
  then obtain j where "(j, a) \<in> set xs" "j \<noteq> k"
    by (auto simp: set_alist_delete)
  moreover have "(k, a) \<in> set xs" using assms(2) by (rule map_of_SomeD)
  moreover have "inj_on snd (set xs)" using assms(1) by (simp add: distinct_map)
  ultimately show False by (auto dest: inj_onD [of _ _ "(j, a)" "(k, a)"])
qed

lemma map_of_delete_other: "map_of (AList.delete k xs) j = (if j = k then None else map_of xs j)"
  by (simp add: delete_conv')

section \<open>The invariant and the observers\<close>

definition table_ok :: "('q, 'b, 'o) runtime \<Rightarrow> ('q, 'b, 'o) mux_session \<Rightarrow> bool" where
  "table_ok rt s \<longleftrightarrow>
     distinct (map fst (streams s)) \<and> distinct (map snd (streams s))
     \<and> (\<forall>a \<in> snd ` set (streams s). a < length (shared s))
     \<and> \<not> sem_closed (sem rt) (budget s)"

definition slots :: "('q, 'b, 'o) runtime \<Rightarrow> ('q, 'b, 'o) mux_session \<Rightarrow> nat" where
  "slots rt s = permits (sem rt) (budget s) + length (streams s)"

definition cred :: "('q, 'b, 'o) runtime \<Rightarrow> ('q, 'b, 'o) mux_session \<Rightarrow> addr \<Rightarrow> nat" where
  "cred rt s a = permits (sem rt) (credit (shared s ! a))"

definition gate_closed :: "('q, 'b, 'o) runtime \<Rightarrow> ('q, 'b, 'o) mux_session \<Rightarrow> addr \<Rightarrow> bool" where
  "gate_closed rt s a = sem_closed (sem rt) (credit (shared s ! a))"

text \<open>
  \<open>quiet rt s s'\<close>: a change that keeps the table's invariant and its slots, allocates nothing
  and leaves the credit of every stream alone.
\<close>

definition quiet :: "('q, 'b, 'o) runtime \<Rightarrow> ('q, 'b, 'o) mux_session \<Rightarrow> ('q, 'b, 'o) mux_session \<Rightarrow> bool" where
  "quiet rt s s' \<longleftrightarrow>
     table_ok rt s' \<and> slots rt s' = slots rt s \<and> length (shared s') = length (shared s)
     \<and> (\<forall>a. cred rt s' a = cred rt s a)"

lemma quiet_refl [simp, intro]: "table_ok rt s \<Longrightarrow> quiet rt s s"
  by (simp add: quiet_def)

lemma quiet_trans: "quiet rt s s' \<Longrightarrow> quiet rt s' s'' \<Longrightarrow> quiet rt s s''"
  by (simp add: quiet_def)

lemma quiet_table_ok: "quiet rt s s' \<Longrightarrow> table_ok rt s'"
  by (simp add: quiet_def)

lemma quiet_out [simp]: "quiet rt s (s'\<lparr>out := c\<rparr>) \<longleftrightarrow> quiet rt s s'"
  by (simp add: quiet_def table_ok_def slots_def cred_def)

lemma quiet_next_id: "table_ok rt s \<Longrightarrow> quiet rt s (s\<lparr>next_id := i\<rparr>)"
  by (simp add: quiet_def table_ok_def slots_def cred_def)

lemma quiet_handler: "table_ok rt s \<Longrightarrow> quiet rt s (s\<lparr>on_open := h\<rparr>)"
  by (simp add: quiet_def table_ok_def slots_def cred_def)

lemma quiet_inbox:
  "table_ok rt s \<Longrightarrow> quiet rt s (s\<lparr>shared := (shared s)[a := (shared s ! a)\<lparr>inbox := c\<rparr>]\<rparr>)"
  by (cases "a < length (shared s)")
    (auto simp: quiet_def table_ok_def slots_def cred_def nth_list_update not_less list_update_beyond)

section \<open>Removing streams\<close>

lemma map_of_in_table:
  "map_of (streams s) i = Some a \<Longrightarrow> a \<in> snd ` set (streams s) \<and> i \<in> fst ` set (streams s)"
  by (force dest: map_of_SomeD)

lemma remove_stream_streams [simp]: "streams (remove_stream rt i s) = AList.delete i (streams s)"
  by (auto simp: remove_stream_def drop_state_def delete_id map_of_eq_None_iff split: option.splits)

lemma quiet_remove_stream:
  assumes "sem_laws (sem rt)" and ok: "table_ok rt s"
  shows "quiet rt s (remove_stream rt i s)"
proof (cases "map_of (streams s) i")
  case None
  then show ?thesis using ok by (simp add: remove_stream_def)
next
  case (Some a)
  have "slots rt (remove_stream rt i s) = slots rt s"
    using length_alist_delete [of "streams s" i] ok Some map_of_in_table [OF Some]
    by (simp add: slots_def remove_stream_def drop_state_def sem_release_laws [OF assms(1)] table_ok_def)
  moreover have "table_ok rt (remove_stream rt i s)"
    using ok Some
    by (auto simp: table_ok_def remove_stream_def drop_state_def sem_release_laws [OF assms(1)]
        distinct_delete distinct_snd_delete set_alist_delete)
  moreover have "cred rt (remove_stream rt i s) b = cred rt s b" for b
    using Some by (cases "a < length (shared s)")
      (auto simp: cred_def remove_stream_def drop_state_def nth_list_update not_less list_update_beyond)
  ultimately show ?thesis
    using Some by (simp add: quiet_def remove_stream_def drop_state_def)
qed

lemma quiet_close_credit:
  assumes "sem_laws (sem rt)" and "table_ok rt s"
  shows "quiet rt s (s\<lparr>shared := (shared s)[a := (shared s ! a)\<lparr>credit := sem_close (sem rt) (credit (shared s ! a))\<rparr>]\<rparr>)"
  using assms by (cases "a < length (shared s)")
    (auto simp: quiet_def table_ok_def slots_def cred_def nth_list_update sem_close_laws not_less list_update_beyond)

lemma quiet_drop_stream:
  assumes "sem_laws (sem rt)" and "table_ok rt s"
  shows "quiet rt s (drop_stream rt i s)"
proof (cases "map_of (streams s) i")
  case None
  then show ?thesis using assms(2) by (simp add: drop_stream_def)
next
  case (Some a)
  note q = quiet_close_credit [OF assms, of a]
  from quiet_trans [OF q quiet_remove_stream [OF assms(1) quiet_table_ok [OF q], of i]] Some
  show ?thesis by (simp add: drop_stream_def)
qed

lemma drop_stream_streams [simp]: "streams (drop_stream rt i s) = AList.delete i (streams s)"
  by (auto simp: drop_stream_def delete_id map_of_eq_None_iff split: option.splits)

lemma quiet_fold_drop:
  assumes "sem_laws (sem rt)"
  shows "table_ok rt s \<Longrightarrow> quiet rt s (fold (\<lambda>(i, a). drop_stream rt i) xs s)"
proof (induction xs arbitrary: s)
  case Nil
  then show ?case by simp
next
  case (Cons x xs)
  have q: "quiet rt s (drop_stream rt (fst x) s)"
    using assms Cons.prems by (rule quiet_drop_stream)
  from quiet_trans [OF q Cons.IH [OF quiet_table_ok [OF q]]] show ?case
    by (simp add: case_prod_unfold)
qed

lemma quiet_drop_all: "sem_laws (sem rt) \<Longrightarrow> table_ok rt s \<Longrightarrow> quiet rt s (drop_all rt s)"
  unfolding drop_all_def by (rule quiet_fold_drop)

lemma fold_drop_streams:
  "streams (fold (\<lambda>(i, a). drop_stream rt i) xs s) = filter (\<lambda>(i, a). i \<notin> fst ` set xs) (streams s)"
  by (induction xs arbitrary: s) (auto simp: case_prod_unfold AList.delete_eq intro!: filter_cong)

lemma drop_all_streams [simp]: "streams (drop_all rt s) = []"
  unfolding drop_all_def fold_drop_streams by (force simp: filter_empty_conv)

section \<open>Adding streams\<close>

lemma insert_stream_facts:
  assumes "sem_laws (sem rt)" and "table_ok rt s" and "insert_stream rt i s = (s', a)"
  shows "table_ok rt s'" and "slots rt s' = Suc (slots rt s)"
    and "a = length (shared s)" and "length (shared s') = Suc (length (shared s))"
    and "\<And>b. b < length (shared s) \<Longrightarrow> cred rt s' b = cred rt s b"
    and "cred rt s' a = unat WINDOW" and "map_of (streams s') = (map_of (streams s))(i \<mapsto> a)"
    and "shared s' ! a = new_stream rt" and "on_open s' = on_open s"
proof -
  let ?r = "remove_stream rt i s"
  have q: "quiet rt s ?r" using assms(1,2) by (rule quiet_remove_stream)
  then have ok: "table_ok rt ?r" and len: "length (shared ?r) = length (shared s)"
    and sl: "slots rt ?r = slots rt s" and cr: "\<And>b. cred rt ?r b = cred rt s b"
    by (simp_all add: quiet_def)
  have s': "s' = ?r\<lparr>streams := (i, length (shared s)) # AList.delete i (streams s),
      shared := shared ?r @ [new_stream rt]\<rparr>" and a: "a = length (shared s)"
    using assms(3) len by (auto simp: insert_stream_def Let_def)
  show "table_ok rt s'"
    using ok len by (force simp: s' table_ok_def set_alist_delete)
  show "slots rt s' = Suc (slots rt s)" using sl by (simp add: s' slots_def)
  show "a = length (shared s)" by (fact a)
  show "length (shared s') = Suc (length (shared s))" by (simp add: s' len)
  show "\<And>b. b < length (shared s) \<Longrightarrow> cred rt s' b = cred rt s b"
    using cr len by (simp add: s' cred_def nth_append)
  show "cred rt s' a = unat WINDOW"
    by (simp add: s' a cred_def nth_append len new_stream_def window_permits [OF assms(1)])
  show "map_of (streams s') = (map_of (streams s))(i \<mapsto> a)"
    by (auto simp: s' a map_of_delete_other)
  show "shared s' ! a = new_stream rt" by (simp add: s' a nth_append len)
  show "on_open s' = on_open s"
    by (simp add: s' remove_stream_def drop_state_def split: option.split)
qed

lemma table_ok_budget: "table_ok rt s \<Longrightarrow> \<not> sem_closed (sem rt) b \<Longrightarrow> table_ok rt (s\<lparr>budget := b\<rparr>)"
  by (simp add: table_ok_def)

lemma open_reserve_facts:
  assumes "sem_laws (sem rt)" and "table_ok rt s" and "open_reserve rt s = Some s'"
  shows "table_ok rt s'" and "Suc (slots rt s') = slots rt s" and "shared s' = shared s"
  using assms sem_acquire_laws(1) [OF assms(1), of 1 "budget s"]
  by (auto simp: open_reserve_def slots_def table_ok_budget split: acquired.splits)

section \<open>Handling a frame\<close>

text \<open>The credit a frame adds: a WINDOW frame of four bytes for a stream in the table.\<close>

definition frame_grant :: "('q, 'b, 'o) mux_session \<Rightarrow> bytes \<Rightarrow> (addr \<times> nat) option" where
  "frame_grant s frm =
     (case parse_frame frm of
        Inr (i, kind, body) \<Rightarrow>
          if i \<noteq> 0 \<and> kind = KIND_WINDOW \<and> length body = 4
          then map_option (\<lambda>a. (a, from_be body)) (map_of (streams s) i) else None
      | Inl e \<Rightarrow> None)"

definition granted :: "(addr \<times> nat) option \<Rightarrow> addr \<Rightarrow> nat" where
  "granted g a = (case g of Some (b, n) \<Rightarrow> if b = a then n else 0 | None \<Rightarrow> 0)"

lemma granted_simps [simp]: "granted None a = 0" "granted (Some (b, n)) a = (if b = a then n else 0)"
  by (simp_all add: granted_def)

lemma handle_open_facts:
  assumes "sem_laws (sem rt)" and "table_ok rt s" and "handle_open rt i s = (s', nx, tx)"
  shows "table_ok rt s' \<and> slots rt s' = slots rt s \<and> length (shared s) \<le> length (shared s')
    \<and> (\<forall>a < length (shared s). cred rt s' a = cred rt s a)
    \<and> (\<forall>a. length (shared s) \<le> a \<and> a < length (shared s') \<longrightarrow> cred rt s' a = unat WINDOW)"
proof (cases "sem_acquire (sem rt) 1 (budget s)")
  case (Acquired b)
  obtain s1 a where ins: "insert_stream rt i (s\<lparr>budget := b\<rparr>) = (s1, a)" by fastforce
  have b: "permits (sem rt) (budget s) = permits (sem rt) b + 1" "\<not> sem_closed (sem rt) b"
    using sem_acquire_laws(1) [OF assms(1) Acquired] by simp_all
  note f = insert_stream_facts [OF assms(1) table_ok_budget [OF assms(2) b(2)] ins]
  have s1: "table_ok rt s1 \<and> slots rt s1 = slots rt s \<and> length (shared s1) = Suc (length (shared s))
      \<and> a = length (shared s) \<and> (\<forall>c < length (shared s). cred rt s1 c = cred rt s c) \<and> cred rt s1 a = unat WINDOW"
    using f b by (simp add: slots_def cred_def)
  have "quiet rt s1 s'"
    using assms(3) Acquired ins s1 by (auto split: if_splits simp: handle_open_def intro: quiet_inbox)
  with s1 show ?thesis
    by (auto simp: quiet_def less_Suc_eq le_less_Suc_eq)
qed (use assms in \<open>auto simp: handle_open_def\<close>)

lemma quiet_handle_data:
  assumes "sem_laws (sem rt)" and "table_ok rt s" and "handle_data rt i body s = (s', nx)"
  shows "quiet rt s s'"
  using assms
  by (auto simp: handle_data_def quiet_inbox quiet_drop_stream split: option.splits sending.splits)

lemma handle_window_facts:
  assumes "sem_laws (sem rt)" and "table_ok rt s" and "handle_window rt i n s = (s', nx)" and "nx \<noteq> Panicked"
  shows "table_ok rt s' \<and> slots rt s' = slots rt s \<and> length (shared s') = length (shared s)
    \<and> (\<forall>a. cred rt s' a = cred rt s a + (if map_of (streams s) i = Some a then unat n else 0))"
proof (cases "map_of (streams s) i")
  case None
  with assms show ?thesis by (simp add: handle_window_def)
next
  case (Some a)
  with assms(2) have a: "a < length (shared s)"
    using map_of_in_table [OF Some] by (auto simp: table_ok_def)
  from Some assms(3,4) obtain q where
    q: "sem_add (sem rt) (unat n) (credit (shared s ! a)) = Some q"
    and s': "s' = s\<lparr>shared := (shared s)[a := (shared s ! a)\<lparr>credit := q\<rparr>]\<rparr>"
    by (auto simp: handle_window_def split: option.splits)
  with Some a assms(2) sem_add_laws(1) [OF assms(1) q] show ?thesis
    by (auto simp: table_ok_def slots_def cred_def nth_list_update not_less list_update_beyond)
qed

lemma from_be_4: "length body = 4 \<Longrightarrow> unat (of_nat (from_be body) :: u32) = from_be body"
  using from_be_bound [of body] by (simp add: unat_of_nat)

lemma handle_frame_facts:
  assumes "sem_laws (sem rt)" and "table_ok rt s" and "handle_frame rt frm s = (s', nx, tx)" and "nx \<noteq> Panicked"
  shows "table_ok rt s' \<and> slots rt s' = slots rt s \<and> length (shared s) \<le> length (shared s')
    \<and> (\<forall>a < length (shared s). cred rt s' a = cred rt s a + granted (frame_grant s frm) a)
    \<and> (\<forall>a. length (shared s) \<le> a \<and> a < length (shared s') \<longrightarrow> cred rt s' a = unat WINDOW)"
proof (cases "parse_frame frm")
  case (Inl e)
  with assms show ?thesis by (simp add: handle_frame_def frame_grant_def)
next
  case (Inr p)
  obtain i kind body where p: "p = (i, kind, body)" by (cases p)
  note run = assms(3) [unfolded handle_frame_def Inr p, simplified]
  have quiet: ?thesis if "quiet rt s s'" and "frame_grant s frm = None"
    using that by (auto simp: quiet_def)
  consider (ctl) "i = 0" | (open') "i \<noteq> 0" "kind = KIND_OPEN" | (data) "i \<noteq> 0" "kind = KIND_DATA"
    | (win) "i \<noteq> 0" "kind = KIND_WINDOW" "length body = 4"
    | (other) "i \<noteq> 0" "kind \<noteq> KIND_OPEN" "kind \<noteq> KIND_DATA" "\<not> (kind = KIND_WINDOW \<and> length body = 4)"
    by blast
  then show ?thesis
  proof cases
    case ctl
    with run assms(2) Inr p show ?thesis by (auto simp: frame_grant_def)
  next
    case open'
    with run Inr p handle_open_facts [OF assms(1,2), of i s' nx tx] show ?thesis
      by (simp add: frame_grant_def)
  next
    case data
    with run Inr p show ?thesis
      by (intro quiet) (auto simp: frame_grant_def split: prod.splits intro: quiet_handle_data assms)
  next
    case win
    with run have "handle_window rt i (of_nat (from_be body)) s = (s', nx)"
      by (auto split: prod.splits)
    from handle_window_facts [OF assms(1,2) this assms(4)] win Inr p show ?thesis
      by (auto simp: frame_grant_def from_be_4 granted_def split: option.splits)
  next
    case other
    with run Inr p assms(1,2) show ?thesis
      by (intro quiet) (auto simp: frame_grant_def quiet_drop_stream split: if_splits)
  qed
qed

section \<open>Sending\<close>

lemma quiet_session_send: "table_ok rt s \<Longrightarrow> session_send rt f s = (s', r) \<Longrightarrow> quiet rt s s'"
  by (auto simp: session_send_def split: sending.splits)

lemma quiet_open_announce:
  assumes "sem_laws (sem rt)" and "table_ok rt s" and "open_announce rt tx s = (s', r)"
  shows "quiet rt s s'"
proof -
  obtain s1 r1 where snd1: "session_send rt (control (tx_id tx) KIND_OPEN) s = (s1, r1)"
    by fastforce
  note q = quiet_session_send [OF assms(2) snd1]
  from quiet_trans [OF q quiet_remove_stream [OF assms(1) quiet_table_ok [OF q]]] q assms(3) snd1
  show ?thesis
    by (auto simp: open_announce_def split: poll.splits sum.splits)
qed

lemma quiet_close_stream:
  "sem_laws (sem rt) \<Longrightarrow> table_ok rt s \<Longrightarrow> quiet rt s (close_stream rt i s)"
  by (auto simp: close_stream_def Let_def quiet_drop_stream split: sending.splits)

lemma quiet_shutdown: "sem_laws (sem rt) \<Longrightarrow> table_ok rt s \<Longrightarrow> quiet rt s (shutdown rt s)"
  by (simp add: shutdown_def Let_def quiet_drop_all)

lemma quiet_rx_recv: "table_ok rt s \<Longrightarrow> rx_recv rt a s = (s', r) \<Longrightarrow> quiet rt s s'"
  by (auto simp: rx_recv_def quiet_inbox split: received.splits)

lemma quiet_writer_take: "table_ok rt s \<Longrightarrow> writer_take rt s = Some (s', f) \<Longrightarrow> quiet rt s s'"
  by (auto simp: writer_take_def split: received.splits)

text \<open>
  A step of a send either pays for a frame out of the stream's credit, or queues the frame it
  has paid for.
\<close>

definition held :: "frame option \<Rightarrow> nat" where
  "held h = (case h of None \<Rightarrow> 0 | Some f \<Rightarrow> length (frame_payload f))"

lemma held_simps [simp]: "held None = 0" "held (Some f) = length (frame_payload f)"
  by (simp_all add: held_def)

lemma unat_take_u32: "unat (of_nat (min n MAX_PAYLOAD) :: u32) = min n MAX_PAYLOAD"
  by (auto simp: unat_of_nat wire_consts min_def)

lemma tx_step_pay:
  assumes "sem_laws (sem rt)" and "table_ok rt s" and "tx_addr tx < length (shared s)"
    and "tx_step rt tx (data, None) s = Step (s', data', h)"
  shows "table_ok rt s' \<and> slots rt s' = slots rt s \<and> length (shared s') = length (shared s)
    \<and> (\<exists>p. h = Some \<lparr>frame_id = tx_id tx, frame_kind = KIND_DATA, frame_payload = p\<rparr>
        \<and> data = p @ data' \<and> p \<noteq> [] \<and> length p \<le> MAX_PAYLOAD)
    \<and> (\<forall>a. cred rt s a = cred rt s' a + (if a = tx_addr tx then held h else 0))"
proof -
  let ?k = "min (length data) MAX_PAYLOAD" and ?st = "shared s ! tx_addr tx"
  obtain q where q: "sem_acquire (sem rt) ?k (credit ?st) = Acquired q" and ne: "data \<noteq> []"
    and s': "s' = s\<lparr>shared := (shared s)[tx_addr tx := ?st\<lparr>credit := q\<rparr>]\<rparr>" and d: "data' = drop ?k data"
    and h: "h = Some \<lparr>frame_id = tx_id tx, frame_kind = KIND_DATA, frame_payload = take ?k data\<rparr>"
    using assms(4)
    by (auto simp: tx_step_def Let_def unat_take_u32 split: if_splits acquired.splits)
  have "cred rt s a = cred rt s' a + (if a = tx_addr tx then held h else 0)" for a
    using sem_acquire_laws(1) [OF assms(1) q] assms(3)
    by (auto simp: s' h cred_def nth_list_update min_def)
  moreover have "table_ok rt s' \<and> slots rt s' = slots rt s \<and> length (shared s') = length (shared s)"
    using assms(2) by (simp add: s' table_ok_def slots_def)
  ultimately show ?thesis
    using ne by (auto simp: h d wire_consts min_def)
qed

lemma tx_step_push:
  assumes "tx_step rt tx (data, Some f) s = Step (s', data', h)"
  shows "session_send rt f s = (s', Ready (Inr ()))" and "data' = data" and "h = None"
  using assms by (auto simp: tx_step_def split: prod.splits poll.splits sum.splits)

end
