(* ===== verification/Mux_Steps.thy ===== *)
theory Mux_Steps
  imports Mux_Table
begin

text \<open>
  The session under concurrency. Clients opening streams, the reader task, the writer task,
  senders, and whoever closes streams or shuts the link down all work on one session; the
  step relation \<open>mux_step\<close> lets them interleave at every access to shared state. A step is
  one operation of the theory \<open>Mux\<close>; the reader handles a frame, up to the send it awaits, in
  one step. A task that has dropped the receiving end of a channel cannot receive from it. A
  frame that makes the reader panic has no step: the release profile aborts the process.
\<close>

section \<open>The tasks\<close>

datatype reader_pc = Reading | Sending frame | Ending | Gone

definition after :: "rl_next \<Rightarrow> reader_pc" where
  "after nx = (case nx of Continue \<Rightarrow> Reading | SendThen f \<Rightarrow> Sending f | Fail e \<Rightarrow> Ending | Panicked \<Rightarrow> Gone)"

record ('q, 'b, 'o) world =
  ses :: "('q, 'b, 'o) mux_session"
  openers :: "opener list"
  sends :: "(stream_tx \<times> send_fut) list"
  reader :: reader_pc

text \<open>
  A label records what moved a stream's bytes: a data frame queued, a paid frame dropped with
  its future, a frame handled by the reader (with the grant it carried, if any), a chunk taken
  off an inbox, an inbox whose receiver was dropped.
\<close>

datatype label =
    Tau | Data addr nat | Lost addr nat | Handled bytes "(addr \<times> nat) option" | Took addr bytes | Unheard addr

definition take_label :: "addr \<Rightarrow> bytes option poll \<Rightarrow> label" where
  "take_label a r = (case r of Ready (Some x) \<Rightarrow> Took a x | _ \<Rightarrow> Tau)"

inductive mux_step ::
    "('q, 'b, 'o) runtime \<Rightarrow> ('q, 'b, 'o) world \<Rightarrow> label \<Rightarrow> ('q, 'b, 'o) world \<Rightarrow> bool" for rt where
  reserve: "openers w = xs @ ys \<Longrightarrow> open_reserve rt (ses w) = Some s \<Longrightarrow>
    mux_step rt w Tau (w\<lparr>ses := s, openers := xs @ Reserved # ys\<rparr>)"
| number: "openers w = xs @ Reserved # ys \<Longrightarrow> open_number (ses w) = (s, i) \<Longrightarrow>
    mux_step rt w Tau (w\<lparr>ses := s, openers := xs @ Numbered i # ys\<rparr>)"
| register: "openers w = xs @ Numbered i # ys \<Longrightarrow> open_insert rt i (ses w) = (s, tx) \<Longrightarrow>
    mux_step rt w Tau (w\<lparr>ses := s, openers := xs @ Announcing tx # ys\<rparr>)"
| announce: "openers w = xs @ Announcing tx # ys \<Longrightarrow> open_announce rt tx (ses w) = (s, Ready r) \<Longrightarrow>
    mux_step rt w Tau (w\<lparr>ses := s, openers := xs @ ys\<rparr>)"
| begin_send: "sends w = xs @ ys \<Longrightarrow> tx_addr tx < length (shared (ses w)) \<Longrightarrow>
    mux_step rt w Tau (w\<lparr>sends := xs @ (tx, data, None) # ys\<rparr>)"
| pay: "sends w = xs @ (tx, data, None) # ys \<Longrightarrow> tx_step rt tx (data, None) (ses w) = Step (s, fut) \<Longrightarrow>
    mux_step rt w Tau (w\<lparr>ses := s, sends := xs @ (tx, fut) # ys\<rparr>)"
| push: "sends w = xs @ (tx, data, Some f) # ys \<Longrightarrow> tx_step rt tx (data, Some f) (ses w) = Step (s, fut) \<Longrightarrow>
    mux_step rt w (Data (tx_addr tx) (length (frame_payload f))) (w\<lparr>ses := s, sends := xs @ (tx, fut) # ys\<rparr>)"
| finish: "sends w = xs @ (tx, data, None) # ys \<Longrightarrow> mux_step rt w Tau (w\<lparr>sends := xs @ ys\<rparr>)"
| abandon: "sends w = xs @ (tx, data, Some f) # ys \<Longrightarrow>
    mux_step rt w (Lost (tx_addr tx) (length (frame_payload f))) (w\<lparr>sends := xs @ ys\<rparr>)"
| frame: "reader w = Reading \<Longrightarrow> handle_frame rt frm (ses w) = (s, nx, tx) \<Longrightarrow> nx \<noteq> Panicked \<Longrightarrow>
    mux_step rt w (Handled frm (frame_grant (ses w) frm)) (w\<lparr>ses := s, reader := after nx\<rparr>)"
| reader_stops: "reader w = Reading \<Longrightarrow> read_round rt x (ses w) = Inl r \<Longrightarrow> mux_step rt w Tau (w\<lparr>reader := Ending\<rparr>)"
| reader_send: "reader w = Sending f \<Longrightarrow> session_send rt f (ses w) = (s, Ready r) \<Longrightarrow>
    mux_step rt w Tau (w\<lparr>ses := s, reader := (if isl r then Ending else Reading)\<rparr>)"
| reader_ends: "reader w \<noteq> Gone \<Longrightarrow>
    mux_step rt w Tau (w\<lparr>ses := drop_all rt (ses w), reader := Gone\<rparr>)"
| writer: "ch_rx_open (outch rt) (out (ses w)) \<Longrightarrow> writer_take rt (ses w) = Some (s, f) \<Longrightarrow>
    mux_step rt w Tau (w\<lparr>ses := s\<rparr>)"
| writer_ends: "mux_step rt w Tau (w\<lparr>ses := (ses w)\<lparr>out := ch_drop_rx (outch rt) (out (ses w))\<rparr>\<rparr>)"
| control_frame: "frame_kind f \<noteq> KIND_DATA \<Longrightarrow> session_send rt f (ses w) = (s, r) \<Longrightarrow>
    mux_step rt w Tau (w\<lparr>ses := s\<rparr>)"
| close: "tx_close rt tx (ses w) = (s, f) \<Longrightarrow> mux_step rt w Tau (w\<lparr>ses := s\<rparr>)"
| close_now: "mux_step rt w Tau (w\<lparr>ses := close_stream rt i (ses w)\<rparr>)"
| receive: "ch_rx_open (inch rt) (inbox (shared (ses w) ! a)) \<Longrightarrow> rx_recv rt a (ses w) = (s, r) \<Longrightarrow>
    mux_step rt w (take_label a r) (w\<lparr>ses := s\<rparr>)"
| rx_drops: "mux_step rt w (Unheard a) (w\<lparr>ses := (ses w)\<lparr>shared := (shared (ses w))[a := (shared (ses w) ! a)\<lparr>
    inbox := ch_drop_rx (inch rt) (inbox (shared (ses w) ! a))\<rparr>]\<rparr>\<rparr>)"
| handler: "mux_step rt w Tau (w\<lparr>ses := register_handler (ses w)\<rparr>)"
| shut_down: "mux_step rt w Tau (w\<lparr>ses := shutdown rt (ses w), reader := Gone\<rparr>)"

text \<open>The runs of a link started with \<open>start\<close>, with the labels in order.\<close>

inductive mux_run ::
    "('q, 'b, 'o) runtime \<Rightarrow> nat \<Rightarrow> bool \<Rightarrow> label list \<Rightarrow> ('q, 'b, 'o) world \<Rightarrow> bool"
  for rt max_streams handler where
  started: "start rt max_streams handler = Some s \<Longrightarrow>
    mux_run rt max_streams handler [] \<lparr>ses = s, openers = [], sends = [], reader = Reading\<rparr>"
| stepped: "mux_run rt max_streams handler ls w \<Longrightarrow> mux_step rt w l w' \<Longrightarrow>
    mux_run rt max_streams handler (ls @ [l]) w'"

section \<open>Accounting\<close>

definition unregistered :: "opener \<Rightarrow> bool" where
  "unregistered p = (case p of Announcing tx \<Rightarrow> False | _ \<Rightarrow> True)"

definition in_flight :: "opener list \<Rightarrow> nat" where
  "in_flight ps = length (filter unregistered ps)"

lemma in_flight_simps [simp]:
  "in_flight [] = 0"
  "in_flight (xs @ ys) = in_flight xs + in_flight ys"
  "in_flight (Reserved # ys) = Suc (in_flight ys)"
  "in_flight (Numbered i # ys) = Suc (in_flight ys)"
  "in_flight (Announcing tx # ys) = in_flight ys"
  by (simp_all add: in_flight_def unregistered_def)

fun data_bytes :: "addr \<Rightarrow> label list \<Rightarrow> nat" where
  "data_bytes a [] = 0"
| "data_bytes a (l # ls) = (case l of Data b n \<Rightarrow> if b = a then n else 0 | _ \<Rightarrow> 0) + data_bytes a ls"

fun lost_bytes :: "addr \<Rightarrow> label list \<Rightarrow> nat" where
  "lost_bytes a [] = 0"
| "lost_bytes a (l # ls) = (case l of Lost b n \<Rightarrow> if b = a then n else 0 | _ \<Rightarrow> 0) + lost_bytes a ls"

fun grant_bytes :: "addr \<Rightarrow> label list \<Rightarrow> nat" where
  "grant_bytes a [] = 0"
| "grant_bytes a (l # ls) = (case l of Handled m g \<Rightarrow> granted g a | _ \<Rightarrow> 0) + grant_bytes a ls"

lemma bytes_append [simp]:
  "data_bytes a (ls @ ks) = data_bytes a ls + data_bytes a ks"
  "lost_bytes a (ls @ ks) = lost_bytes a ls + lost_bytes a ks"
  "grant_bytes a (ls @ ks) = grant_bytes a ls + grant_bytes a ks"
  by (induction ls) auto

text \<open>A label that leaves all credit alone.\<close>

definition silent :: "label \<Rightarrow> bool" where
  "silent l = (case l of Data a n \<Rightarrow> False | Lost a n \<Rightarrow> False | Handled m g \<Rightarrow> False | _ \<Rightarrow> True)"

lemma silent_simps [simp]: "silent Tau" "silent (Took a x)" "silent (Unheard a)" "silent (take_label a r)"
  by (auto simp: silent_def take_label_def split: poll.splits option.splits)

lemma silent_bytes: "silent l \<Longrightarrow> data_bytes a [l] = 0 \<and> lost_bytes a [l] = 0 \<and> grant_bytes a [l] = 0"
  by (cases l) (auto simp: silent_def)

fun held_bytes :: "addr \<Rightarrow> (stream_tx \<times> send_fut) list \<Rightarrow> nat" where
  "held_bytes a [] = 0"
| "held_bytes a ((tx, data, h) # es) = (if tx_addr tx = a then held h else 0) + held_bytes a es"

lemma held_bytes_append [simp]: "held_bytes a (es @ fs) = held_bytes a es + held_bytes a fs"
  by (induction es) auto

text \<open>
  The invariant: every budget slot is free, held by a stream in the table, or reserved by a
  client that has not registered its stream yet; and at every address, the credit left, the
  data queued, lost and paid for add up to the window and the grants.
\<close>

definition balanced :: "('q, 'b, 'o) runtime \<Rightarrow> label list \<Rightarrow> ('q, 'b, 'o) world \<Rightarrow> addr \<Rightarrow> bool" where
  "balanced rt ls w a \<longleftrightarrow>
     cred rt (ses w) a + data_bytes a ls + lost_bytes a ls + held_bytes a (sends w)
       = unat WINDOW + grant_bytes a ls"

definition untouched :: "label list \<Rightarrow> ('q, 'b, 'o) world \<Rightarrow> addr \<Rightarrow> bool" where
  "untouched ls w a \<longleftrightarrow>
     data_bytes a ls + lost_bytes a ls + held_bytes a (sends w) + grant_bytes a ls = 0"

definition mux_inv :: "('q, 'b, 'o) runtime \<Rightarrow> nat \<Rightarrow> label list \<Rightarrow> ('q, 'b, 'o) world \<Rightarrow> bool" where
  "mux_inv rt n ls w \<longleftrightarrow>
     table_ok rt (ses w)
     \<and> slots rt (ses w) + in_flight (openers w) = n
     \<and> (\<forall>e \<in> set (sends w). tx_addr (fst e) < length (shared (ses w)))
     \<and> (\<forall>a < length (shared (ses w)). balanced rt ls w a)
     \<and> (\<forall>a \<ge> length (shared (ses w)). untouched ls w a)"

lemma mux_inv_quiet:
  assumes "mux_inv rt n ls w" and "quiet rt (ses w) (ses w')"
    and "in_flight (openers w') = in_flight (openers w)"
    and "\<And>a. held_bytes a (sends w') = held_bytes a (sends w)" and "set (sends w') \<subseteq> set (sends w)"
    and "silent l"
  shows "mux_inv rt n (ls @ [l]) w'"
  using assms(1-5) silent_bytes [OF assms(6)]
  by (auto simp: mux_inv_def quiet_def balanced_def untouched_def
      simp del: data_bytes.simps lost_bytes.simps grant_bytes.simps)

lemma mux_inv_insert:
  assumes laws: "sem_laws (sem rt)" and inv: "mux_inv rt n ls w"
    and ins: "insert_stream rt i (ses w) = (ses w', a)"
    and "Suc (in_flight (openers w')) = in_flight (openers w)" and "sends w' = sends w"
  shows "mux_inv rt n (ls @ [Tau]) w'"
proof -
  have "table_ok rt (ses w)" using inv by (simp add: mux_inv_def)
  note f = insert_stream_facts [OF laws this ins]
  have "balanced rt (ls @ [Tau]) w' b" if "b < length (shared (ses w'))" for b
    using that f inv assms(5)
    by (cases "b = a") (auto simp: mux_inv_def balanced_def untouched_def less_Suc_eq)
  with f inv assms(4,5) show ?thesis
    by (auto simp: mux_inv_def untouched_def less_SucI)
qed

lemma mux_inv_frame:
  assumes laws: "sem_laws (sem rt)" and inv: "mux_inv rt n ls w"
    and run: "handle_frame rt frm (ses w) = (s, nx, tx)" "nx \<noteq> Panicked"
  shows "mux_inv rt n (ls @ [Handled frm (frame_grant (ses w) frm)]) (w\<lparr>ses := s, reader := r\<rparr>)"
proof -
  let ?g = "frame_grant (ses w) frm"
  have ok: "table_ok rt (ses w)" using inv by (simp add: mux_inv_def)
  note f = handle_frame_facts [OF laws ok run]
  have fresh: "granted ?g a = 0" if "length (shared (ses w)) \<le> a" for a
    using ok that
    by (auto simp: frame_grant_def granted_def table_ok_def split: sum.splits option.splits prod.splits if_splits
        dest!: map_of_SomeD)
  have "balanced rt (ls @ [Handled frm ?g]) (w\<lparr>ses := s, reader := r\<rparr>) a" if "a < length (shared s)" for a
    using that f inv fresh [of a]
    by (cases "a < length (shared (ses w))") (auto simp: mux_inv_def balanced_def untouched_def not_less)
  moreover have "untouched (ls @ [Handled frm ?g]) (w\<lparr>ses := s, reader := r\<rparr>) a" if "length (shared s) \<le> a" for a
    using that f inv fresh [of a] by (auto simp: mux_inv_def untouched_def)
  ultimately show ?thesis
    using f inv by (fastforce simp: mux_inv_def)
qed

lemma mux_inv_pay:
  assumes laws: "sem_laws (sem rt)" and inv: "mux_inv rt n ls w"
    and here: "sends w = xs @ (tx, data, None) # ys"
    and step: "tx_step rt tx (data, None) (ses w) = Step (s, data', h)"
  shows "mux_inv rt n (ls @ [Tau]) (w\<lparr>ses := s, sends := xs @ (tx, data', h) # ys\<rparr>)"
proof -
  have ok: "table_ok rt (ses w)" and bound: "tx_addr tx < length (shared (ses w))"
    using inv here by (simp_all add: mux_inv_def)
  note f = tx_step_pay [OF laws ok bound step]
  have "balanced rt (ls @ [Tau]) (w\<lparr>ses := s, sends := xs @ (tx, data', h) # ys\<rparr>) a"
    if "a < length (shared s)" for a
  proof -
    have "cred rt (ses w) a = cred rt s a + (if a = tx_addr tx then held h else 0)"
      and "balanced rt ls w a"
      using f inv that by (simp_all add: mux_inv_def)
    then show ?thesis using here by (auto simp: balanced_def)
  qed
  moreover have "untouched (ls @ [Tau]) (w\<lparr>ses := s, sends := xs @ (tx, data', h) # ys\<rparr>) a"
    if "length (shared s) \<le> a" for a
    using that f inv here bound by (auto simp: mux_inv_def untouched_def)
  ultimately show ?thesis
    using f inv here by (simp add: mux_inv_def)
qed

lemma mux_inv_push:
  assumes inv: "mux_inv rt n ls w" and here: "sends w = xs @ (tx, data, Some f) # ys"
    and q: "quiet rt (ses w) s" and sends: "set es \<subseteq> {(tx, data, None)}"
    and l: "l = Data (tx_addr tx) (length (frame_payload f)) \<or> l = Lost (tx_addr tx) (length (frame_payload f))"
  shows "mux_inv rt n (ls @ [l]) (w\<lparr>ses := s, sends := xs @ es @ ys\<rparr>)"
proof -
  have es: "held_bytes a es = 0" for a
    using sends by (induction es) auto
  have "balanced rt (ls @ [l]) (w\<lparr>ses := s, sends := xs @ es @ ys\<rparr>) a"
    if "a < length (shared s)" for a
  proof -
    have "cred rt s a = cred rt (ses w) a" and "balanced rt ls w a"
      using q inv that by (simp_all add: mux_inv_def quiet_def)
    then show ?thesis using here l es by (auto simp: balanced_def)
  qed
  moreover have "untouched (ls @ [l]) (w\<lparr>ses := s, sends := xs @ es @ ys\<rparr>) a"
    if "length (shared s) \<le> a" for a
    using that q inv here l es by (auto simp: mux_inv_def quiet_def untouched_def)
  ultimately show ?thesis
    using inv here q sends by (auto simp: mux_inv_def quiet_def)
qed

lemma mux_inv_step:
  assumes laws: "sem_laws (sem rt)" and "mux_step rt w l w'" and inv: "mux_inv rt n ls w"
  shows "mux_inv rt n (ls @ [l]) w'"
  using assms(2)
proof cases
  have ok: "table_ok rt (ses w)" using inv by (simp add: mux_inv_def)
  note quiets = mux_inv_quiet [OF inv]
  {
    case (reserve xs ys s)
    with inv open_reserve_facts [OF laws ok] show ?thesis
      by (auto simp: mux_inv_def balanced_def untouched_def cred_def)
  next
    case (number xs ys s i)
    then show ?thesis by (auto intro!: quiets quiet_next_id ok simp: open_number_def)
  next
    case (register xs i ys s tx)
    then show ?thesis
      by (auto intro!: mux_inv_insert [OF laws inv] simp: open_insert_def split: prod.splits)
  next
    case (announce xs tx ys s r)
    then show ?thesis by (auto intro!: quiets quiet_open_announce [OF laws ok])
  next
    case (begin_send xs ys tx data)
    with inv show ?thesis by (auto simp: mux_inv_def balanced_def untouched_def)
  next
    case (pay xs tx data ys s fut)
    then show ?thesis by (cases fut) (auto intro: mux_inv_pay [OF laws inv])
  next
    case (push xs tx data f ys s fut)
    then show ?thesis
      using mux_inv_push [OF inv push(3), of s "[(tx, fut)]"] tx_step_push [of rt tx data f "ses w" s "fst fut" "snd fut"]
        quiet_session_send [OF ok]
      by (cases fut) auto
  next
    case (finish xs tx data ys)
    then show ?thesis using ok by (auto intro!: quiets)
  next
    case (abandon xs tx data f ys)
    then show ?thesis using mux_inv_push [OF inv abandon(3), of "ses w" "[]"] ok by auto
  next
    case (frame frm s nx tx)
    then show ?thesis by (simp add: mux_inv_frame [OF laws inv])
  next
    case (reader_stops x r)
    then show ?thesis using ok by (auto intro!: quiets)
  next
    case (reader_send f s r)
    then show ?thesis by (auto intro!: quiets intro: quiet_session_send [OF ok])
  next
    case reader_ends
    then show ?thesis by (auto intro!: quiets quiet_drop_all laws ok)
  next
    case (writer s f)
    then show ?thesis by (auto intro!: quiets intro: quiet_writer_take [OF ok])
  next
    case writer_ends
    then show ?thesis using ok by (auto intro!: quiets)
  next
    case (control_frame f s r)
    then show ?thesis by (auto intro!: quiets intro: quiet_session_send [OF ok])
  next
    case (close tx s f)
    then show ?thesis by (auto intro!: quiets quiet_remove_stream laws ok simp: tx_close_def)
  next
    case (close_now i)
    then show ?thesis by (auto intro!: quiets quiet_close_stream laws ok)
  next
    case (receive a s r)
    then show ?thesis by (auto intro!: quiets intro: quiet_rx_recv [OF ok])
  next
    case (rx_drops a)
    then show ?thesis by (auto intro!: quiets quiet_inbox ok)
  next
    case handler
    then show ?thesis by (auto intro!: quiets quiet_handler ok simp: register_handler_def)
  next
    case shut_down
    then show ?thesis by (auto intro!: quiets quiet_shutdown laws ok)
  }
qed

lemma mux_run_inv:
  assumes "sem_laws (sem rt)" and "mux_run rt max_streams handler ls w"
  shows "mux_inv rt (max max_streams 1) ls w"
  using assms(2)
proof induction
  case (started s)
  then have "s = \<lparr>out = ch_new (outch rt) OUTBOX_FRAMES, streams = [], next_id = 1,
      budget = sem_new (sem rt) (max max_streams 1), shared = [], on_open = handler\<rparr>"
    and "max max_streams 1 \<le> max_permits (sem rt)"
    by (auto simp: start_def split: if_splits)
  with sem_new_laws [OF assms(1), of "max max_streams 1"] show ?case
    by (simp add: mux_inv_def table_ok_def slots_def untouched_def)
next
  case (stepped ls w l w')
  then show ?case by (blast intro: mux_inv_step [OF assms(1)])
qed

end
