(* ===== verification/Mux_Send.thy ===== *)
theory Mux_Send
  imports Mux_Table
begin

text \<open>
  \<open>StreamTx::send\<close> as a whole: which frames a poll queues, what is still to be sent when it
  waits, and when it completes.
\<close>

text \<open>The bytes a future has still to deliver.\<close>

definition owed :: "send_fut \<Rightarrow> bytes" where
  "owed fut = (case snd fut of None \<Rightarrow> [] | Some f \<Rightarrow> frame_payload f) @ fst fut"

definition data_frame :: "u32 \<Rightarrow> frame \<Rightarrow> bool" where
  "data_frame i f \<longleftrightarrow>
     frame_id f = i \<and> frame_kind f = KIND_DATA \<and> frame_payload f \<noteq> [] \<and> length (frame_payload f) \<le> MAX_PAYLOAD"

definition fut_ok :: "u32 \<Rightarrow> send_fut \<Rightarrow> bool" where
  "fut_ok i fut = (case snd fut of None \<Rightarrow> True | Some f \<Rightarrow> data_frame i f)"

abbreviation queue_of :: "('q, 'b, 'o) runtime \<Rightarrow> ('q, 'b, 'o) mux_session \<Rightarrow> frame list" where
  "queue_of rt s \<equiv> ch_items (outch rt) (out s)"

definition room :: "('q, 'b, 'o) runtime \<Rightarrow> ('q, 'b, 'o) mux_session \<Rightarrow> nat" where
  "room rt s = ch_cap (outch rt) (out s) - length (queue_of rt s)"

lemma session_send_Ready:
  assumes "chan_laws (outch rt)" and "session_send rt f s = (s', Ready (Inr ()))"
  shows "queue_of rt s' = queue_of rt s @ [f]" and "Suc (room rt s') = room rt s"
    and "ch_rx_open (outch rt) (out s')" and "shared s' = shared s"
proof -
  obtain c where c: "ch_try_send (outch rt) f (out s) = SendOk c" and s': "s' = s\<lparr>out := c\<rparr>"
    using assms(2) by (auto simp: session_send_def split: sending.splits)
  note l = ch_try_send_laws(1) [OF assms(1) c]
  show "queue_of rt s' = queue_of rt s @ [f]" "Suc (room rt s') = room rt s"
    "ch_rx_open (outch rt) (out s')" "shared s' = shared s"
    using l by (auto simp: s' room_def ch_view_def)
qed

lemma session_send_room:
  assumes "chan_laws (outch rt)" and "ch_rx_open (outch rt) (out s)" and "0 < room rt s"
  obtains s' where "session_send rt f s = (s', Ready (Inr ()))"
  using assms ch_try_send_laws(2,3) [OF assms(1), of f "out s"]
  by (cases "ch_try_send (outch rt) f (out s)") (auto simp: session_send_def room_def)

text \<open>
  One step: the frames it queues (none, or the one paid for) are data frames of the stream,
  non-empty and within \<open>MAX_PAYLOAD\<close>, and their payloads followed by what the future still
  owes are what it owed before.
\<close>

lemma tx_step_frames:
  assumes "chan_laws (outch rt)" and "tx_step rt tx fut s = Step (s', fut')" and "fut_ok (tx_id tx) fut"
  shows "\<exists>fs. queue_of rt s' = queue_of rt s @ fs \<and> (\<forall>f \<in> set fs. data_frame (tx_id tx) f)
    \<and> concat (map frame_payload fs) @ owed fut' = owed fut \<and> fut_ok (tx_id tx) fut'"
proof (cases "snd fut")
  case None
  then have "owed fut' = owed fut \<and> fut_ok (tx_id tx) fut' \<and> out s' = out s"
    using assms(2) by (cases fut)
      (auto simp: tx_step_def Let_def owed_def fut_ok_def data_frame_def wire_consts min_def
        split: if_splits acquired.splits)
  then show ?thesis by (intro exI [of _ "[]"]) simp
next
  case (Some f)
  then have "session_send rt f s = (s', Ready (Inr ()))" and "fut' = (fst fut, None)"
    using tx_step_push [of rt tx "fst fut" f s s' "fst fut'" "snd fut'"] assms(2)
    by (cases fut; cases fut'; simp)+
  with session_send_Ready(1) [OF assms(1)] Some assms(3) show ?thesis
    by (intro exI [of _ "[f]"]) (simp add: owed_def fut_ok_def)
qed

lemma tx_step_done: "tx_step rt tx fut s = Stop (Ready (Inr ())) \<Longrightarrow> owed fut = []"
  by (cases fut)
    (auto simp: tx_step_def owed_def Let_def split: option.splits prod.splits poll.splits sum.splits
      if_splits acquired.splits)

lemma tx_poll_frames:
  assumes "chan_laws (outch rt)" and "tx_poll rt tx fut s = (s', fut', r)" and "fut_ok (tx_id tx) fut"
  shows "\<exists>fs. queue_of rt s' = queue_of rt s @ fs \<and> (\<forall>f \<in> set fs. data_frame (tx_id tx) f)
    \<and> concat (map frame_payload fs) @ owed fut' = owed fut \<and> fut_ok (tx_id tx) fut'
    \<and> (r = Ready (Inr ()) \<longrightarrow> owed fut' = [])"
  using assms
proof (induction rt tx fut s rule: tx_poll.induct)
  case (1 rt tx fut s)
  show ?case
  proof (cases "tx_step rt tx fut s")
    case (Stop r')
    then have "s' = s" "fut' = fut" "r = r'"
      using "1.prems"(2) by (simp_all add: tx_poll.simps)
    with Stop "1.prems"(3) show ?thesis
      by (intro exI [of _ "[]"]) (auto dest: tx_step_done)
  next
    case (Step p)
    obtain s1 fut1 where p: "p = (s1, fut1)" by (cases p)
    have rest: "tx_poll rt tx fut1 s1 = (s', fut', r)"
      using "1.prems"(2) Step p by (simp add: tx_poll.simps)
    obtain fs where fs: "queue_of rt s1 = queue_of rt s @ fs" "\<forall>f \<in> set fs. data_frame (tx_id tx) f"
      "concat (map frame_payload fs) @ owed fut1 = owed fut" "fut_ok (tx_id tx) fut1"
      using tx_step_frames [OF "1.prems"(1) Step [unfolded p] "1.prems"(3)] by blast
    obtain gs where "queue_of rt s' = queue_of rt s1 @ gs" "\<forall>f \<in> set gs. data_frame (tx_id tx) f"
      "concat (map frame_payload gs) @ owed fut' = owed fut1" "fut_ok (tx_id tx) fut'"
      "r = Ready (Inr ()) \<longrightarrow> owed fut' = []"
      using "1.IH" [OF Step p [symmetric] "1.prems"(1) rest fs(4)] by blast
    with fs show ?thesis
      by (intro exI [of _ "fs @ gs"]) auto
  qed
qed

text \<open>
  A send completes in one poll when the stream's credit covers the data and the outbox has
  room for its frames.
\<close>

definition can_finish :: "('q, 'b, 'o) runtime \<Rightarrow> stream_tx \<Rightarrow> send_fut \<Rightarrow> ('q, 'b, 'o) mux_session \<Rightarrow> bool" where
  "can_finish rt tx fut s \<longleftrightarrow>
     tx_addr tx < length (shared s) \<and> \<not> gate_closed rt s (tx_addr tx) \<and> ch_rx_open (outch rt) (out s)
     \<and> length (fst fut) \<le> cred rt s (tx_addr tx) \<and> length (owed fut) \<le> room rt s \<and> fut_ok (tx_id tx) fut"

lemma can_finish_step:
  assumes "runtime_laws rt" and c: "can_finish rt tx fut s" and "owed fut \<noteq> []"
  obtains s' fut' where "tx_step rt tx fut s = Step (s', fut')" and "can_finish rt tx fut' s'"
proof (cases "snd fut")
  case None
  obtain data where fut: "fut = (data, None)" and ne: "data \<noteq> []"
    using None assms(3) by (cases fut) (simp add: owed_def)
  let ?k = "min (length data) MAX_PAYLOAD" and ?st = "shared s ! tx_addr tx"
  have "?k \<le> permits (sem rt) (credit ?st)" "\<not> sem_closed (sem rt) (credit ?st)"
    using c fut by (auto simp: can_finish_def cred_def gate_closed_def)
  then obtain q where q: "sem_acquire (sem rt) ?k (credit ?st) = Acquired q"
    and left: "permits (sem rt) q = permits (sem rt) (credit ?st) - ?k" "\<not> sem_closed (sem rt) q"
    using assms(1) by (auto simp: runtime_laws_def elim: sem_acquire_open)
  let ?s = "s\<lparr>shared := (shared s)[tx_addr tx := ?st\<lparr>credit := q\<rparr>]\<rparr>"
  let ?f = "\<lparr>frame_id = tx_id tx, frame_kind = KIND_DATA, frame_payload = take ?k data\<rparr>"
  have step: "tx_step rt tx fut s = Step (?s, (drop ?k data, Some ?f))"
    using ne q by (simp add: tx_step_def fut Let_def unat_take_u32)
  have "can_finish rt tx (drop ?k data, Some ?f) ?s"
    using c ne left fut
    by (auto simp: can_finish_def cred_def gate_closed_def room_def owed_def fut_ok_def data_frame_def wire_consts)
  with step show ?thesis by (rule that)
next
  case (Some f)
  then have "0 < length (frame_payload f)" and "length (frame_payload f) \<le> room rt s"
    using c by (auto simp: can_finish_def owed_def fut_ok_def data_frame_def)
  then have payload: "0 < length (frame_payload f)" and "0 < room rt s"
    by linarith+
  then obtain s' where s': "session_send rt f s = (s', Ready (Inr ()))"
    using session_send_room [of rt s f] c assms(1) by (auto simp: can_finish_def runtime_laws_def)
  have step: "tx_step rt tx fut s = Step (s', (fst fut, None))"
    using Some s' by (cases fut) (simp add: tx_step_def)
  have "length (frame_payload f) + length (fst fut) \<le> room rt s"
    using c Some by (simp add: can_finish_def owed_def)
  moreover have "Suc (room rt s') = room rt s"
    using session_send_Ready(2) [OF _ s'] assms(1) by (simp add: runtime_laws_def)
  ultimately have "length (fst fut) \<le> room rt s'"
    using payload by linarith
  with session_send_Ready [OF _ s'] c Some assms(1) have "can_finish rt tx (fst fut, None) s'"
    by (auto simp: can_finish_def cred_def gate_closed_def owed_def fut_ok_def runtime_laws_def)
  with step show ?thesis by (rule that)
qed

lemma tx_poll_completes:
  assumes "runtime_laws rt" and "can_finish rt tx fut s"
  shows "\<exists>s'. tx_poll rt tx fut s = (s', ([], None), Ready (Inr ()))"
  using assms
proof (induction rt tx fut s rule: tx_poll.induct)
  case (1 rt tx fut s)
  show ?case
  proof (cases "owed fut = []")
    case True
    then have "fut = ([], None)"
      using "1.prems"(2) by (cases fut) (auto simp: owed_def can_finish_def fut_ok_def data_frame_def split: option.splits)
    then show ?thesis by (simp add: tx_poll.simps tx_step_def)
  next
    case False
    obtain s1 fut1 where step: "tx_step rt tx fut s = Step (s1, fut1)" and "can_finish rt tx fut1 s1"
      using can_finish_step [OF "1.prems" False] by blast
    with "1.IH" [OF step refl "1.prems"(1)] show ?thesis by (simp add: tx_poll.simps)
  qed
qed

end
