(* ===== verification/Mux_Props.thy ===== *)
theory Mux_Props
  imports Mux_Steps Mux_Send
begin

text \<open>
  What a bridge link guarantees: the stream ceiling and the credit window under every
  interleaving, that streams do not disturb each other, that teardown frees everything, and
  what a send puts on the wire.
\<close>

section \<open>Streams do not alias\<close>

lemma addresses_distinct:
  assumes "table_ok rt s" and "map_of (streams s) i = Some b" and "map_of (streams s) j = Some a" and "j \<noteq> i"
  shows "a \<noteq> b"
proof
  assume "a = b"
  with assms have "(i, b) \<in> set (streams s)" "(j, b) \<in> set (streams s)"
    by (auto dest: map_of_SomeD)
  moreover have "inj_on snd (set (streams s))"
    using assms(1) by (simp add: table_ok_def distinct_map)
  ultimately show False
    using assms(4) by (auto dest: inj_onD [of _ _ "(i, b)" "(j, b)"])
qed

text \<open>\<open>spares rt s s' j a\<close>: the stream \<open>j\<close> at address \<open>a\<close> is the same before and after.\<close>

definition spares :: "('q, 'b, 'o) mux_session \<Rightarrow> ('q, 'b, 'o) mux_session \<Rightarrow> u32 \<Rightarrow> addr \<Rightarrow> bool" where
  "spares s s' j a \<longleftrightarrow> map_of (streams s') j = Some a \<and> shared s' ! a = shared s ! a"

lemma spares_remove:
  assumes "table_ok rt s" and "map_of (streams s) j = Some a" and "j \<noteq> i"
  shows "spares s (remove_stream rt i s) j a"
proof (cases "map_of (streams s) i")
  case (Some b)
  with addresses_distinct [OF assms(1) Some assms(2,3)] assms(2,3) show ?thesis
    by (simp add: spares_def remove_stream_def drop_state_def map_of_delete_other)
qed (use assms in \<open>simp add: spares_def remove_stream_def\<close>)

lemma spares_drop:
  assumes "table_ok rt s" and "map_of (streams s) j = Some a" and "j \<noteq> i"
  shows "spares s (drop_stream rt i s) j a"
proof (cases "map_of (streams s) i")
  case (Some b)
  with addresses_distinct [OF assms(1) Some assms(2,3)] assms(2,3) show ?thesis
    by (simp add: spares_def drop_stream_def remove_stream_def drop_state_def map_of_delete_other)
qed (use assms in \<open>simp add: spares_def drop_stream_def\<close>)

lemma spares_insert:
  assumes "sem_laws (sem rt)" and "table_ok rt s" and "map_of (streams s) j = Some a" and "j \<noteq> i"
    and "insert_stream rt i s = (s', b)"
  shows "spares s s' j a \<and> a < b"
proof -
  have "a < length (shared s)"
    using assms(2) map_of_in_table [OF assms(3)] by (auto simp: table_ok_def)
  moreover have "length (shared (remove_stream rt i s)) = length (shared s)"
    using quiet_remove_stream [OF assms(1,2)] by (simp add: quiet_def)
  ultimately show ?thesis
    using spares_remove [OF assms(2-4)] assms(3-5)
    by (auto simp: spares_def insert_stream_def Let_def nth_append map_of_delete_other)
qed

lemma spares_shared:
  "map_of (streams s) j = Some a \<Longrightarrow> a \<noteq> b \<Longrightarrow> spares s (s\<lparr>shared := (shared s)[b := c]\<rparr>) j a"
  by (simp add: spares_def)

lemma spares_handle_open:
  assumes "sem_laws (sem rt)" and "table_ok rt s" and "map_of (streams s) j = Some a" and "j \<noteq> i"
    and "handle_open rt i s = (s', nx, tx)"
  shows "spares s s' j a \<and> (\<forall>e. nx \<noteq> Fail e)"
proof (cases "sem_acquire (sem rt) 1 (budget s)")
  case (Acquired q)
  obtain s1 b where ins: "insert_stream rt i (s\<lparr>budget := q\<rparr>) = (s1, b)" by fastforce
  have "spares (s\<lparr>budget := q\<rparr>) s1 j a \<and> a < b"
    using spares_insert [OF assms(1) table_ok_budget _ assms(4) ins] assms(2,3)
      sem_acquire_laws(1) [OF assms(1) Acquired] by simp
  with Acquired ins assms(5) show ?thesis
    by (auto simp: handle_open_def spares_def split: if_splits)
qed (use assms in \<open>auto simp: handle_open_def spares_def\<close>)

lemma spares_handle_data:
  assumes "table_ok rt s" and "map_of (streams s) j = Some a" and "j \<noteq> i"
    and "handle_data rt i body s = (s', nx)"
  shows "spares s s' j a \<and> (\<forall>e. nx \<noteq> Fail e)"
  using assms spares_drop [OF assms(1-3)] addresses_distinct [OF assms(1) _ assms(2,3)]
  by (auto simp: handle_data_def spares_shared spares_def split: option.splits sending.splits)

lemma spares_handle_window:
  assumes "table_ok rt s" and "map_of (streams s) j = Some a" and "j \<noteq> i"
    and "handle_window rt i n s = (s', nx)"
  shows "spares s s' j a \<and> (\<forall>e. nx \<noteq> Fail e)"
  using assms addresses_distinct [OF assms(1) _ assms(2,3)]
  by (auto simp: handle_window_def spares_shared spares_def split: option.splits)

lemma spares_handle_frame:
  assumes "sem_laws (sem rt)" and "table_ok rt s" and "map_of (streams s) j = Some a" and "j \<noteq> i"
    and "parse_frame frm = Inr (i, kind, body)" and "handle_frame rt frm s = (s', nx, tx)"
  shows "spares s s' j a \<and> (\<forall>e. nx \<noteq> Fail e)"
proof -
  have "spares s s j a" using assms(3) by (simp add: spares_def)
  with assms spares_drop [OF assms(2-4)] spares_handle_open [OF assms(1-4), of s' nx tx]
    spares_handle_data [OF assms(2-4), of body s' nx]
    spares_handle_window [OF assms(2-4), of "of_nat (from_be body)" s' nx]
  show ?thesis
    by (auto simp: handle_frame_def split: if_splits prod.splits)
qed

section \<open>Teardown\<close>

lemma gate_closed_drop:
  assumes "sem_laws (sem rt)" and "table_ok rt s"
  shows "gate_closed rt (drop_stream rt i s) a \<longleftrightarrow> gate_closed rt s a \<or> map_of (streams s) i = Some a"
proof (cases "map_of (streams s) i")
  case None
  then show ?thesis by (simp add: drop_stream_def)
next
  case (Some b)
  with assms(2) have "b < length (shared s)"
    using map_of_in_table [OF Some] by (auto simp: table_ok_def)
  with Some show ?thesis
    by (auto simp: gate_closed_def drop_stream_def remove_stream_def drop_state_def nth_list_update
        sem_close_laws [OF assms(1)])
qed

lemma gate_closed_fold:
  assumes "sem_laws (sem rt)"
  shows "table_ok rt s \<Longrightarrow> gate_closed rt s a \<or> (\<exists>i \<in> fst ` set xs. map_of (streams s) i = Some a) \<Longrightarrow>
    gate_closed rt (fold (\<lambda>(i, a). drop_stream rt i) xs s) a"
proof (induction xs arbitrary: s)
  case Nil
  then show ?case by simp
next
  case (Cons x xs)
  let ?s = "drop_stream rt (fst x) s"
  have ok: "table_ok rt ?s"
    using quiet_drop_stream [OF assms Cons.prems(1)] by (rule quiet_table_ok)
  have "gate_closed rt ?s a \<or> (\<exists>i \<in> fst ` set xs. map_of (streams ?s) i = Some a)"
    using Cons.prems gate_closed_drop [OF assms Cons.prems(1), of "fst x" a]
    by (fastforce simp: map_of_delete_other)
  from Cons.IH [OF ok this] show ?case by (simp add: case_prod_unfold)
qed

lemma drop_all_closes:
  assumes "sem_laws (sem rt)" and "table_ok rt s" and "map_of (streams s) i = Some a"
  shows "gate_closed rt (drop_all rt s) a"
  unfolding drop_all_def
  by (rule gate_closed_fold [OF assms(1,2)]) (use assms(3) map_of_in_table [OF assms(3)] in blast)

lemma closed_gate_stops:
  assumes "sem_laws (sem rt)" and "gate_closed rt s (tx_addr tx)" and "data \<noteq> []"
  shows "tx_step rt tx (data, None) s = Stop (Ready (Inl broken))"
  using assms sem_acquire_laws(1,2) [OF assms(1), of _ "credit (shared s ! tx_addr tx)"]
  by (auto simp: tx_step_def Let_def gate_closed_def split: acquired.splits)

section \<open>Properties\<close>

lemma mux_run_facts:
  assumes "runtime_laws rt" and "mux_run rt max_streams handler ls w"
  shows "sem_laws (sem rt)" and "mux_inv rt (max max_streams 1) ls w" and "table_ok rt (ses w)"
proof -
  show laws: "sem_laws (sem rt)" using assms(1) by (simp add: runtime_laws_def)
  show inv: "mux_inv rt (max max_streams 1) ls w" using laws assms(2) by (rule mux_run_inv)
  then show "table_ok rt (ses w)" by (simp add: mux_inv_def)
qed

text \<open>
  C9. The ceiling on a bridge's streams is exact under concurrency. In every state any
  interleaving of clients, reader, writer and closers can reach, the streams in the table,
  the slots reserved by clients that are still opening theirs, and the free slots add up to
  the configured ceiling (one, if it was zero): so the ceiling is never exceeded, and no slot
  is ever lost or freed twice. A client is turned away exactly when streams and reservations
  fill the ceiling.
\<close>

theorem stream_budget_exact:
  assumes "runtime_laws rt" and "mux_run rt max_streams handler ls w"
  shows "stream_count (ses w) + in_flight (openers w) + permits (sem rt) (budget (ses w)) = max max_streams 1
    \<and> (open_reserve rt (ses w) = None \<longleftrightarrow> stream_count (ses w) + in_flight (openers w) = max max_streams 1)"
proof -
  note laws = mux_run_facts(1) [OF assms] and inv = mux_run_facts(2) [OF assms]
  have "open_reserve rt (ses w) = None \<longleftrightarrow> permits (sem rt) (budget (ses w)) = 0"
    using inv sem_acquire_laws [OF laws, of 1 "budget (ses w)"]
    by (cases "sem_acquire (sem rt) 1 (budget (ses w))") (auto simp: mux_inv_def table_ok_def open_reserve_def)
  then show ?thesis using inv by (auto simp: mux_inv_def slots_def stream_count_def)
qed

text \<open>A link with a ceiling of one, and one client between its reservation and its insert.\<close>

definition demo_session :: "(nat \<times> bool, bytes list_chan, frame list_chan) mux_session" where
  "demo_session = \<lparr>out = ([], 256, True, True), streams = [], next_id = 1, budget = (1, False),
     shared = [], on_open = False\<rparr>"

abbreviation (input) idle :: "('q, 'b, 'o) mux_session \<Rightarrow> ('q, 'b, 'o) world" where
  "idle s \<equiv> \<lparr>ses = s, openers = [], sends = [], reader = Reading\<rparr>"

lemma demo_start: "start demo_rt 1 False = Some demo_session"
  by (simp add: start_def demo_rt_def count_sem_def list_chan_def demo_session_def wire_consts)

lemma demo_reserved:
  "mux_run demo_rt 1 False [Tau] ((idle (demo_session\<lparr>budget := (0, False)\<rparr>))\<lparr>openers := [Reserved]\<rparr>)"
  using mux_run.stepped [OF mux_run.started [OF demo_start] mux_step.reserve [of _ "[]" "[]" demo_rt "demo_session\<lparr>budget := (0, False)\<rparr>"]]
  by (simp add: open_reserve_def demo_rt_def count_sem_def demo_session_def)

text \<open>The same link with its one stream open, and its announcement in the outbox.\<close>

definition demo_open_session :: "(nat \<times> bool, bytes list_chan, frame list_chan) mux_session" where
  "demo_open_session = \<lparr>out = ([control 1 KIND_OPEN], 256, True, True), streams = [(1, 0)], next_id = 2,
     budget = (0, False), shared = [\<lparr>inbox = ([], 1024, True, True), credit = (262144, False)\<rparr>], on_open = False\<rparr>"

lemmas demo_eval = demo_rt_def count_sem_def list_chan_def demo_session_def demo_open_session_def
  wire_consts stream_count_def

lemma demo_opened: "mux_run demo_rt 1 False [Tau, Tau, Tau, Tau] (idle demo_open_session)"
proof -
  let ?s = "demo_session\<lparr>budget := (0, False)\<rparr>"
  let ?t = "?s\<lparr>next_id := 2\<rparr>"
  let ?u = "?t\<lparr>streams := [(1, 0)], shared := [new_stream demo_rt]\<rparr>"
  have "mux_run demo_rt 1 False [Tau, Tau] ((idle ?t)\<lparr>openers := [Numbered 1]\<rparr>)"
    using mux_run.stepped [OF demo_reserved mux_step.number [of _ "[]" "[]" ?t 1]]
    by (simp add: open_number_def demo_session_def)
  from mux_run.stepped [OF this mux_step.register [of _ "[]" 1 "[]" demo_rt ?u "\<lparr>tx_id = 1, tx_addr = 0\<rparr>"]]
  have "mux_run demo_rt 1 False [Tau, Tau, Tau] ((idle ?u)\<lparr>openers := [Announcing \<lparr>tx_id = 1, tx_addr = 0\<rparr>]\<rparr>)"
    by (simp add: open_insert_def insert_stream_def remove_stream_def demo_session_def)
  from mux_run.stepped [OF this mux_step.announce [of _ "[]" "\<lparr>tx_id = 1, tx_addr = 0\<rparr>" "[]" demo_rt
        demo_open_session "Some \<lparr>tx_id = 1, tx_addr = 0\<rparr>"]]
  show ?thesis
    by (simp add: open_announce_def session_send_def new_stream_def demo_eval)
qed

theorem stream_budget_exact_witness:
  "\<exists>ls w. mux_run demo_rt 1 False ls w \<and> in_flight (openers w) = 1
    \<and> stream_count (ses w) + in_flight (openers w) + permits (sem demo_rt) (budget (ses w)) = max 1 1
    \<and> open_reserve demo_rt (ses w) = None"
  using stream_budget_exact [OF demo_rt_laws demo_reserved] demo_reserved
  by (intro exI [of _ "[Tau]"] exI conjI) (auto simp: stream_count_def demo_session_def)

text \<open>
  C10. The proxy never sends past the window it was granted. Under every interleaving, for
  every stream, the data bytes put on the link are at most \<open>WINDOW\<close> plus the grants received
  for it; exactly, the credit left, the bytes queued, the bytes paid for and the bytes whose
  sender was dropped after paying add up to \<open>WINDOW\<close> plus the grants.
\<close>

theorem credit_window_respected:
  assumes "runtime_laws rt" and "mux_run rt max_streams handler ls w" and "a < length (shared (ses w))"
  shows "data_bytes a ls \<le> unat WINDOW + grant_bytes a ls
    \<and> cred rt (ses w) a + data_bytes a ls + lost_bytes a ls + held_bytes a (sends w)
        = unat WINDOW + grant_bytes a ls"
  using mux_run_facts(2) [OF assms(1,2)] assms(3) by (auto simp: mux_inv_def balanced_def)

theorem credit_window_respected_witness:
  "\<exists>ls w. mux_run demo_rt 1 False ls w \<and> stream_count (ses w) = 1
    \<and> data_bytes 0 ls \<le> unat WINDOW + grant_bytes 0 ls"
  using credit_window_respected [OF demo_rt_laws demo_opened, of 0] demo_opened
  by (intro exI [of _ "[Tau, Tau, Tau, Tau]"] exI conjI) (auto simp: demo_eval)





text \<open>
  What a send puts on the link. However often it is polled and whatever happens in
  between, the frames a poll queues go to the end of the outbox, carry the stream's id, are
  non-empty and within \<open>MAX_PAYLOAD\<close>, and their payloads followed by what the future still
  owes are exactly what it owed before; it reports success only when it owes nothing.
\<close>

theorem send_frames:
  assumes "runtime_laws rt" and "tx_poll rt tx fut s = (s', fut', r)" and "fut_ok (tx_id tx) fut"
  shows "\<exists>fs. ch_items (outch rt) (out s') = ch_items (outch rt) (out s) @ fs
    \<and> (\<forall>f \<in> set fs. frame_id f = tx_id tx \<and> frame_kind f = KIND_DATA
         \<and> frame_payload f \<noteq> [] \<and> length (frame_payload f) \<le> MAX_PAYLOAD)
    \<and> concat (map frame_payload fs) @ owed fut' = owed fut \<and> fut_ok (tx_id tx) fut'
    \<and> (r = Ready (Inr ()) \<longrightarrow> owed fut' = [])"
  using tx_poll_frames [of rt tx fut s s' fut' r] assms
  by (simp add: runtime_laws_def data_frame_def)

theorem send_frames_witness:
  "\<exists>s' fut' r fs. tx_poll demo_rt \<lparr>tx_id = 1, tx_addr = 0\<rparr> ([5, 6], None) demo_open_session = (s', fut', r)
    \<and> ch_items (outch demo_rt) (out s') = [control 1 KIND_OPEN] @ fs
    \<and> concat (map frame_payload fs) @ owed fut' = [5, 6]"
proof -
  obtain s' fut' r where
    run: "tx_poll demo_rt \<lparr>tx_id = 1, tx_addr = 0\<rparr> ([5, 6], None) demo_open_session = (s', fut', r)"
    by (cases "tx_poll demo_rt \<lparr>tx_id = 1, tx_addr = 0\<rparr> ([5, 6], None) demo_open_session")
  from send_frames [OF demo_rt_laws run] show ?thesis
    using run by (auto simp: owed_def fut_ok_def demo_rt_def list_chan_def demo_open_session_def)
qed



end
