(* ===== verification/Mux_Io.thy ===== *)
theory Mux_Io
  imports Mux_Props
begin

text \<open>
  \<open>MuxStreamIo\<close> of \<open>src/src/mux.rs\<close>: one mux stream as a byte stream. Its calls work on the
  session, which other tasks change between them; the runs below hand each call whatever
  session it finds.
\<close>

section \<open>State and operations\<close>

definition WRITE_COALESCE :: nat where
  [wire_consts]: "WRITE_COALESCE = 32 * 1024"

definition GRANT_THRESHOLD :: u32 where
  "GRANT_THRESHOLD = WINDOW div 2"

record mux_io =
  io_tx :: stream_tx
  io_rx :: addr
  io_inbox :: "bytes option"
  io_out :: bytes
  io_pending :: "send_fut option"
  credit_due :: u32

definition io_new :: "stream_tx \<Rightarrow> addr \<Rightarrow> mux_io" where
  "io_new tx rx = \<lparr>io_tx = tx, io_rx = rx, io_inbox = None, io_out = [], io_pending = None, credit_due = 0\<rparr>"

definition flush_credit :: "('q, 'b, 'o) runtime \<Rightarrow> mux_io \<Rightarrow> ('q, 'b, 'o) mux_session \<Rightarrow> mux_io \<times> ('q, 'b, 'o) mux_session" where
  "flush_credit rt io s =
     (if credit_due io = 0 then (io, s)
      else (case ch_try_send (outch rt) (grant_frame (tx_id (io_tx io)) (credit_due io)) (out s) of
              SendOk c \<Rightarrow> (io\<lparr>credit_due := 0\<rparr>, s\<lparr>out := c\<rparr>)
            | _ \<Rightarrow> (io, s)))"

definition return_credit :: "('q, 'b, 'o) runtime \<Rightarrow> mux_io \<Rightarrow> ('q, 'b, 'o) mux_session \<Rightarrow> mux_io \<times> ('q, 'b, 'o) mux_session" where
  "return_credit rt io s = (if credit_due io < GRANT_THRESHOLD then (io, s) else flush_credit rt io s)"

text \<open>The tail of \<open>poll_read\<close>: account for the bytes handed over. The sum wraps in release builds.\<close>

definition io_took :: "('q, 'b, 'o) runtime \<Rightarrow> bytes \<Rightarrow> mux_io \<Rightarrow> ('q, 'b, 'o) mux_session
    \<Rightarrow> (mux_io \<times> ('q, 'b, 'o) mux_session) \<times> bytes result poll" where
  "io_took rt bs io s =
     (return_credit rt (io\<lparr>credit_due := credit_due io + of_nat (length bs)\<rparr>) s, Ready (Inr bs))"

definition io_poll_read :: "('q, 'b, 'o) runtime \<Rightarrow> nat \<Rightarrow> mux_io \<Rightarrow> ('q, 'b, 'o) mux_session
    \<Rightarrow> (mux_io \<times> ('q, 'b, 'o) mux_session) \<times> bytes result poll" where
  "io_poll_read rt n io s =
     (case io_inbox io of
        Some chunk \<Rightarrow>
          let k = min (length chunk) n; rest = drop k chunk
          in io_took rt (take k chunk) (io\<lparr>io_inbox := if rest = [] then None else Some rest\<rparr>) s
      | None \<Rightarrow>
          (case rx_recv rt (io_rx io) s of
             (s', Ready (Some chunk)) \<Rightarrow>
               let k = min (length chunk) n
               in io_took rt (take k chunk) (if k < length chunk then io\<lparr>io_inbox := Some (drop k chunk)\<rparr> else io) s'
           | (s', Ready None) \<Rightarrow> (flush_credit rt io s', Ready (Inr []))
           | (s', Pending) \<Rightarrow> ((io, s'), Pending)))"

definition io_poll_write :: "bytes \<Rightarrow> mux_io \<Rightarrow> mux_io \<times> nat result poll" where
  "io_poll_write data io =
     (if io_pending io \<noteq> None then (io, Pending)
      else let buf = io_out io @ data
           in (if length buf \<ge> WRITE_COALESCE then io\<lparr>io_out := [], io_pending := Some (buf, None)\<rparr>
               else io\<lparr>io_out := buf\<rparr>,
               Ready (Inr (length data))))"

text \<open>The second half of \<open>poll_flush\<close>, with no send in flight.\<close>

definition io_flush_out :: "mux_io \<Rightarrow> ('q, 'b, 'o) mux_session \<Rightarrow> (mux_io \<times> ('q, 'b, 'o) mux_session) \<times> unit result poll" where
  "io_flush_out io s =
     (if io_out io = [] then ((io, s), Ready (Inr ()))
      else ((io\<lparr>io_out := [], io_pending := Some (io_out io, None)\<rparr>, s), Pending))"

definition io_poll_flush :: "('q, 'b, 'o) runtime \<Rightarrow> mux_io \<Rightarrow> ('q, 'b, 'o) mux_session
    \<Rightarrow> (mux_io \<times> ('q, 'b, 'o) mux_session) \<times> unit result poll" where
  "io_poll_flush rt io s =
     (case io_pending io of
        None \<Rightarrow> io_flush_out io s
      | Some fut \<Rightarrow>
          (case tx_poll rt (io_tx io) fut s of
             (s', fut', Ready (Inr _)) \<Rightarrow> io_flush_out (io\<lparr>io_pending := None\<rparr>) s'
           | (s', fut', Ready (Inl e)) \<Rightarrow> ((io\<lparr>io_pending := None\<rparr>, s'), Ready (Inl e))
           | (s', fut', Pending) \<Rightarrow> ((io\<lparr>io_pending := Some fut'\<rparr>, s'), Pending)))"

text \<open>\<open>Drop\<close>, and the end of \<open>poll_shutdown\<close>.\<close>

definition io_drop :: "('q, 'b, 'o) runtime \<Rightarrow> mux_io \<Rightarrow> ('q, 'b, 'o) mux_session \<Rightarrow> mux_io \<times> ('q, 'b, 'o) mux_session" where
  "io_drop rt io s =
     (case flush_credit rt io s of (io', s') \<Rightarrow> (io', close_stream rt (tx_id (io_tx io)) s'))"

definition io_poll_shutdown :: "('q, 'b, 'o) runtime \<Rightarrow> mux_io \<Rightarrow> ('q, 'b, 'o) mux_session
    \<Rightarrow> (mux_io \<times> ('q, 'b, 'o) mux_session) \<times> unit result poll" where
  "io_poll_shutdown rt io s =
     (case io_poll_flush rt io s of
        (p, Pending) \<Rightarrow> (p, Pending)
      | ((io', s'), Ready r) \<Rightarrow> (io_drop rt io' s', Ready r))"

section \<open>Runs\<close>

datatype io_op = IoRead nat | IoWrite bytes | IoFlush | IoShutdown

text \<open>
  What a run has seen: the chunks its reads took off the inbox, the bytes they handed over, the
  bytes its writes accepted, and the frames its calls put into the outbox.
\<close>

record io_log =
  recvd :: "bytes list"
  got :: bytes
  put :: bytes
  queued :: "frame list"

definition new_frames :: "('q, 'b, 'o) runtime \<Rightarrow> ('q, 'b, 'o) mux_session \<Rightarrow> ('q, 'b, 'o) mux_session \<Rightarrow> frame list" where
  "new_frames rt s s' = drop (length (queue_of rt s)) (queue_of rt s')"

definition io_takes :: "('q, 'b, 'o) runtime \<Rightarrow> mux_io \<Rightarrow> ('q, 'b, 'o) mux_session \<Rightarrow> bytes list" where
  "io_takes rt io s =
     (case (io_inbox io, snd (rx_recv rt (io_rx io) s)) of (None, Ready (Some chunk)) \<Rightarrow> [chunk] | _ \<Rightarrow> [])"

text \<open>One call that does not fail, on the session it finds; \<open>None\<close> when it fails.\<close>

fun io_call :: "('q, 'b, 'o) runtime \<Rightarrow> io_op \<Rightarrow> ('q, 'b, 'o) mux_session \<Rightarrow> mux_io \<times> io_log \<Rightarrow> (mux_io \<times> io_log) option" where
  "io_call rt (IoRead n) s (io, l) =
     (case io_poll_read rt n io s of
        ((io', s'), Ready (Inr bs)) \<Rightarrow> 
          Some (io', l\<lparr>recvd := recvd l @ io_takes rt io s, got := got l @ bs,
                        queued := queued l @ new_frames rt s s'\<rparr>)
      | ((io', s'), Ready (Inl e)) \<Rightarrow> None
      | ((io', s'), Pending) \<Rightarrow> Some (io', l))"
| "io_call rt (IoWrite data) s (io, l) =
     (case io_poll_write data io of
        (io', Ready (Inr k)) \<Rightarrow> Some (io', l\<lparr>put := put l @ take k data\<rparr>)
      | (io', Ready (Inl e)) \<Rightarrow> None
      | (io', Pending) \<Rightarrow> Some (io', l))"
| "io_call rt IoFlush s (io, l) =
     (case io_poll_flush rt io s of
        ((io', s'), Ready (Inl e)) \<Rightarrow> None
      | ((io', s'), _) \<Rightarrow> Some (io', l\<lparr>queued := queued l @ new_frames rt s s'\<rparr>))"
| "io_call rt IoShutdown s (io, l) =
     (case io_poll_shutdown rt io s of
        ((io', s'), Ready (Inl e)) \<Rightarrow> None
      | ((io', s'), _) \<Rightarrow> Some (io', l\<lparr>queued := queued l @ new_frames rt s s'\<rparr>))"

fun io_run :: "('q, 'b, 'o) runtime \<Rightarrow> (io_op \<times> ('q, 'b, 'o) mux_session) list \<Rightarrow> mux_io \<times> io_log \<Rightarrow> (mux_io \<times> io_log) option" where
  "io_run rt [] x = Some x"
| "io_run rt ((c, s) # cs) x = (case io_call rt c s x of None \<Rightarrow> None | Some y \<Rightarrow> io_run rt cs y)"

section \<open>What a run puts into the outbox\<close>

text \<open>The payload of the data frames of stream \<open>i\<close>, and the credit its WINDOW frames return.\<close>

definition data_payload :: "frame list \<Rightarrow> bytes" where
  "data_payload fs = concat (map frame_payload (filter (\<lambda>f. frame_kind f = KIND_DATA) fs))"

definition window_sum :: "frame list \<Rightarrow> u32" where
  "window_sum fs =
     sum_list (map (\<lambda>f. of_nat (from_be (frame_payload f))) (filter (\<lambda>f. frame_kind f = KIND_WINDOW) fs))"

lemma payload_sums [simp]:
  "data_payload [] = []" "data_payload (fs @ gs) = data_payload fs @ data_payload gs"
  "window_sum [] = 0" "window_sum (fs @ gs) = window_sum fs + window_sum gs"
  by (simp_all add: data_payload_def window_sum_def)

lemma payload_control [simp]:
  "data_payload [control i KIND_CLOSE] = []" "window_sum [control i KIND_CLOSE] = 0"
  "data_payload [grant_frame i n] = []" "window_sum [grant_frame i n] = n"
proof -
  have "from_be (to_be 4 (unat n)) = unat n"
  proof (rule from_be_to_be)
    have "unat n < 2 ^ LENGTH(32)" by (rule unsigned_less)
    then show "unat n < 256 ^ 4" by simp
  qed
  then show "window_sum [grant_frame i n] = n" by (simp add: window_sum_def grant_frame_def)
qed (simp_all add: data_payload_def window_sum_def grant_frame_def)

lemma payload_data_frames:
  "\<forall>f \<in> set fs. data_frame i f \<Longrightarrow> data_payload fs = concat (map frame_payload fs) \<and> window_sum fs = 0"
  by (induction fs) (auto simp: data_payload_def window_sum_def data_frame_def)

text \<open>
  \<open>appends rt s s' fs\<close>: between \<open>s\<close> and \<open>s'\<close> exactly the frames \<open>fs\<close> were put into the outbox.
\<close>

definition appends :: "('q, 'b, 'o) runtime \<Rightarrow> ('q, 'b, 'o) mux_session \<Rightarrow> ('q, 'b, 'o) mux_session \<Rightarrow> frame list \<Rightarrow> bool" where
  "appends rt s s' fs \<longleftrightarrow> queue_of rt s' = queue_of rt s @ fs"

lemma appends_new: "appends rt s s' fs \<Longrightarrow> new_frames rt s s' = fs"
  by (simp add: appends_def new_frames_def)

lemma appends_refl [simp]: "appends rt s s' [] \<longleftrightarrow> queue_of rt s' = queue_of rt s"
  by (simp add: appends_def)

lemma appends_trans: "appends rt s s' fs \<Longrightarrow> appends rt s' s'' gs \<Longrightarrow> appends rt s s'' (fs @ gs)"
  by (simp add: appends_def)

lemma appends_try_send:
  "chan_laws (outch rt) \<Longrightarrow> ch_try_send (outch rt) f (out s) = SendOk c \<Longrightarrow> appends rt s (s\<lparr>out := c\<rparr>) [f]"
  by (drule (1) ch_try_send_laws(1)) (simp add: appends_def ch_view_def)

lemma flush_credit_facts:
  assumes "chan_laws (outch rt)" and "flush_credit rt io s = (io', s')"
  obtains fs where "appends rt s s' fs" "data_payload fs = []"
    "window_sum fs + credit_due io' = credit_due io" "\<exists>n. io' = io\<lparr>credit_due := n\<rparr>"
proof (cases "\<exists>c. credit_due io \<noteq> 0 \<and>
    ch_try_send (outch rt) (grant_frame (tx_id (io_tx io)) (credit_due io)) (out s) = SendOk c")
  case False
  then have "io' = io" "s' = s"
    using assms(2) by (simp_all add: flush_credit_def split: if_splits sending.splits)
  then show ?thesis by (intro that [of "[]"]) (auto intro: exI [of _ "credit_due io"])
next
  case True
  then obtain c where c: "ch_try_send (outch rt) (grant_frame (tx_id (io_tx io)) (credit_due io)) (out s) = SendOk c"
    and "credit_due io \<noteq> 0" by blast
  with assms(2) have io': "io' = io\<lparr>credit_due := 0\<rparr>" and s': "s' = s\<lparr>out := c\<rparr>"
    by (simp_all add: flush_credit_def)
  show ?thesis
    using appends_try_send [OF assms(1) c]
    by (intro that [of "[grant_frame (tx_id (io_tx io)) (credit_due io)]"]) (simp_all add: io' s', blast)
qed

section \<open>The invariant of a run\<close>

definition pending_ok :: "u32 \<Rightarrow> send_fut option \<Rightarrow> bool" where
  "pending_ok i p = (case p of None \<Rightarrow> True | Some fut \<Rightarrow> fut_ok i fut)"

definition pending_owed :: "send_fut option \<Rightarrow> bytes" where
  "pending_owed p = (case p of None \<Rightarrow> [] | Some fut \<Rightarrow> owed fut)"

definition in_hand :: "bytes option \<Rightarrow> bytes" where
  "in_hand c = (case c of None \<Rightarrow> [] | Some bs \<Rightarrow> bs)"

lemma pending_simps [simp]:
  "pending_ok i None" "pending_ok i (Some fut) = fut_ok i fut"
  "pending_owed None = []" "pending_owed (Some fut) = owed fut"
  "in_hand None = []" "in_hand (Some bs) = bs"
  "fut_ok i (buf, None)" "owed (buf, None) = buf"
  by (simp_all add: pending_ok_def pending_owed_def in_hand_def fut_ok_def owed_def)

definition io_inv :: "mux_io \<Rightarrow> io_log \<Rightarrow> bool" where
  "io_inv io l \<longleftrightarrow>
     pending_ok (tx_id (io_tx io)) (io_pending io)
     \<and> put l = data_payload (queued l) @ pending_owed (io_pending io) @ io_out io
     \<and> length (io_out io) < WRITE_COALESCE
     \<and> window_sum (queued l) + credit_due io = of_nat (length (got l))
     \<and> concat (recvd l) = got l @ in_hand (io_inbox io)"

text \<open>\<open>advances rt s s' io' l\<close>: the invariant with the frames put into the outbox on the way.\<close>

definition advances :: "('q, 'b, 'o) runtime \<Rightarrow> ('q, 'b, 'o) mux_session \<Rightarrow> ('q, 'b, 'o) mux_session \<Rightarrow> mux_io \<Rightarrow> io_log \<Rightarrow> bool" where
  "advances rt s s' io l \<longleftrightarrow> (\<exists>fs. appends rt s s' fs \<and> io_inv io (l\<lparr>queued := queued l @ fs\<rparr>))"

lemma advances_new: "advances rt s s' io l \<Longrightarrow> io_inv io (l\<lparr>queued := queued l @ new_frames rt s s'\<rparr>)"
  by (auto simp: advances_def appends_new)

lemma advances_refl: "io_inv io l \<Longrightarrow> queue_of rt s' = queue_of rt s \<Longrightarrow> advances rt s s' io l"
  by (auto simp: advances_def intro: exI [of _ "[]"])

lemma advances_flush_credit:
  assumes "chan_laws (outch rt)" and "flush_credit rt io s = (io', s')" and "io_inv io l"
  shows "advances rt s s' io' l"
proof -
  obtain fs n where "appends rt s s' fs" "data_payload fs = []"
    "window_sum fs + credit_due io' = credit_due io" "io' = io\<lparr>credit_due := n\<rparr>"
    using flush_credit_facts [OF assms(1,2)] by blast
  with assms(3) show ?thesis
    by (auto simp: advances_def io_inv_def add.assoc intro!: exI [of _ fs])
qed

lemma advances_took:
  assumes "chan_laws (outch rt)" and "io_took rt bs io s = ((io', s'), r)"
    and "io_inv (io\<lparr>credit_due := credit_due io + of_nat (length bs)\<rparr>) l"
  shows "r = Ready (Inr bs) \<and> advances rt s s' io' l"
  using assms
  by (auto simp: io_took_def return_credit_def split: if_splits intro: advances_flush_credit advances_refl)

lemma rx_recv_queue: "rx_recv rt a s = (s', r) \<Longrightarrow> queue_of rt s' = queue_of rt s"
  by (auto simp: rx_recv_def split: received.splits)

lemma advances_cong: "queue_of rt s1 = queue_of rt s \<Longrightarrow> advances rt s1 s' io l \<longleftrightarrow> advances rt s s' io l"
  by (simp add: advances_def appends_def)

text \<open>Handing over the first \<open>k\<close> bytes of a chunk in hand or just received.\<close>

lemma io_inv_hand_over:
  assumes "io_inv io l" and "in_hand (io_inbox io) @ concat cs = take k chunk @ in_hand rest"
  shows "io_inv (io\<lparr>io_inbox := rest, credit_due := credit_due io + of_nat (length (take k chunk))\<rparr>)
    (l\<lparr>recvd := recvd l @ cs, got := got l @ take k chunk\<rparr>)"
  using assms by (simp add: io_inv_def algebra_simps)

lemma io_inbox_same: "io_inbox io = c \<Longrightarrow> io\<lparr>io_inbox := c\<rparr> = io"
  by (cases io) simp

lemma io_inv_read:
  assumes "chan_laws (outch rt)" and "io_poll_read rt n io s = ((io', s'), Ready (Inr bs))" and "io_inv io l"
  shows "advances rt s s' io' (l\<lparr>recvd := recvd l @ io_takes rt io s, got := got l @ bs\<rparr>)"
proof (cases "io_inbox io")
  case (Some chunk)
  let ?k = "min (length chunk) n"
  let ?rest = "if drop ?k chunk = [] then None else Some (drop ?k chunk)"
  have t: "io_took rt (take ?k chunk) (io\<lparr>io_inbox := ?rest\<rparr>) s = ((io', s'), Ready (Inr bs))"
    using assms(2) Some by (simp add: io_poll_read_def Let_def)
  have "in_hand (io_inbox io) @ concat (io_takes rt io s) = take ?k chunk @ in_hand ?rest"
    using Some by (simp add: io_takes_def)
  from advances_took [OF assms(1) t] io_inv_hand_over [OF assms(3) this] show ?thesis by simp
next
  case None
  obtain s1 r where rx: "rx_recv rt (io_rx io) s = (s1, r)" by fastforce
  note q = advances_cong [OF rx_recv_queue [OF rx]]
  show ?thesis
  proof (cases "\<exists>chunk. r = Ready (Some chunk)")
    case True
    then obtain chunk where r: "r = Ready (Some chunk)" by blast
    let ?k = "min (length chunk) n"
    let ?rest = "if ?k < length chunk then Some (drop ?k chunk) else None"
    have io: "(if ?k < length chunk then io\<lparr>io_inbox := Some (drop ?k chunk)\<rparr> else io) = io\<lparr>io_inbox := ?rest\<rparr>"
      using None by (simp add: io_inbox_same)
    have t: "io_took rt (take ?k chunk) (io\<lparr>io_inbox := ?rest\<rparr>) s1 = ((io', s'), Ready (Inr bs))"
      using assms(2) None rx r by (simp add: io_poll_read_def Let_def flip: io)
    have "in_hand (io_inbox io) @ concat (io_takes rt io s) = take ?k chunk @ in_hand ?rest"
      using None rx r by (simp add: io_takes_def)
    from advances_took [OF assms(1) t] io_inv_hand_over [OF assms(3) this] show ?thesis
      by (simp add: q)
  next
    case False
    with assms(2) None rx have "flush_credit rt io s1 = (io', s')" "bs = []" "io_takes rt io s = []"
      by (auto simp: io_poll_read_def io_takes_def split: poll.splits option.splits)
    with advances_flush_credit [OF assms(1) _ assms(3), of s1 io' s'] q [of s' io'] show ?thesis by simp
  qed
qed

lemma io_read_pending: "io_poll_read rt n io s = ((io', s'), Pending) \<Longrightarrow> io' = io"
  by (auto simp: io_poll_read_def io_took_def Let_def split: option.splits prod.splits poll.splits)

lemma io_inv_write:
  assumes "io_poll_write data io = (io', r)" and "io_inv io l"
  shows "io_inv io' (case r of Ready (Inr k) \<Rightarrow> l\<lparr>put := put l @ take k data\<rparr> | _ \<Rightarrow> l)"
  using assms
  by (cases "io_pending io") (auto simp: io_poll_write_def io_inv_def Let_def wire_consts split: if_splits)

lemma io_inv_flush_out:
  "io_flush_out io s = ((io', s'), r) \<Longrightarrow> io_pending io = None \<Longrightarrow> io_inv io l \<Longrightarrow> io_inv io' l \<and> s' = s"
  by (auto simp: io_flush_out_def io_inv_def wire_consts split: if_splits)

lemma io_inv_flush:
  assumes "chan_laws (outch rt)" and "io_poll_flush rt io s = ((io', s'), r)" and "io_inv io l"
    and "\<nexists>e. r = Ready (Inl e)"
  shows "advances rt s s' io' l"
proof (cases "io_pending io")
  case None
  with assms io_inv_flush_out [of io s io' s' r l] show ?thesis
    by (simp add: io_poll_flush_def advances_refl)
next
  case (Some fut)
  obtain s1 fut1 r1 where poll: "tx_poll rt (io_tx io) fut s = (s1, fut1, r1)" by (metis prod_cases3)
  from Some assms(3) have "fut_ok (tx_id (io_tx io)) fut" by (simp add: io_inv_def)
  from tx_poll_frames [OF assms(1) poll this] obtain fs where fs: "appends rt s s1 fs"
    "\<forall>f \<in> set fs. data_frame (tx_id (io_tx io)) f" "concat (map frame_payload fs) @ owed fut1 = owed fut"
    "fut_ok (tx_id (io_tx io)) fut1" "r1 = Ready (Inr ()) \<longrightarrow> owed fut1 = []"
    by (auto simp: appends_def)
  have base: "io_inv (io\<lparr>io_pending := Some fut1\<rparr>) (l\<lparr>queued := queued l @ fs\<rparr>)"
    using assms(3) Some fs payload_data_frames [OF fs(2)] by (auto simp: io_inv_def)
  show ?thesis
  proof (cases "r1 = Ready (Inr ())")
    case True
    then have run: "io_flush_out (io\<lparr>io_pending := None\<rparr>) s1 = ((io', s'), r)"
      using assms(2) Some poll by (simp add: io_poll_flush_def)
    have "io_inv (io\<lparr>io_pending := None\<rparr>) (l\<lparr>queued := queued l @ fs\<rparr>)"
      using base True fs(5) by (simp add: io_inv_def)
    with io_inv_flush_out [OF run] fs(1) show ?thesis by (auto simp: advances_def)
  next
    case False
    with assms(2,4) Some poll have "io' = io\<lparr>io_pending := Some fut1\<rparr>" "s' = s1"
      by (auto simp: io_poll_flush_def split: poll.splits sum.splits)
    with base fs(1) show ?thesis by (auto simp: advances_def)
  qed
qed

lemma close_stream_queue:
  assumes "chan_laws (outch rt)"
  shows "\<exists>fs. appends rt s (close_stream rt i s) fs \<and> data_payload fs = [] \<and> window_sum fs = 0"
proof -
  have out: "out (drop_stream rt i s) = out s"
    by (simp add: drop_stream_def remove_stream_def drop_state_def split: option.splits)
  show ?thesis
  proof (cases "\<exists>c. ch_try_send (outch rt) (control i KIND_CLOSE) (out (drop_stream rt i s)) = SendOk c")
    case True
    then obtain c where c: "ch_try_send (outch rt) (control i KIND_CLOSE) (out (drop_stream rt i s)) = SendOk c"
      by blast
    with appends_try_send [OF assms c] out show ?thesis
      by (intro exI [of _ "[control i KIND_CLOSE]"]) (simp add: close_stream_def Let_def appends_def)
  next
    case False
    then have "close_stream rt i s = drop_stream rt i s"
      by (auto simp: close_stream_def Let_def split: sending.splits)
    with out show ?thesis by (intro exI [of _ "[]"]) simp
  qed
qed

lemma advances_then_close:
  assumes "chan_laws (outch rt)" and "advances rt s s' io l"
  shows "advances rt s (close_stream rt i s') io l"
proof -
  obtain fs gs where "appends rt s s' fs" "io_inv io (l\<lparr>queued := queued l @ fs\<rparr>)"
    "appends rt s' (close_stream rt i s') gs" "data_payload gs = []" "window_sum gs = 0"
    using assms close_stream_queue [OF assms(1), of s' i] by (auto simp: advances_def)
  then show ?thesis
    by (auto simp: advances_def io_inv_def dest: appends_trans intro!: exI [of _ "fs @ gs"])
qed

lemma advances_trans:
  assumes "advances rt s s' io l"
    and "\<And>fs. io_inv io (l\<lparr>queued := queued l @ fs\<rparr>) \<Longrightarrow> advances rt s' s'' io' (l\<lparr>queued := queued l @ fs\<rparr>)"
  shows "advances rt s s'' io' l"
proof -
  from assms(1) obtain fs where fs: "appends rt s s' fs" "io_inv io (l\<lparr>queued := queued l @ fs\<rparr>)"
    by (auto simp: advances_def)
  from assms(2) [OF fs(2)] obtain gs where "appends rt s' s'' gs" "io_inv io' (l\<lparr>queued := queued l @ fs @ gs\<rparr>)"
    by (auto simp: advances_def)
  with fs(1) show ?thesis by (auto simp: advances_def dest: appends_trans)
qed

lemma io_inv_drop:
  assumes "chan_laws (outch rt)" and "io_drop rt io s = (io', s')" and "io_inv io l"
  shows "advances rt s s' io' l"
proof -
  obtain s1 where "flush_credit rt io s = (io', s1)" and "s' = close_stream rt (tx_id (io_tx io)) s1"
    using assms(2) by (auto simp: io_drop_def split: prod.splits)
  with advances_flush_credit [OF assms(1) _ assms(3)] show ?thesis
    by (auto intro: advances_then_close [OF assms(1)])
qed

lemma io_inv_shutdown:
  assumes "chan_laws (outch rt)" and "io_poll_shutdown rt io s = ((io', s'), r)" and "io_inv io l"
    and "\<nexists>e. r = Ready (Inl e)"
  shows "advances rt s s' io' l"
proof -
  obtain io1 s1 r1 where fl: "io_poll_flush rt io s = ((io1, s1), r1)" by (metis prod.exhaust)
  have "\<nexists>e. r1 = Ready (Inl e)"
    using assms(2,4) fl by (auto simp: io_poll_shutdown_def split: poll.splits)
  note adv = io_inv_flush [OF assms(1) fl assms(3) this]
  show ?thesis
  proof (cases r1)
    case Pending
    with assms(2) fl adv show ?thesis by (simp add: io_poll_shutdown_def)
  next
    case (Ready x)
    with assms(2) fl have "io_drop rt io1 s1 = (io', s')" by (simp add: io_poll_shutdown_def)
    with adv show ?thesis by (auto intro: advances_trans io_inv_drop [OF assms(1)])
  qed
qed

lemma io_call_inv:
  assumes laws: "chan_laws (outch rt)" and call: "io_call rt c s (io, l) = Some (io', l')" and inv: "io_inv io l"
  shows "io_inv io' l'"
proof (cases c)
  case (IoRead n)
  with call show ?thesis
    using io_inv_read [OF laws _ inv, of n s, THEN advances_new] io_read_pending [of rt n io s] inv
    by (fastforce split: prod.splits poll.splits sum.splits)
next
  case (IoWrite data)
  with call io_inv_write [OF _ inv, of data] show ?thesis
    by (auto split: prod.splits poll.splits sum.splits)
next
  case IoFlush
  with call io_inv_flush [OF laws _ inv, of s, THEN advances_new] show ?thesis
    by (auto split: prod.splits poll.splits sum.splits)
next
  case IoShutdown
  with call io_inv_shutdown [OF laws _ inv, of s, THEN advances_new] show ?thesis
    by (auto split: prod.splits poll.splits sum.splits)
qed

lemma io_run_inv:
  assumes "chan_laws (outch rt)"
  shows "io_run rt cs (io, l) = Some (io', l') \<Longrightarrow> io_inv io l \<Longrightarrow> io_inv io' l'"
proof (induction cs arbitrary: io l)
  case Nil
  then show ?case by simp
next
  case (Cons x cs)
  then show ?case
    by (cases x) (auto split: option.splits dest: io_call_inv [OF assms])
qed

section \<open>Properties\<close>

definition no_log :: io_log where
  "no_log = \<lparr>recvd = [], got = [], put = [], queued = []\<rparr>"

text \<open>
  C23. A mux stream used as a byte stream keeps its bytes in order in both directions,
  whatever the buffer sizes and whatever other tasks do to the session between the calls. The
  bytes handed to the reader, followed by the chunk in hand, are the chunks taken off the
  inbox; the bytes accepted from the writer are the payloads of the data frames queued so
  far, followed by what the send in flight owes and what is still coalesced, which stays
  below 32 KiB.
\<close>

theorem mux_io_in_order:
  assumes "runtime_laws rt" and "io_run rt cs (io_new tx rx, no_log) = Some (io, l)"
  shows "concat (recvd l) = got l @ in_hand (io_inbox io)
    \<and> put l = data_payload (queued l) @ pending_owed (io_pending io) @ io_out io
    \<and> length (io_out io) < WRITE_COALESCE"
proof -
  have "io_inv (io_new tx rx) no_log"
    by (simp add: io_inv_def io_new_def no_log_def wire_consts)
  with assms have "io_inv io l" by (auto simp: runtime_laws_def dest: io_run_inv)
  then show ?thesis by (simp add: io_inv_def)
qed

text \<open>A run: two reads of a two-byte chunk, a write, and flushes until it is queued.\<close>

definition demo_calls :: "(io_op \<times> (nat \<times> bool, bytes list_chan, frame list_chan) mux_session) list" where
  "demo_calls =
     [(IoRead 1, demo_open_session\<lparr>shared := [\<lparr>inbox = ([[7, 8]], 1024, True, True), credit = (262144, False)\<rparr>]\<rparr>),
      (IoRead 9, demo_open_session), (IoWrite [1, 2, 3], demo_open_session),
      (IoFlush, demo_open_session), (IoFlush, demo_open_session)]"

lemma demo_calls_run:
  "\<exists>io l. io_run demo_rt demo_calls (io_new \<lparr>tx_id = 1, tx_addr = 0\<rparr> 0, no_log) = Some (io, l)
    \<and> got l = [7, 8] \<and> put l = [1, 2, 3] \<and> io_inbox io = None \<and> io_pending io = None \<and> io_out io = []"
proof -
  have "case io_run demo_rt demo_calls (io_new \<lparr>tx_id = 1, tx_addr = 0\<rparr> 0, no_log) of
      None \<Rightarrow> False
    | Some (io, l) \<Rightarrow> got l = [7, 8] \<and> put l = [1, 2, 3] \<and> io_inbox io = None \<and> io_pending io = None \<and> io_out io = []"
    by code_simp
  then show ?thesis
    by (cases "io_run demo_rt demo_calls (io_new \<lparr>tx_id = 1, tx_addr = 0\<rparr> 0, no_log)") auto
qed

theorem mux_io_in_order_witness:
  "\<exists>io l. io_run demo_rt demo_calls (io_new \<lparr>tx_id = 1, tx_addr = 0\<rparr> 0, no_log) = Some (io, l)
    \<and> concat (recvd l) = [7, 8] \<and> data_payload (queued l) = [1, 2, 3]"
proof -
  obtain io l where run: "io_run demo_rt demo_calls (io_new \<lparr>tx_id = 1, tx_addr = 0\<rparr> 0, no_log) = Some (io, l)"
    and "got l = [7, 8]" "put l = [1, 2, 3]" "io_inbox io = None" "io_pending io = None" "io_out io = []"
    using demo_calls_run by blast
  with mux_io_in_order [OF demo_rt_laws run] show ?thesis by auto
qed

text \<open>
  Every byte read is credited to the peer exactly once: the credit in the WINDOW frames
  queued so far and the credit still due add up to the bytes handed to the reader (modulo
  \<open>2 ^ 32\<close>, the width of the counters).
\<close>

theorem mux_io_credit_returned:
  assumes "runtime_laws rt" and "io_run rt cs (io_new tx rx, no_log) = Some (io, l)"
  shows "window_sum (queued l) + credit_due io = of_nat (length (got l))"
proof -
  have "io_inv (io_new tx rx) no_log"
    by (simp add: io_inv_def io_new_def no_log_def wire_consts)
  with assms have "io_inv io l" by (auto simp: runtime_laws_def dest: io_run_inv)
  then show ?thesis by (simp add: io_inv_def)
qed

theorem mux_io_credit_returned_witness:
  "\<exists>io l. io_run demo_rt demo_calls (io_new \<lparr>tx_id = 1, tx_addr = 0\<rparr> 0, no_log) = Some (io, l)
    \<and> window_sum (queued l) + credit_due io = 2"
proof -
  obtain io l where run: "io_run demo_rt demo_calls (io_new \<lparr>tx_id = 1, tx_addr = 0\<rparr> 0, no_log) = Some (io, l)"
    and "got l = [7, 8]"
    using demo_calls_run by blast
  with mux_io_credit_returned [OF demo_rt_laws run] show ?thesis by auto
qed

end
