(* ===== verification/Admission.thy ===== *)
theory Admission
  imports Wire
begin

text \<open>
  Admission control of \<open>src/src/lib.rs\<close>: the configured limits, and the per-address slots
  (\<open>IpSlot\<close>) that bound how many bridges, and how many TLS clients, one peer may hold. The
  contract of such a gate is the locale \<open>admission\<close>; \<open>IpSlot\<close> meets it at every ceiling.
\<close>

section \<open>Limits\<close>

text \<open>\<open>Limits\<close>; the deadline is in milliseconds.\<close>

record limits =
  max_bridges :: nat
  max_bridges_per_ip :: nat
  max_streams_per_bridge :: nat
  handshake_timeout :: nat
  max_clients_per_ip :: nat

definition default_limits :: limits where
  "default_limits = \<lparr>max_bridges = 1024, max_bridges_per_ip = 32, max_streams_per_bridge = MAX_STREAMS_PER_BRIDGE,
     handshake_timeout = 10000, max_clients_per_ip = 64\<rparr>"

section \<open>Slots per address\<close>

text \<open>
  \<open>DashMap<IpAddr, usize>\<close>. \<open>claim\<close> holds the entry's lock throughout; \<open>drop\<close> takes it twice,
  to count down and to reclaim a key nobody holds, and a claim may come in between.
\<close>

type_synonym 'ip slot_table = "'ip \<rightharpoonup> nat"

definition ip_claim :: "'ip slot_table \<Rightarrow> 'ip \<Rightarrow> nat \<Rightarrow> 'ip slot_table \<times> bool" where
  "ip_claim table ip ceiling =
     (let n = (case table ip of Some n \<Rightarrow> n | None \<Rightarrow> 0)
      in if n \<ge> ceiling then (table(ip \<mapsto> n), False) else (table(ip \<mapsto> n + 1), True))"

definition ip_release :: "'ip slot_table \<Rightarrow> 'ip \<Rightarrow> 'ip slot_table" where
  "ip_release table ip = (case table ip of Some n \<Rightarrow> table(ip \<mapsto> n - 1) | None \<Rightarrow> table)"

definition ip_reclaim :: "'ip slot_table \<Rightarrow> 'ip \<Rightarrow> 'ip slot_table" where
  "ip_reclaim table ip = (if table ip = Some 0 then table(ip := None) else table)"

definition ip_drop :: "'ip slot_table \<Rightarrow> 'ip \<Rightarrow> 'ip slot_table" where
  "ip_drop table ip = ip_reclaim (ip_release table ip) ip"

definition ip_count :: "'ip slot_table \<Rightarrow> 'ip \<Rightarrow> nat" where
  "ip_count table ip = (case table ip of Some n \<Rightarrow> n | None \<Rightarrow> 0)"

section \<open>The contract of a gate\<close>

datatype 'k gate_op = Claim 'k | Release 'k | Reclaim 'k

text \<open>
  A run of a gate: the claims, and the two halves of the drops of slots that were granted, in
  any order. Beside the gate's state: the slots held, and those released but not reclaimed.
\<close>

fun gate_step :: "('k \<Rightarrow> 's \<Rightarrow> 's \<times> bool) \<Rightarrow> ('k \<Rightarrow> 's \<Rightarrow> 's) \<Rightarrow> ('k \<Rightarrow> 's \<Rightarrow> 's) \<Rightarrow> 'k gate_op
    \<Rightarrow> 's \<times> 'k list \<times> 'k list \<Rightarrow> 's \<times> 'k list \<times> 'k list" where
  "gate_step claim release reclaim (Claim k) (s, held, gone) =
     (case claim k s of (s', ok) \<Rightarrow> (s', if ok then k # held else held, gone))"
| "gate_step claim release reclaim (Release k) (s, held, gone) =
     (if k \<in> set held then (release k s, remove1 k held, k # gone) else (s, held, gone))"
| "gate_step claim release reclaim (Reclaim k) (s, held, gone) =
     (if k \<in> set gone then (reclaim k s, held, remove1 k gone) else (s, held, gone))"

definition exact :: "('s \<Rightarrow> 'k \<Rightarrow> nat) \<Rightarrow> nat \<Rightarrow> 's \<times> 'k list \<times> 'k list \<Rightarrow> bool" where
  "exact holders ceiling x \<longleftrightarrow> (case x of (s, held, gone) \<Rightarrow>
     \<forall>k. holders s k = count_list held k \<and> count_list held k \<le> ceiling)"

lemma count_list_remove1:
  "k \<in> set xs \<Longrightarrow> count_list (remove1 k xs) j = (if j = k then count_list xs j - 1 else count_list xs j)"
  by (induction xs) (auto simp: count_list_0_iff Suc_diff_1 intro!: Suc_pred simp flip: neq0_conv)

locale admission =
  fixes holders :: "'s \<Rightarrow> 'k \<Rightarrow> nat"
    and claim :: "'k \<Rightarrow> 's \<Rightarrow> 's \<times> bool"
    and release :: "'k \<Rightarrow> 's \<Rightarrow> 's"
    and reclaim :: "'k \<Rightarrow> 's \<Rightarrow> 's"
    and ceiling :: nat
  assumes claim_granted: "snd (claim k s) \<longleftrightarrow> holders s k < ceiling"
    and claim_holders: "holders (fst (claim k s)) j = holders s j + (if snd (claim k s) \<and> j = k then 1 else 0)"
    and release_holders: "holders (release k s) j = (if j = k then holders s j - 1 else holders s j)"
    and reclaim_holders: "holders (reclaim k s) j = holders s j"
begin

lemma exact_claim:
  assumes "exact holders ceiling (s, held, gone)"
  shows "exact holders ceiling (gate_step claim release reclaim (Claim k) (s, held, gone))"
  using assms claim_granted [of k s] claim_holders [of k s]
  by (cases "claim k s") (auto simp: exact_def)

lemma exact_release:
  assumes "exact holders ceiling (s, held, gone)"
  shows "exact holders ceiling (gate_step claim release reclaim (Release k) (s, held, gone))"
  using assms by (auto simp: exact_def release_holders count_list_remove1 intro: le_trans [OF diff_le_self])

lemma exact_reclaim:
  assumes "exact holders ceiling (s, held, gone)"
  shows "exact holders ceiling (gate_step claim release reclaim (Reclaim k) (s, held, gone))"
  using assms by (auto simp: exact_def reclaim_holders)

lemma exact_step: "exact holders ceiling x \<Longrightarrow> exact holders ceiling (gate_step claim release reclaim c x)"
  by (cases x; cases c) (auto simp only: exact_claim exact_release exact_reclaim)

text \<open>Through any run the gate counts exactly the slots held, and never more than the ceiling.\<close>

theorem exact_run:
  "exact holders ceiling x \<Longrightarrow> exact holders ceiling (fold (gate_step claim release reclaim) ops x)"
  by (induction ops arbitrary: x) (auto simp: exact_step)

end

section \<open>The slots per address meet it\<close>

interpretation ip_slot: admission ip_count "\<lambda>ip t. ip_claim t ip ceiling" "\<lambda>ip t. ip_release t ip"
  "\<lambda>ip t. ip_reclaim t ip" ceiling
  for ceiling
  by unfold_locales
    (auto simp: ip_count_def ip_claim_def ip_release_def ip_reclaim_def Let_def split: option.splits)

abbreviation ip_step :: "nat \<Rightarrow> 'ip gate_op \<Rightarrow> 'ip slot_table \<times> 'ip list \<times> 'ip list \<Rightarrow> 'ip slot_table \<times> 'ip list \<times> 'ip list" where
  "ip_step ceiling \<equiv> gate_step (\<lambda>ip t. ip_claim t ip ceiling) (\<lambda>ip t. ip_release t ip) (\<lambda>ip t. ip_reclaim t ip)"

text \<open>A key whose count is zero is about to be reclaimed.\<close>

definition tidy :: "'ip slot_table \<times> 'ip list \<times> 'ip list \<Rightarrow> bool" where
  "tidy x \<longleftrightarrow> (case x of (t, held, gone) \<Rightarrow> \<forall>ip. t ip = Some 0 \<longrightarrow> ip \<in> set gone)"

lemma tidy_step: "0 < ceiling \<Longrightarrow> tidy x \<Longrightarrow> tidy (ip_step ceiling c x)"
  by (cases x; cases c)
    (auto simp: tidy_def ip_claim_def ip_release_def ip_reclaim_def Let_def
      split: option.splits if_splits intro!: in_set_remove1 [THEN iffD2])

lemma tidy_run: "0 < ceiling \<Longrightarrow> tidy x \<Longrightarrow> tidy (fold (ip_step ceiling) ops x)"
  by (induction ops arbitrary: x) (auto simp: tidy_step)

section \<open>Properties\<close>

text \<open>
  C32. The per-address ceiling holds under concurrency. Whatever order claims and the two
  halves of drops come in, the table counts for every address exactly the slots it holds, and
  never more than the ceiling; a claim is refused exactly when the address holds its share;
  and with a positive ceiling, once every drop has run to its end, the addresses in the table
  are those that hold a slot: it tracks live peers only.
\<close>

theorem ip_slots_exact:
  assumes "fold (ip_step ceiling) ops (Map.empty, [], []) = (t, held, gone)"
  shows "ip_count t ip = count_list held ip \<and> count_list held ip \<le> ceiling
    \<and> snd (ip_claim t ip ceiling) = (count_list held ip < ceiling)
    \<and> (0 < ceiling \<and> gone = [] \<longrightarrow> dom t = set held)"
proof -
  have start: "exact ip_count ceiling (Map.empty, [], [])" "tidy (Map.empty, [], [])"
    by (simp_all add: exact_def ip_count_def tidy_def)
  then have ex: "exact ip_count ceiling (t, held, gone)"
    using ip_slot.exact_run [of ceiling _ ops] assms by metis
  have "dom t = set held" if "0 < ceiling" "gone = []"
  proof -
    have "tidy (t, held, gone)" using tidy_run [OF that(1) start(2), of ops] assms by simp
    then have facts: "t ip \<noteq> Some 0" "ip_count t ip = count_list held ip" for ip
      using ex that(2) by (simp_all add: tidy_def exact_def)
    have "t ip \<noteq> None \<longleftrightarrow> count_list held ip \<noteq> 0" for ip
      using facts(1) [of ip] by (cases "t ip") (auto simp: ip_count_def simp flip: facts(2))
    then show ?thesis by (auto simp: dom_def count_list_0_iff)
  qed
  with ex show ?thesis
    using ip_slot.claim_granted [of t ip ceiling] by (simp add: exact_def)
qed

theorem ip_slots_exact_witness:
  "\<exists>t. fold (ip_step 2) [Claim 7, Claim 8, Release 7, Reclaim 7] (Map.empty, [], []) = (t, [8 :: nat], [])
    \<and> ip_count t 8 = 1 \<and> dom t = {8}"
proof -
  have run: "fold (ip_step 2) [Claim 7, Claim 8, Release 7, Reclaim 7] (Map.empty, [], [])
      = ((Map.empty(7 \<mapsto> 1, 8 \<mapsto> 1))(7 \<mapsto> 0, 7 := None), [8 :: nat], [])"
    by (simp add: ip_claim_def ip_release_def ip_reclaim_def)
  from ip_slots_exact [OF run, of 8] run show ?thesis by (auto simp del: fold_simps)
qed

end
