(* ===== verification/Registry.thy ===== *)
theory Registry
  imports Admission Tokio
begin

text \<open>
  The bridge registry of \<open>src/src/lib.rs\<close>: \<open>serve_bridge\<close> as run by many connections at once.
  Every connection walks through admission, handshake, registration, the life of its link and
  the way out, and the others run between any two of its accesses to shared state: the global
  budget (a semaphore), the per-address slots, and the routing table.

  What the handshake and the life of a link bring is input: a handshake yields a key or
  fails, and a link may die at any moment.
\<close>

section \<open>State\<close>

type_synonym key = bytes

text \<open>
  Where a connection is in \<open>serve_bridge\<close>: it holds a budget slot; it holds both slots and runs
  the handshake; its session is started; it has displaced the session of another connection
  and is about to shut that down; it waits for its link; it returns, giving up the address
  slot in two accesses and then the budget slot.
\<close>

datatype bridge_pc =
    Budgeted | Handshaking | Linked key | Displacing key nat | Up key
  | Leaving | Reclaiming | Unbudgeting | Finished

record 'ip conn =
  peer :: 'ip
  pc :: bridge_pc
  dead :: bool

record ('q, 'ip) registry =
  conns :: "'ip conn list"
  routes :: "key \<rightharpoonup> nat"
  per_ip :: "'ip slot_table"
  global :: 'q

definition set_conn :: "nat \<Rightarrow> ('ip conn \<Rightarrow> 'ip conn) \<Rightarrow> ('q, 'ip) registry \<Rightarrow> ('q, 'ip) registry" where
  "set_conn i f r = r\<lparr>conns := (conns r)[i := f (conns r ! i)]\<rparr>"

abbreviation go :: "nat \<Rightarrow> bridge_pc \<Rightarrow> ('q, 'ip) registry \<Rightarrow> ('q, 'ip) registry" where
  "go i p \<equiv> set_conn i (\<lambda>c. c\<lparr>pc := p\<rparr>)"

section \<open>Steps\<close>

text \<open>\<open>budget.try_acquire_owned()\<close> of a new connection; refused, it leaves no trace.\<close>

definition bridge_admit :: "'q sem_ops \<Rightarrow> 'ip \<Rightarrow> ('q, 'ip) registry \<Rightarrow> ('q, 'ip) registry" where
  "bridge_admit sm ip r =
     (case sem_acquire sm 1 (global r) of
        Acquired q \<Rightarrow> r\<lparr>global := q, conns := conns r @ [\<lparr>peer = ip, pc = Budgeted, dead = False\<rparr>]\<rparr>
      | _ \<Rightarrow> r)"

definition bridge_claim :: "limits \<Rightarrow> nat \<Rightarrow> ('q, 'ip) registry \<Rightarrow> ('q, 'ip) registry" where
  "bridge_claim lim i r =
     (case ip_claim (per_ip r) (peer (conns r ! i)) (max_bridges_per_ip lim) of (t, ok) \<Rightarrow>
        go i (if ok then Handshaking else Unbudgeting) (r\<lparr>per_ip := t\<rparr>))"

text \<open>The outcome of \<open>xx_respond\<close> under its deadline: a key, or an error or timeout.\<close>

definition bridge_handshake :: "nat \<Rightarrow> key option \<Rightarrow> ('q, 'ip) registry \<Rightarrow> ('q, 'ip) registry" where
  "bridge_handshake i res r = go i (case res of Some k \<Rightarrow> Linked k | None \<Rightarrow> Leaving) r"

text \<open>\<open>table.insert(bridge_key, session)\<close>, and what the previous entry was.\<close>

definition bridge_register :: "nat \<Rightarrow> key \<Rightarrow> ('q, 'ip) registry \<Rightarrow> ('q, 'ip) registry" where
  "bridge_register i k r =
     go i (case routes r k of Some previous \<Rightarrow> Displacing k previous | None \<Rightarrow> Up k)
       (r\<lparr>routes := (routes r)(k \<mapsto> i)\<rparr>)"

text \<open>\<open>previous.shutdown()\<close>: the displaced link dies.\<close>

definition bridge_displace :: "nat \<Rightarrow> key \<Rightarrow> nat \<Rightarrow> ('q, 'ip) registry \<Rightarrow> ('q, 'ip) registry" where
  "bridge_displace i k previous r = go i (Up k) (set_conn previous (\<lambda>c. c\<lparr>dead := True\<rparr>) r)"

text \<open>\<open>done\<close> resolved: \<open>table.remove_if\<close> with the pointer comparison.\<close>

definition bridge_done :: "nat \<Rightarrow> key \<Rightarrow> ('q, 'ip) registry \<Rightarrow> ('q, 'ip) registry" where
  "bridge_done i k r =
     go i Leaving (if routes r k = Some i then r\<lparr>routes := (routes r)(k := None)\<rparr> else r)"

definition bridge_release :: "nat \<Rightarrow> ('q, 'ip) registry \<Rightarrow> ('q, 'ip) registry" where
  "bridge_release i r = go i Reclaiming (r\<lparr>per_ip := ip_release (per_ip r) (peer (conns r ! i))\<rparr>)"

definition bridge_reclaim :: "nat \<Rightarrow> ('q, 'ip) registry \<Rightarrow> ('q, 'ip) registry" where
  "bridge_reclaim i r = go i Unbudgeting (r\<lparr>per_ip := ip_reclaim (per_ip r) (peer (conns r ! i))\<rparr>)"

definition bridge_unbudget :: "'q sem_ops \<Rightarrow> nat \<Rightarrow> ('q, 'ip) registry \<Rightarrow> ('q, 'ip) registry" where
  "bridge_unbudget sm i r = go i Finished (r\<lparr>global := sem_release sm 1 (global r)\<rparr>)"

definition at :: "('q, 'ip) registry \<Rightarrow> nat \<Rightarrow> bridge_pc \<Rightarrow> bool" where
  "at r i p \<longleftrightarrow> i < length (conns r) \<and> pc (conns r ! i) = p"

inductive bridge_step :: "'q sem_ops \<Rightarrow> limits \<Rightarrow> ('q, 'ip) registry \<Rightarrow> ('q, 'ip) registry \<Rightarrow> bool"
  for sm lim where
  admit: "bridge_step sm lim r (bridge_admit sm ip r)"
| claim: "at r i Budgeted \<Longrightarrow> bridge_step sm lim r (bridge_claim lim i r)"
| handshake: "at r i Handshaking \<Longrightarrow> bridge_step sm lim r (bridge_handshake i res r)"
| register: "at r i (Linked k) \<Longrightarrow> bridge_step sm lim r (bridge_register i k r)"
| displace: "at r i (Displacing k previous) \<Longrightarrow> bridge_step sm lim r (bridge_displace i k previous r)"
| dies: "i < length (conns r) \<Longrightarrow> bridge_step sm lim r (set_conn i (\<lambda>c. c\<lparr>dead := True\<rparr>) r)"
| finished: "at r i (Up k) \<Longrightarrow> dead (conns r ! i) \<Longrightarrow> bridge_step sm lim r (bridge_done i k r)"
| release: "at r i Leaving \<Longrightarrow> bridge_step sm lim r (bridge_release i r)"
| reclaim: "at r i Reclaiming \<Longrightarrow> bridge_step sm lim r (bridge_reclaim i r)"
| unbudget: "at r i Unbudgeting \<Longrightarrow> bridge_step sm lim r (bridge_unbudget sm i r)"

text \<open>\<open>run_edge\<close> starts with an empty table and a full budget.\<close>

definition registry_start :: "'q sem_ops \<Rightarrow> limits \<Rightarrow> ('q, 'ip) registry" where
  "registry_start sm lim =
     \<lparr>conns = [], routes = Map.empty, per_ip = Map.empty, global = sem_new sm (max_bridges lim)\<rparr>"

inductive bridge_run :: "'q sem_ops \<Rightarrow> limits \<Rightarrow> ('q, 'ip) registry \<Rightarrow> bool" for sm lim where
  start: "max_bridges lim \<le> max_permits sm \<Longrightarrow> bridge_run sm lim (registry_start sm lim)"
| step: "bridge_run sm lim r \<Longrightarrow> bridge_step sm lim r r' \<Longrightarrow> bridge_run sm lim r'"

section \<open>Counting\<close>

definition holds_budget :: "'ip conn \<Rightarrow> bool" where
  "holds_budget c \<longleftrightarrow> pc c \<noteq> Finished"

fun ip_pc :: "bridge_pc \<Rightarrow> bool" where
  "ip_pc Handshaking = True"
| "ip_pc (Linked k) = True"
| "ip_pc (Displacing k p) = True"
| "ip_pc (Up k) = True"
| "ip_pc Leaving = True"
| "ip_pc _ = False"

definition holds_ip :: "'ip \<Rightarrow> 'ip conn \<Rightarrow> bool" where
  "holds_ip ip c \<longleftrightarrow> peer c = ip \<and> ip_pc (pc c)"

definition count_conns :: "('ip conn \<Rightarrow> bool) \<Rightarrow> ('q, 'ip) registry \<Rightarrow> nat" where
  "count_conns P r = length (filter P (conns r))"

lemma count_set_conn:
  "i < length (conns r) \<Longrightarrow>
   count_conns P (set_conn i f r) + (if P (conns r ! i) then 1 else 0)
     = count_conns P r + (if P (f (conns r ! i)) then 1 else 0)"
  unfolding count_conns_def set_conn_def by (simp add: filter_update_count)

definition slots_inv :: "'q sem_ops \<Rightarrow> limits \<Rightarrow> ('q, 'ip) registry \<Rightarrow> bool" where
  "slots_inv sm lim r \<longleftrightarrow>
     permits sm (global r) + count_conns holds_budget r = max_bridges lim
     \<and> \<not> sem_closed sm (global r)
     \<and> (\<forall>ip. ip_count (per_ip r) ip = count_conns (holds_ip ip) r
          \<and> count_conns (holds_ip ip) r \<le> max_bridges_per_ip lim)"

section \<open>Routing\<close>

definition registered :: "key \<Rightarrow> bridge_pc \<Rightarrow> bool" where
  "registered k p \<longleftrightarrow> p = Up k \<or> (\<exists>q. p = Displacing k q)"

text \<open>
  Every route leads to a connection registered under that key; every live registered
  connection is the route for its key or about to be shut down by the one that displaced it.
\<close>

definition routes_inv :: "('q, 'ip) registry \<Rightarrow> bool" where
  "routes_inv r \<longleftrightarrow>
     (\<forall>k i. routes r k = Some i \<longrightarrow> i < length (conns r) \<and> registered k (pc (conns r ! i)))
     \<and> (\<forall>i j k. at r i (Displacing k j) \<longrightarrow> j \<noteq> i)
     \<and> (\<forall>i k. i < length (conns r) \<and> registered k (pc (conns r ! i)) \<and> \<not> dead (conns r ! i)
          \<longrightarrow> routes r k = Some i \<or> (\<exists>j k'. at r j (Displacing k' i)))"

section \<open>The slots are exact\<close>

lemma counts_go:
  assumes "at r i p"
  shows "count_conns holds_budget (go i p' r) + (if p = Finished then 0 else 1)
      = count_conns holds_budget r + (if p' = Finished then 0 else 1)"
    and "count_conns (holds_ip ip) (go i p' r) + (if peer (conns r ! i) = ip \<and> ip_pc p then 1 else 0)
      = count_conns (holds_ip ip) r + (if peer (conns r ! i) = ip \<and> ip_pc p' then 1 else 0)"
  using assms count_set_conn [of i r holds_budget "\<lambda>c. c\<lparr>pc := p'\<rparr>"]
    count_set_conn [of i r "holds_ip ip" "\<lambda>c. c\<lparr>pc := p'\<rparr>"]
  by (auto simp: at_def holds_budget_def holds_ip_def)

lemma count_cong [simp]:
  "count_conns P (r\<lparr>per_ip := t\<rparr>) = count_conns P r" "count_conns P (r\<lparr>routes := m\<rparr>) = count_conns P r"
  "count_conns P (r\<lparr>global := q\<rparr>) = count_conns P r"
  by (simp_all add: count_conns_def)

lemma at_cong [simp]:
  "at (r\<lparr>per_ip := t\<rparr>) i p = at r i p" "at (r\<lparr>routes := m\<rparr>) i p = at r i p" "at (r\<lparr>global := q\<rparr>) i p = at r i p"
  by (simp_all add: at_def)

lemma set_conn_frame [simp]:
  "routes (set_conn i f r) = routes r" "per_ip (set_conn i f r) = per_ip r" "global (set_conn i f r) = global r"
  "length (conns (set_conn i f r)) = length (conns r)"
  by (simp_all add: set_conn_def)

lemma count_dead [simp]:
  "count_conns holds_budget (set_conn i (\<lambda>c. c\<lparr>dead := b\<rparr>) r) = count_conns holds_budget r"
  "count_conns (holds_ip ip) (set_conn i (\<lambda>c. c\<lparr>dead := b\<rparr>) r) = count_conns (holds_ip ip) r"
  using count_set_conn [of i r holds_budget "\<lambda>c. c\<lparr>dead := b\<rparr>"]
    count_set_conn [of i r "holds_ip ip" "\<lambda>c. c\<lparr>dead := b\<rparr>"]
  by (cases "i < length (conns r)";
      simp add: holds_budget_def holds_ip_def set_conn_def list_update_beyond split: if_splits)+

text \<open>A step that moves a connection between points that hold the same slots.\<close>

lemma slots_inv_go:
  assumes "slots_inv sm lim r" and "at r i p" and "ip_pc p' = ip_pc p" and "p \<noteq> Finished" "p' \<noteq> Finished"
  shows "slots_inv sm lim (go i p' r)"
  using assms(1) counts_go(1) [OF assms(2), of p'] counts_go(2) [OF assms(2), of _ p'] assms(3-5)
  by (auto simp: slots_inv_def split: if_splits)

lemma slots_inv_cong:
  "global r' = global r \<Longrightarrow> per_ip r' = per_ip r \<Longrightarrow> conns r' = conns r \<Longrightarrow> slots_inv sm lim r \<Longrightarrow> slots_inv sm lim r'"
  by (simp add: slots_inv_def count_conns_def)

lemma slots_inv_admit:
  assumes "sem_laws sm" and "slots_inv sm lim r"
  shows "slots_inv sm lim (bridge_admit sm ip r)"
  using assms sem_acquire_laws(1) [OF assms(1), of 1 "global r"]
  by (auto simp: bridge_admit_def slots_inv_def count_conns_def holds_budget_def holds_ip_def
      split: acquired.splits)

lemma slots_inv_claim:
  assumes inv: "slots_inv sm lim r" and "at r i Budgeted"
  shows "slots_inv sm lim (bridge_claim lim i r)"
proof -
  let ?ip = "peer (conns r ! i)"
  obtain t ok where c: "ip_claim (per_ip r) ?ip (max_bridges_per_ip lim) = (t, ok)" by fastforce
  have ok: "ok \<longleftrightarrow> count_conns (holds_ip ?ip) r < max_bridges_per_ip lim"
    using ip_slot.claim_granted [of "per_ip r" ?ip "max_bridges_per_ip lim"] c inv
    by (simp add: slots_inv_def)
  have t: "ip_count t a = count_conns (holds_ip a) r + (if ok \<and> a = ?ip then 1 else 0)" for a
    using ip_slot.claim_holders [where k = ?ip and s = "per_ip r" and j = a and ceiling = "max_bridges_per_ip lim"] c inv
    by (simp add: slots_inv_def)
  let ?r = "r\<lparr>per_ip := t\<rparr>" and ?p = "if ok then Handshaking else Unbudgeting"
  have at: "at ?r i Budgeted" using assms(2) by simp
  have "count_conns holds_budget (go i ?p ?r) = count_conns holds_budget r"
    using counts_go(1) [OF at, of ?p] by (simp split: if_splits)
  moreover have "count_conns (holds_ip a) (go i ?p ?r) = count_conns (holds_ip a) r + (if ok \<and> a = ?ip then 1 else 0)" for a
    using counts_go(2) [OF at, of a ?p] by (auto split: if_splits)
  ultimately show ?thesis
    using inv ok t c by (auto simp: slots_inv_def bridge_claim_def split: if_splits)
qed

lemma slots_inv_release:
  assumes inv: "slots_inv sm lim r" and "at r i Leaving"
  shows "slots_inv sm lim (bridge_release i r)"
proof -
  let ?ip = "peer (conns r ! i)"
  let ?r = "r\<lparr>per_ip := ip_release (per_ip r) ?ip\<rparr>"
  have at: "at ?r i Leaving" using assms(2) by simp
  have t: "ip_count (ip_release (per_ip r) ?ip) a = count_conns (holds_ip a) r - (if a = ?ip then 1 else 0)" for a
    using ip_slot.release_holders [where k = ?ip and s = "per_ip r" and j = a] inv by (simp add: slots_inv_def)
  have "count_conns holds_budget (go i Reclaiming ?r) = count_conns holds_budget r"
    using counts_go(1) [OF at, of Reclaiming] by simp
  moreover have "count_conns (holds_ip a) (go i Reclaiming ?r) = count_conns (holds_ip a) r - (if a = ?ip then 1 else 0)" for a
    using counts_go(2) [OF at, of a Reclaiming] by (auto split: if_splits)
  ultimately show ?thesis
    using inv t by (auto simp: slots_inv_def bridge_release_def intro: le_trans [OF diff_le_self])
qed

lemma slots_inv_reclaim:
  assumes "slots_inv sm lim r" and "at r i Reclaiming"
  shows "slots_inv sm lim (bridge_reclaim i r)"
proof -
  let ?r = "r\<lparr>per_ip := ip_reclaim (per_ip r) (peer (conns r ! i))\<rparr>"
  have "slots_inv sm lim ?r"
    using assms(1) by (simp add: slots_inv_def ip_slot.reclaim_holders)
  then show ?thesis
    unfolding bridge_reclaim_def by (rule slots_inv_go [where p = Reclaiming]) (use assms(2) in simp_all)
qed

lemma slots_inv_unbudget:
  assumes "sem_laws sm" and inv: "slots_inv sm lim r" and "at r i Unbudgeting"
  shows "slots_inv sm lim (bridge_unbudget sm i r)"
proof -
  let ?r = "r\<lparr>global := sem_release sm 1 (global r)\<rparr>"
  have at: "at ?r i Unbudgeting" using assms(3) by simp
  show ?thesis
    using counts_go(1) [OF at, of Finished] counts_go(2) [OF at, of _ Finished] inv
    by (auto simp: slots_inv_def bridge_unbudget_def sem_release_laws [OF assms(1)])
qed

lemma slots_inv_step:
  assumes "sem_laws sm" and "bridge_step sm lim r r'" and inv: "slots_inv sm lim r"
  shows "slots_inv sm lim r'"
  using assms(2)
proof cases
  case (admit ip)
  then show ?thesis using slots_inv_admit [OF assms(1) inv] by simp
next
  case (claim i)
  then show ?thesis using slots_inv_claim [OF inv] by simp
next
  case (handshake i res)
  then show ?thesis
    by (auto simp: bridge_handshake_def intro!: slots_inv_go [OF inv] split: option.splits)
next
  case (register i k)
  have "slots_inv sm lim (r\<lparr>routes := (routes r)(k \<mapsto> i)\<rparr>)"
    using inv by (rule slots_inv_cong [rotated 3]) simp_all
  with register show ?thesis
    by (auto simp: bridge_register_def intro!: slots_inv_go split: option.splits)
next
  case (displace i k previous)
  have "slots_inv sm lim (set_conn previous (\<lambda>c. c\<lparr>dead := True\<rparr>) r)"
    using inv by (simp add: slots_inv_def)
  moreover have "at (set_conn previous (\<lambda>c. c\<lparr>dead := True\<rparr>) r) i (Displacing k previous)"
    using displace by (cases "i = previous") (auto simp: at_def set_conn_def)
  ultimately show ?thesis
    unfolding displace bridge_displace_def by (rule slots_inv_go) simp_all
next
  case (dies i)
  then show ?thesis using inv by (simp add: slots_inv_def)
next
  case (finished i k)
  have "slots_inv sm lim (r\<lparr>routes := (routes r)(k := None)\<rparr>)"
    using inv by (rule slots_inv_cong [rotated 3]) simp_all
  with finished inv show ?thesis
    by (auto simp: bridge_done_def intro!: slots_inv_go)
next
  case (release i)
  then show ?thesis using slots_inv_release [OF inv] by simp
next
  case (reclaim i)
  then show ?thesis using slots_inv_reclaim [OF inv] by simp
next
  case (unbudget i)
  then show ?thesis using slots_inv_unbudget [OF assms(1) inv] by simp
qed

section \<open>The routes are sound\<close>

lemma conns_go:
  "i < length (conns r) \<Longrightarrow> pc (conns (go i p r) ! j) = (if j = i then p else pc (conns r ! j))"
  "dead (conns (go i p r) ! j) = dead (conns r ! j)"
  by (cases "i = j"; cases "i < length (conns r)"; simp add: set_conn_def list_update_beyond)+

lemma conns_die:
  "pc (conns (set_conn i (\<lambda>c. c\<lparr>dead := True\<rparr>) r) ! j) = pc (conns r ! j)"
  "i < length (conns r) \<Longrightarrow> dead (conns (set_conn i (\<lambda>c. c\<lparr>dead := True\<rparr>) r) ! j) = (j = i \<or> dead (conns r ! j))"
  by (cases "i = j"; cases "i < length (conns r)"; auto simp add: set_conn_def list_update_beyond)+

lemma at_go: "i < length (conns r) \<Longrightarrow> at (go i p r) j q \<longleftrightarrow> (if j = i then q = p else at r j q)"
  by (auto simp: at_def conns_go)

lemma registered_simps [simp]:
  "registered k (Up k') \<longleftrightarrow> k = k'" "registered k (Displacing k' q) \<longleftrightarrow> k = k'"
  "\<not> registered k Budgeted" "\<not> registered k Handshaking" "\<not> registered k (Linked k')"
  "\<not> registered k Leaving" "\<not> registered k Reclaiming" "\<not> registered k Unbudgeting" "\<not> registered k Finished"
  by (auto simp: registered_def)

lemma routes_invD:
  assumes "routes_inv r"
  shows "routes r k = Some i \<Longrightarrow> i < length (conns r) \<and> registered k (pc (conns r ! i))"
    and "at r i (Displacing k j) \<Longrightarrow> j \<noteq> i"
    and "i < length (conns r) \<Longrightarrow> registered k (pc (conns r ! i)) \<Longrightarrow> \<not> dead (conns r ! i) \<Longrightarrow>
      routes r k = Some i \<or> (\<exists>j k'. at r j (Displacing k' i))"
  using assms unfolding routes_inv_def by blast+

lemma routes_invI:
  assumes "\<And>k i. routes r k = Some i \<Longrightarrow> i < length (conns r) \<and> registered k (pc (conns r ! i))"
    and "\<And>i j k. at r i (Displacing k j) \<Longrightarrow> j \<noteq> i"
    and "\<And>i k. i < length (conns r) \<Longrightarrow> registered k (pc (conns r ! i)) \<Longrightarrow> \<not> dead (conns r ! i) \<Longrightarrow>
      routes r k = Some i \<or> (\<exists>j k'. at r j (Displacing k' i))"
  shows "routes_inv r"
  using assms unfolding routes_inv_def by blast

lemma routes_inv_cong:
  "routes_inv r \<Longrightarrow> routes r' = routes r \<Longrightarrow> conns r' = conns r \<Longrightarrow> routes_inv r'"
  by (simp add: routes_inv_def at_def)

text \<open>A move between points outside the registered part.\<close>

lemma routes_inv_go:
  assumes inv: "routes_inv r" and i: "at r i p" and p: "\<And>k. \<not> registered k p" and p': "\<And>k. \<not> registered k p'"
  shows "routes_inv (go i p' r)"
proof -
  have len: "i < length (conns r)" and pc: "pc (conns r ! i) = p" using i by (simp_all add: at_def)
  note f = conns_go(1) [OF len] conns_go(2) at_go [OF len]
  show ?thesis
  proof (rule routes_invI, goal_cases)
    case (1 k j)
    then show ?case using routes_invD(1) [OF inv, of k j] p pc by (auto simp: f)
  next
    case (2 j l k)
    then show ?case using routes_invD(2) [OF inv, of j k l] p' [of k] by (auto simp: f split: if_splits)
  next
    case (3 j k)
    then have "j \<noteq> i" and "routes r k = Some j \<or> (\<exists>l k'. at r l (Displacing k' j))"
      using routes_invD(3) [OF inv, of j k] p' [of k] by (auto simp: f split: if_splits)
    moreover have "at (go i p' r) l (Displacing k' j)" if "at r l (Displacing k' j)" for l k'
      using that p [of k'] pc by (auto simp: f at_def)
    ultimately show ?case by auto
  qed
qed

lemma routes_inv_register:
  assumes inv: "routes_inv r" and i: "at r i (Linked k)"
  shows "routes_inv (bridge_register i k r)"
proof -
  let ?p = "case routes r k of Some previous \<Rightarrow> Displacing k previous | None \<Rightarrow> Up k"
  let ?r = "r\<lparr>routes := (routes r)(k \<mapsto> i)\<rparr>"
  have len: "i < length (conns ?r)" and pc: "pc (conns r ! i) = Linked k" using i by (simp_all add: at_def)
  note f = conns_go(1) [OF len] conns_go(2) at_go [OF len]
  have reg: "registered k ?p" by (simp split: option.split)
  have "routes_inv (go i ?p ?r)"
  proof (rule routes_invI, goal_cases)
    case (1 k' j)
    then show ?case using routes_invD(1) [OF inv, of k' j] reg len pc by (auto simp: f split: if_splits)
  next
    case (2 j l k')
    then show ?case
      using routes_invD(2) [OF inv, of j k' l] routes_invD(1) [OF inv, of k l] pc
      by (auto simp: f split: if_splits option.splits)
  next
    case (3 j k')
    show ?case
    proof (cases "j = i")
      case True
      with 3 have "k' = k" by (auto simp: f split: option.splits)
      with True show ?thesis by simp
    next
      case False
      with 3 have "routes r k' = Some j \<or> (\<exists>l k''. at r l (Displacing k'' j))"
        using routes_invD(3) [OF inv, of j k'] by (auto simp: f)
      moreover have "at (go i ?p ?r) l (Displacing k'' j)" if "at r l (Displacing k'' j)" for l k''
        using that pc by (auto simp: f at_def)
      moreover have "at (go i ?p ?r) i (Displacing k j)" if "routes r k = Some j"
        using that by (simp add: f)
      ultimately show ?thesis by (cases "k' = k") auto
    qed
  qed
  then show ?thesis by (simp add: bridge_register_def)
qed

lemma routes_inv_displace:
  assumes inv: "routes_inv r" and i: "at r i (Displacing k previous)" and prev: "previous < length (conns r)"
  shows "routes_inv (bridge_displace i k previous r)"
proof -
  let ?r = "set_conn previous (\<lambda>c. c\<lparr>dead := True\<rparr>) r"
  have len: "i < length (conns ?r)" and pc: "pc (conns r ! i) = Displacing k previous" using i by (simp_all add: at_def)
  have at: "at ?r j p = at r j p" for j p by (simp add: at_def conns_die)
  note f = conns_go(1) [OF len] conns_go(2) at_go [OF len] conns_die(1) conns_die(2) [OF prev] at
  show ?thesis
    unfolding bridge_displace_def
  proof (rule routes_invI, goal_cases)
    case (1 k' j)
    then show ?case using routes_invD(1) [OF inv, of k' j] pc by (auto simp: f)
  next
    case (2 j l k')
    then show ?case using routes_invD(2) [OF inv, of j k' l] by (auto simp: f split: if_splits)
  next
    case (3 j k')
    then have "j \<noteq> previous" and "routes r k' = Some j \<or> (\<exists>l k''. at r l (Displacing k'' j))"
      using routes_invD(3) [OF inv, of j k'] pc by (auto simp: f split: if_splits)
    moreover have "at (go i (Up k) ?r) l (Displacing k'' j)" if "at r l (Displacing k'' j)" for l k''
      using that pc \<open>j \<noteq> previous\<close> by (auto simp: f at_def)
    ultimately show ?case by auto
  qed
qed

lemma routes_inv_done:
  assumes inv: "routes_inv r" and i: "at r i (Up k)"
  shows "routes_inv (bridge_done i k r)"
proof -
  let ?r = "if routes r k = Some i then r\<lparr>routes := (routes r)(k := None)\<rparr> else r"
  have conns: "conns ?r = conns r" and at: "at ?r j p = at r j p" for j p by (simp_all add: at_def)
  have len: "i < length (conns ?r)" and pc: "pc (conns r ! i) = Up k" using i by (simp_all add: at_def)
  have routes: "routes ?r k' = (if routes r k' = Some i then None else routes r k')" for k'
  proof (cases "k' = k")
    case False
    then have "routes r k' \<noteq> Some i" using routes_invD(1) [OF inv, of k' i] pc by auto
    with False show ?thesis by simp
  qed simp
  note f = conns_go(1) [OF len] conns_go(2) at_go [OF len] conns at routes
  show ?thesis
    unfolding bridge_done_def
  proof (rule routes_invI, goal_cases)
    case (1 k' j)
    then show ?case using routes_invD(1) [OF inv, of k' j] by (auto simp: f split: if_splits)
  next
    case (2 j l k')
    then show ?case using routes_invD(2) [OF inv, of j k' l] by (auto simp: f split: if_splits)
  next
    case (3 j k')
    then have "j \<noteq> i" and "routes r k' = Some j \<or> (\<exists>l k''. at r l (Displacing k'' j))"
      using routes_invD(3) [OF inv, of j k'] by (auto simp: f split: if_splits)
    moreover have "at (go i Leaving ?r) l (Displacing k'' j)" if "at r l (Displacing k'' j)" for l k''
      using that pc by (auto simp: f at_def)
    moreover have "routes (go i Leaving ?r) k' = Some j" if "routes r k' = Some j"
      using that \<open>j \<noteq> i\<close> by (simp only: set_conn_frame routes) simp
    ultimately show ?case by blast
  qed
qed

lemma routes_inv_dies:
  assumes "routes_inv r" and "i < length (conns r)"
  shows "routes_inv (set_conn i (\<lambda>c. c\<lparr>dead := True\<rparr>) r)"
proof -
  have "at (set_conn i (\<lambda>c. c\<lparr>dead := True\<rparr>) r) j p = at r j p" for j p
    by (simp add: at_def conns_die)
  with assms show ?thesis
    by (auto simp: routes_inv_def conns_die)
qed

lemma routes_inv_admit:
  assumes inv: "routes_inv r"
  shows "routes_inv (bridge_admit sm ip r)"
proof (cases "sem_acquire sm 1 (global r)")
  case (Acquired q)
  let ?r = "r\<lparr>global := q, conns := conns r @ [\<lparr>peer = ip, pc = Budgeted, dead = False\<rparr>]\<rparr>"
  have at: "at ?r j p" if "at r j p" for j p
    using that by (simp add: at_def nth_append)
  have "routes_inv ?r"
  proof (rule routes_invI, goal_cases)
    case (1 k i)
    then show ?case using routes_invD(1) [OF inv, of k i] by (auto simp: nth_append)
  next
    case (2 i j k)
    then show ?case using routes_invD(2) [OF inv, of i k j] by (auto simp: at_def nth_append split: if_splits)
  next
    case (3 i k)
    then have "routes r k = Some i \<or> (\<exists>j k'. at r j (Displacing k' i))"
      using routes_invD(3) [OF inv, of i k] by (auto simp: nth_append split: if_splits)
    with at show ?case by auto
  qed
  with Acquired show ?thesis by (simp add: bridge_admit_def)
qed (use inv in \<open>simp_all add: bridge_admit_def\<close>)

text \<open>A displaced connection is one of the registry's.\<close>

definition displaced_known :: "('q, 'ip) registry \<Rightarrow> bool" where
  "displaced_known r \<longleftrightarrow> (\<forall>i k j. at r i (Displacing k j) \<longrightarrow> j < length (conns r))"

lemma displaced_known_step:
  assumes "bridge_step sm lim r r'" and "routes_inv r" and known: "displaced_known r"
  shows "displaced_known r'"
  using assms(1)
proof cases
  case (register i k)
  then show ?thesis
    using known routes_invD(1) [OF assms(2), of k]
    by (auto simp: displaced_known_def bridge_register_def at_def conns_go split: if_splits option.splits)
next
  case (displace i k previous)
  then show ?thesis
    using known by (auto simp: displaced_known_def bridge_displace_def at_def conns_go conns_die split: if_splits)
qed (use known in \<open>auto simp: displaced_known_def bridge_admit_def bridge_claim_def bridge_handshake_def bridge_done_def
      bridge_release_def bridge_reclaim_def bridge_unbudget_def at_def nth_append conns_go conns_die
      split: acquired.splits prod.splits option.splits if_splits intro: less_SucI\<close>)

lemma routes_inv_step:
  assumes "bridge_step sm lim r r'" and inv: "routes_inv r" and "displaced_known r"
  shows "routes_inv r'"
  using assms(1)
proof cases
  case (admit ip)
  then show ?thesis using routes_inv_admit [OF inv] by simp
next
  case (claim i)
  then show ?thesis
    by (auto simp: bridge_claim_def split: prod.splits
        intro!: routes_inv_go [where p = Budgeted] intro: routes_inv_cong [OF inv])
next
  case (handshake i res)
  then show ?thesis
    by (auto simp: bridge_handshake_def intro!: routes_inv_go [OF inv, where p = Handshaking] split: option.splits)
next
  case (register i k)
  then show ?thesis using routes_inv_register [OF inv] by simp
next
  case (displace i k previous)
  with assms(3) have "previous < length (conns r)" by (auto simp: displaced_known_def)
  with displace routes_inv_displace [OF inv] show ?thesis by simp
next
  case (dies i)
  then show ?thesis using routes_inv_dies [OF inv] by simp
next
  case (finished i k)
  then show ?thesis using routes_inv_done [OF inv] by simp
next
  case (release i)
  then show ?thesis
    by (auto simp: bridge_release_def intro!: routes_inv_go [where p = Leaving] intro: routes_inv_cong [OF inv])
next
  case (reclaim i)
  then show ?thesis
    by (auto simp: bridge_reclaim_def intro!: routes_inv_go [where p = Reclaiming] intro: routes_inv_cong [OF inv])
next
  case (unbudget i)
  then show ?thesis
    by (auto simp: bridge_unbudget_def intro!: routes_inv_go [where p = Unbudgeting] intro: routes_inv_cong [OF inv])
qed

lemma bridge_run_inv:
  assumes "sem_laws sm" and "bridge_run sm lim r"
  shows "slots_inv sm lim r \<and> routes_inv r \<and> displaced_known r"
  using assms(2)
proof induction
  case start
  then show ?case
    using sem_new_laws [OF assms(1)]
    by (auto simp: registry_start_def slots_inv_def routes_inv_def displaced_known_def count_conns_def at_def ip_count_def)
next
  case (step r r')
  then show ?case
    by (blast intro: slots_inv_step [OF assms(1)] routes_inv_step displaced_known_step)
qed

section \<open>Properties\<close>

text \<open>
  C13. Both admission ceilings on bridges hold at every moment, however many connections run
  concurrently: the connections being served and the free slots of the global budget add up
  to \<open>max_bridges\<close>, and the per-address table counts for every address exactly its
  connections that passed admission, at most \<open>max_bridges_per_ip\<close>. No path out of
  \<open>serve_bridge\<close> (refused, failed handshake, timeout, closed or displaced link) leaks a slot.
\<close>

theorem bridges_within_limits:
  assumes "sem_laws sm" and "bridge_run sm lim r"
  shows "permits sm (global r) + count_conns holds_budget r = max_bridges lim
    \<and> ip_count (per_ip r) ip = count_conns (holds_ip ip) r
    \<and> count_conns (holds_ip ip) r \<le> max_bridges_per_ip lim"
  using bridge_run_inv [OF assms] by (simp add: slots_inv_def)

text \<open>
  A route always leads to a connection that proved that key and is registered under it:
  whichever way registrations, deaths and removals of links with the same key interleave, no
  route points to a connection that has left, and leaving never removes the route of a later
  registration.
\<close>

theorem routes_lead_to_registered:
  assumes "sem_laws sm" and "bridge_run sm lim r" and "routes r k = Some i"
  shows "i < length (conns r) \<and> (pc (conns r ! i) = Up k \<or> (\<exists>j. pc (conns r ! i) = Displacing k j))"
  using bridge_run_inv [OF assms(1,2)] routes_invD(1) [of r k i] assms(3) by (auto simp: registered_def)

text \<open>
  No bridge is stranded. A link that is still alive after its registration either is the
  route for its key, so phones reach it, or is about to be shut down by the registration that
  displaced it: never does a live link stay open that nobody can address.
\<close>

theorem no_stranded_bridge:
  assumes "sem_laws sm" and "bridge_run sm lim r" and "i < length (conns r)"
    and "pc (conns r ! i) = Up k" and "\<not> dead (conns r ! i)"
  shows "routes r k = Some i \<or> (\<exists>j k'. j < length (conns r) \<and> pc (conns r ! j) = Displacing k' i)"
  using bridge_run_inv [OF assms(1,2)] routes_invD(3) [of r i k] assms(3-5) by (auto simp: at_def)

text \<open>Two links of one bridge, the second registered and about to shut the first down.\<close>

abbreviation (input) demo_limits :: limits where
  "demo_limits \<equiv> \<lparr>max_bridges = 2, max_bridges_per_ip = 2, max_streams_per_bridge = 4,
     handshake_timeout = 10000, max_clients_per_ip = 4\<rparr>"

definition demo_registry :: "(nat \<times> bool, nat) registry" where
  "demo_registry =
     bridge_register 1 [9] (bridge_handshake 1 (Some [9]) (bridge_claim demo_limits 1 (bridge_admit count_sem 7
       (bridge_register 0 [9] (bridge_handshake 0 (Some [9]) (bridge_claim demo_limits 0
         (bridge_admit count_sem 7 (registry_start count_sem demo_limits))))))))"

lemmas registry_defs = bridge_admit_def bridge_claim_def bridge_handshake_def bridge_register_def
  registry_start_def set_conn_def ip_claim_def count_sem_def at_def

lemma demo_registry_value:
  "demo_registry = \<lparr>conns = [\<lparr>peer = 7, pc = Up [9], dead = False\<rparr>, \<lparr>peer = 7, pc = Displacing [9] 0, dead = False\<rparr>],
     routes = [[9] \<mapsto> 1], per_ip = [7 \<mapsto> 2], global = (0, False)\<rparr>"
  by (simp add: demo_registry_def registry_defs Let_def numeral_2_eq_2)

lemma demo_registry_run: "bridge_run count_sem demo_limits demo_registry"
  unfolding demo_registry_def
  by (intro bridge_run.step [OF _ bridge_step.admit] bridge_run.step [OF _ bridge_step.claim]
      bridge_run.step [OF _ bridge_step.handshake] bridge_run.step [OF _ bridge_step.register] bridge_run.start)
    (simp_all add: registry_defs Let_def)

theorem bridges_within_limits_witness:
  "permits count_sem (global demo_registry) + count_conns holds_budget demo_registry = 2
    \<and> ip_count (per_ip demo_registry) 7 = count_conns (holds_ip 7) demo_registry
    \<and> count_conns (holds_ip 7) demo_registry \<le> 2"
  using bridges_within_limits [OF count_sem_laws demo_registry_run, of 7] by simp

theorem routes_lead_to_registered_witness:
  "routes demo_registry [9] = Some 1
    \<and> (pc (conns demo_registry ! 1) = Up [9] \<or> (\<exists>j. pc (conns demo_registry ! 1) = Displacing [9] j))"
  using routes_lead_to_registered [OF count_sem_laws demo_registry_run, of "[9]" 1]
  by (simp add: demo_registry_value)

theorem no_stranded_bridge_witness:
  "routes demo_registry [9] = Some 0
    \<or> (\<exists>j k'. j < length (conns demo_registry) \<and> pc (conns demo_registry ! j) = Displacing k' 0)"
  by (rule no_stranded_bridge [OF count_sem_laws demo_registry_run]) (simp_all add: demo_registry_value)

end
