(* ===== verification/Registry_Drain.thy ===== *)
theory Registry_Drain
  imports Registry
begin

text \<open>
  The way out of \<open>serve_bridge\<close>. Every step of a connection brings it closer to its end, and a
  connection only ever waits for its link to die: so when the links are gone, whatever the
  schedule, all slots come back and no route is left.
\<close>

text \<open>What is left to do for a connection, whatever happens to its link.\<close>

fun pc_rank :: "bridge_pc \<Rightarrow> nat" where
  "pc_rank Budgeted = 8"
| "pc_rank Handshaking = 7"
| "pc_rank (Linked k) = 6"
| "pc_rank (Displacing k j) = 5"
| "pc_rank (Up k) = 4"
| "pc_rank Leaving = 3"
| "pc_rank Reclaiming = 2"
| "pc_rank Unbudgeting = 1"
| "pc_rank Finished = 0"

definition rank :: "('q, 'ip) registry \<Rightarrow> nat" where
  "rank r = (\<Sum>c\<leftarrow>conns r. pc_rank (pc c))"

text \<open>A step of a connection on its way through \<open>serve_bridge\<close>: no arrival, no death of a link.\<close>

definition advance :: "'q sem_ops \<Rightarrow> limits \<Rightarrow> ('q, 'ip) registry \<Rightarrow> ('q, 'ip) registry \<Rightarrow> bool" where
  "advance sm lim r r' \<longleftrightarrow>
     bridge_step sm lim r r' \<and> length (conns r') = length (conns r) \<and> map pc (conns r') \<noteq> map pc (conns r)"

lemma sum_list_update_less:
  fixes f :: "'a \<Rightarrow> nat"
  shows "i < length xs \<Longrightarrow> f x < f (xs ! i) \<Longrightarrow> (\<Sum>c\<leftarrow>xs[i := x]. f c) < (\<Sum>c\<leftarrow>xs. f c)"
  by (induction xs arbitrary: i) (auto split: nat.splits)

lemma rank_go:
  assumes "at r i p" and "pc_rank p' < pc_rank p"
  shows "rank (go i p' r) < rank r"
  using assms sum_list_update_less [of i "conns r" "\<lambda>c. pc_rank (pc c)" "(conns r ! i)\<lparr>pc := p'\<rparr>"]
  by (simp add: rank_def set_conn_def at_def)

lemma set_conn_swap [simp]:
  "set_conn i f (r\<lparr>per_ip := t\<rparr>) = (set_conn i f r)\<lparr>per_ip := t\<rparr>"
  "set_conn i f (r\<lparr>routes := m\<rparr>) = (set_conn i f r)\<lparr>routes := m\<rparr>"
  "set_conn i f (r\<lparr>global := q\<rparr>) = (set_conn i f r)\<lparr>global := q\<rparr>"
  by (simp_all add: set_conn_def)

lemma rank_cong [simp]:
  "rank (r\<lparr>per_ip := t\<rparr>) = rank r" "rank (r\<lparr>routes := m\<rparr>) = rank r" "rank (r\<lparr>global := q\<rparr>) = rank r"
  by (simp_all add: rank_def)

lemma map_pc_dead [simp]: "map pc (conns (set_conn i (\<lambda>c. c\<lparr>dead := b\<rparr>) r)) = map pc (conns r)"
proof (cases "i < length (conns r)")
  case True
  then have "pc (conns r ! i) = map pc (conns r) ! i" by simp
  then show ?thesis by (simp only: set_conn_def map_update) (simp add: map_update del: nth_map)
qed (simp add: set_conn_def list_update_beyond)

lemma rank_map_pc: "rank r = sum_list (map pc_rank (map pc (conns r)))"
  by (simp add: rank_def o_def)

lemma rank_dead [simp]: "rank (set_conn i (\<lambda>c. c\<lparr>dead := b\<rparr>) r) = rank r"
  by (simp only: rank_map_pc map_pc_dead)

lemma at_dead [simp]: "at (set_conn j (\<lambda>c. c\<lparr>dead := b\<rparr>) r) i p = at r i p"
  by (cases "j = i"; cases "i < length (conns r)") (auto simp: at_def set_conn_def)

lemma rank_ops:
  "at r i Budgeted \<Longrightarrow> rank (bridge_claim lim i r) < rank r"
  "at r i Handshaking \<Longrightarrow> rank (bridge_handshake i res r) < rank r"
  "at r i (Linked k) \<Longrightarrow> rank (bridge_register i k r) < rank r"
  "at r i (Displacing k previous) \<Longrightarrow> rank (bridge_displace i k previous r) < rank r"
  "at r i (Up k) \<Longrightarrow> rank (bridge_done i k r) < rank r"
  "at r i Leaving \<Longrightarrow> rank (bridge_release i r) < rank r"
  "at r i Reclaiming \<Longrightarrow> rank (bridge_reclaim i r) < rank r"
  "at r i Unbudgeting \<Longrightarrow> rank (bridge_unbudget sm i r) < rank r"
  using rank_go [of "set_conn previous (\<lambda>c. c\<lparr>dead := True\<rparr>) r" i "Displacing k previous" "Up k"]
  by (auto simp: bridge_claim_def bridge_handshake_def bridge_register_def bridge_displace_def bridge_done_def
      bridge_release_def bridge_reclaim_def bridge_unbudget_def rank_go split: prod.splits option.splits)

lemma advance_rank: "advance sm lim r r' \<Longrightarrow> rank r' < rank r"
  unfolding advance_def
  by (elim conjE, induction rule: bridge_step.cases)
    (auto simp: rank_ops bridge_admit_def split: acquired.splits)

lemma advanceI:
  assumes "bridge_step sm lim r r'" and "rank r' < rank r" and "length (conns r') = length (conns r)"
  shows "advance sm lim r r'"
proof -
  have "map pc (conns r') \<noteq> map pc (conns r)"
    using assms(2) by (auto simp only: rank_map_pc)
  with assms show ?thesis by (simp add: advance_def)
qed

lemma length_ops [simp]:
  "length (conns (bridge_claim lim i r)) = length (conns r)"
  "length (conns (bridge_handshake i res r)) = length (conns r)"
  "length (conns (bridge_register i k r)) = length (conns r)"
  "length (conns (bridge_displace i k previous r)) = length (conns r)"
  "length (conns (bridge_done i k r)) = length (conns r)"
  "length (conns (bridge_release i r)) = length (conns r)"
  "length (conns (bridge_reclaim i r)) = length (conns r)"
  "length (conns (bridge_unbudget sm i r)) = length (conns r)"
  by (auto simp: bridge_claim_def bridge_handshake_def bridge_register_def bridge_displace_def bridge_done_def
      bridge_release_def bridge_reclaim_def bridge_unbudget_def set_conn_def split: prod.splits option.splits)

text \<open>A connection can always go on, except to wait for its link to die.\<close>

lemma dead_advances:
  assumes "i < length (conns r)" and "pc (conns r ! i) \<noteq> Finished" and "\<And>k. pc (conns r ! i) = Up k \<Longrightarrow> dead (conns r ! i)"
  shows "\<exists>r'. advance sm lim r r'"
proof -
  have "at r i (pc (conns r ! i))" using assms(1) by (simp add: at_def)
  with assms(2,3) show ?thesis
    by (cases "pc (conns r ! i)")
      (auto intro!: exI advanceI bridge_step.claim bridge_step.register bridge_step.displace bridge_step.finished
        bridge_step.release bridge_step.reclaim bridge_step.unbudget bridge_step.handshake
        simp: rank_ops [of _ i])
qed

section \<open>Properties\<close>

text \<open>
  C16. Bridges drain. Every step of a connection (anything but the arrival of a new one or the
  death of a link) strictly decreases the work left, so only finitely many can follow each
  other; and when the links that are up are dead and no connection can move, every one of them
  has finished, the whole budget is free, no route is left and every address count is zero.
\<close>

theorem bridges_drain:
  assumes "sem_laws sm" and "bridge_run sm lim r"
  shows "(\<forall>r'. advance sm lim r r' \<longrightarrow> rank r' < rank r)
    \<and> ((\<forall>c \<in> set (conns r). \<forall>k. pc c = Up k \<longrightarrow> dead c) \<and> (\<nexists>r'. advance sm lim r r') \<longrightarrow>
         (\<forall>c \<in> set (conns r). pc c = Finished) \<and> permits sm (global r) = max_bridges lim
         \<and> routes r = Map.empty \<and> (\<forall>ip. ip_count (per_ip r) ip = 0))"
proof (rule conjI, intro allI impI advance_rank, assumption, rule impI)
  assume stuck: "(\<forall>c \<in> set (conns r). \<forall>k. pc c = Up k \<longrightarrow> dead c) \<and> (\<nexists>r'. advance sm lim r r')"
  have fin: "pc (conns r ! i) = Finished" if "i < length (conns r)" for i
    using dead_advances [OF that, of sm lim] stuck that by auto
  then have all: "\<forall>c \<in> set (conns r). pc c = Finished" by (auto simp: in_set_conv_nth)
  then have none: "count_conns holds_budget r = 0" "count_conns (holds_ip ip) r = 0" for ip
    by (auto simp: count_conns_def holds_budget_def holds_ip_def filter_empty_conv)
  have "routes r k = None" for k
    using bridge_run_inv [OF assms] routes_invD(1) [of r k] fin by (cases "routes r k") (auto simp: registered_def)
  with all none bridge_run_inv [OF assms]
  show "(\<forall>c \<in> set (conns r). pc c = Finished) \<and> permits sm (global r) = max_bridges lim
      \<and> routes r = Map.empty \<and> (\<forall>ip. ip_count (per_ip r) ip = 0)"
    by (auto simp: slots_inv_def)
qed

theorem bridges_drain_witness:
  "\<exists>r'. advance count_sem demo_limits demo_registry r' \<and> rank r' < rank demo_registry"
proof -
  have "\<exists>r'. advance count_sem demo_limits demo_registry r'"
    by (rule dead_advances [of 1]) (simp_all add: demo_registry_value)
  with bridges_drain [OF count_sem_laws demo_registry_run] show ?thesis by blast
qed
end
