(* ===== verification/Tls.thy ===== *)
theory Tls
  imports Prelude
begin

text \<open>
  \<open>src/src/tls.rs\<close>: the certificate the edge serves. Files, PEM parsing, certificate generation
  and the configuration builder belong to the operating system, \<open>rustls_pemfile\<close>, \<open>rcgen\<close> and
  \<open>rustls\<close>: the record \<open>tls_ops\<close>. What the code adds is which of their answers it accepts.
\<close>

record ('cert, 'key, 'conf) tls_ops =
  fs_read :: "string \<Rightarrow> bytes result"
  pem_certs :: "bytes \<Rightarrow> 'cert result list"
  pem_private_key :: "bytes \<Rightarrow> 'key option result"
  generate_simple_self_signed :: "string list \<Rightarrow> string + 'cert \<times> bytes"
  pkcs8 :: "bytes \<Rightarrow> 'key"
  protocol_versions :: "string + unit"
  with_single_cert :: "'cert list \<Rightarrow> 'key \<Rightarrow> string + 'conf"

record ('cert, 'key) tls_identity =
  cert_chain :: "'cert list"
  identity_key :: 'key

record 'conf server_conf =
  base_conf :: 'conf
  alpn_protocols :: "string list"

definition other :: "string \<Rightarrow> io_error" where
  "other e = IoError OtherKind e"

definition self_signed :: "('cert, 'key, 'conf) tls_ops \<Rightarrow> string list \<Rightarrow> ('cert, 'key) tls_identity result" where
  "self_signed ops names =
     (case generate_simple_self_signed ops names of
        Inl e \<Rightarrow> Inl (other e)
      | Inr (cert, signing_key) \<Rightarrow> Inr \<lparr>cert_chain = [cert], identity_key = pkcs8 ops signing_key\<rparr>)"

text \<open>\<open>Iterator::collect\<close> into a \<open>Result\<close>: the first error, or all values.\<close>

fun collect :: "'a result list \<Rightarrow> 'a list result" where
  "collect [] = Inr []"
| "collect (Inl e # _) = Inl e"
| "collect (Inr x # rs) = (case collect rs of Inl e \<Rightarrow> Inl e | Inr xs \<Rightarrow> Inr (x # xs))"

definition load_pem ::
    "('cert, 'key, 'conf) tls_ops \<Rightarrow> string \<Rightarrow> string \<Rightarrow> ('cert, 'key) tls_identity result" where
  "load_pem ops cert_path key_path =
     (case fs_read ops cert_path of
        Inl e \<Rightarrow> Inl e
      | Inr cert_bytes \<Rightarrow>
          (case fs_read ops key_path of
             Inl e \<Rightarrow> Inl e
           | Inr key_bytes \<Rightarrow>
               (case collect (pem_certs ops cert_bytes) of
                  Inl e \<Rightarrow> Inl e
                | Inr chain \<Rightarrow>
                    if chain = [] then Inl (other ''certificate file holds no certificates'')
                    else (case pem_private_key ops key_bytes of
                            Inl e \<Rightarrow> Inl e
                          | Inr None \<Rightarrow> Inl (other ''key file holds no private key'')
                          | Inr (Some k) \<Rightarrow> Inr \<lparr>cert_chain = chain, identity_key = k\<rparr>))))"

definition server_config ::
    "('cert, 'key, 'conf) tls_ops \<Rightarrow> ('cert, 'key) tls_identity \<Rightarrow> 'conf server_conf result" where
  "server_config ops identity =
     (case protocol_versions ops of
        Inl e \<Rightarrow> Inl (other e)
      | Inr _ \<Rightarrow>
          (case with_single_cert ops (cert_chain identity) (identity_key identity) of
             Inl e \<Rightarrow> Inl (other e)
           | Inr conf \<Rightarrow> Inr \<lparr>base_conf = conf, alpn_protocols = [''http/1.1'']\<rparr>))"

text \<open>
  The client side, for tests and the benchmark: a root store and the builder are \<open>rustls\<close>'s, and
  both \<open>expect\<close>s panic (\<open>None\<close>).
\<close>

record ('cert, 'roots, 'conf) tls_client_ops =
  empty_roots :: 'roots
  roots_add :: "'cert \<Rightarrow> 'roots \<Rightarrow> string + 'roots"
  client_versions :: "string + unit"
  with_root_certificates :: "'roots \<Rightarrow> 'conf"

definition client_config_trusting :: "('cert, 'roots, 'conf) tls_client_ops \<Rightarrow> 'cert \<Rightarrow> 'conf option" where
  "client_config_trusting ops cert =
     (case roots_add ops cert (empty_roots ops) of
        Inl e \<Rightarrow> None
      | Inr roots \<Rightarrow>
          (case client_versions ops of
             Inl e \<Rightarrow> None
           | Inr _ \<Rightarrow> Some (with_root_certificates ops roots)))"

section \<open>Lemmas\<close>

lemma collect_map_Inr [simp]: "collect (map Inr xs) = Inr xs"
  by (induction xs) simp_all

lemma collect_Inr: "collect rs = Inr xs \<longleftrightarrow> rs = map Inr xs"
proof
  show "collect rs = Inr xs \<Longrightarrow> rs = map Inr xs"
    by (induction rs arbitrary: xs rule: collect.induct) (auto split: sum.splits)
qed simp

lemma self_signed_chain: "self_signed ops names = Inr i \<Longrightarrow> cert_chain i \<noteq> []"
  by (auto simp: self_signed_def split: sum.splits prod.splits)

lemma load_pem_chain: "load_pem ops c k = Inr i \<Longrightarrow> cert_chain i \<noteq> []"
  by (auto simp: load_pem_def split: sum.splits if_splits option.splits)

lemma server_config_Inr:
  "server_config ops i = Inr conf \<longleftrightarrow>
     protocol_versions ops = Inr () \<and> alpn_protocols conf = [''http/1.1''] \<and>
     with_single_cert ops (cert_chain i) (identity_key i) = Inr (base_conf conf)"
  by (auto simp: server_config_def split: sum.splits)

lemma client_config_trusting_Some:
  "client_config_trusting ops cert = Some conf \<longleftrightarrow>
     (\<exists>roots. roots_add ops cert (empty_roots ops) = Inr roots \<and> client_versions ops = Inr ()
        \<and> conf = with_root_certificates ops roots)"
  by (auto simp: client_config_trusting_def split: sum.splits)

section \<open>Properties\<close>

text \<open>
  \<open>load_pem\<close> accepts a pair of files exactly when both can be read, the first holds at
  least one certificate and nothing in it that fails to parse, and the second holds a private
  key; the chain is then every certificate of the file, in the file's order (leaf first is left
  to the file).
\<close>

theorem load_pem_iff:
  "load_pem ops c k = Inr i \<longleftrightarrow>
     (\<exists>cert_bytes key_bytes. fs_read ops c = Inr cert_bytes \<and> fs_read ops k = Inr key_bytes
        \<and> pem_certs ops cert_bytes = map Inr (cert_chain i) \<and> cert_chain i \<noteq> []
        \<and> pem_private_key ops key_bytes = Inr (Some (identity_key i)))"
  by (auto simp: load_pem_def collect_Inr split: sum.splits if_splits option.splits)

end
