(* ===== verification/Cli.thy ===== *)
theory Cli
  imports Handshake Admission Tls
begin

text \<open>
  \<open>src/src/main.rs\<close>: the command line, from the arguments to the call of \<open>run_edge\<close>. Strings are
  the UTF-8 bytes of the source's. Base64, the key generator, the curve, the TLS operations and
  the socket's \<open>bind\<close> are arguments.
\<close>

section \<open>Standard library\<close>

text \<open>\<open>str::parse::<usize>\<close>: an optional plus sign and decimal digits, with checked arithmetic.\<close>

definition digit_value :: "char \<Rightarrow> nat option" where
  "digit_value c = (let n = of_char c :: nat in if 48 \<le> n \<and> n \<le> 57 then Some (n - 48) else None)"

fun parse_digits :: "nat \<Rightarrow> string \<Rightarrow> nat option" where
  "parse_digits n [] = Some n"
| "parse_digits n (c # cs) =
     (case digit_value c of
        None \<Rightarrow> None
      | Some d \<Rightarrow>
          if n * 10 \<ge> 2 ^ 64 then None
          else if n * 10 + d \<ge> 2 ^ 64 then None
          else parse_digits (n * 10 + d) cs)"

definition parse_usize :: "string \<Rightarrow> nat option" where
  "parse_usize s =
     (case s of
        [] \<Rightarrow> None
      | c # cs \<Rightarrow>
          if c = CHR ''+'' then (if cs = [] then None else parse_digits 0 cs)
          else parse_digits 0 (c # cs))"

text \<open>\<open>str::trim\<close>: the UTF-8 encodings of the Unicode white space are stripped at both ends.\<close>

definition white_space :: "string list" where
  "white_space =
     map (\<lambda>n. [char_of (n :: nat)]) [0x9, 0xA, 0xB, 0xC, 0xD, 0x20]
     @ map (map char_of) ([[0xC2, 0x85], [0xC2, 0xA0], [0xE1, 0x9A, 0x80]]
         @ map (\<lambda>n. [0xE2, 0x80, n]) ([0x80..<0x8B] @ [0xA8, 0xA9, 0xAF])
         @ [[0xE2, 0x81, 0x9F], [0xE3, 0x80, 0x80 :: nat]])"

function strip :: "string list \<Rightarrow> string \<Rightarrow> string" where
  "strip ws s =
     (case find (\<lambda>w. w \<noteq> [] \<and> prefix w s) ws of
        None \<Rightarrow> s
      | Some w \<Rightarrow> strip ws (drop (length w) s))"
  by pat_completeness auto
termination
  by (relation "measure (length \<circ> snd)") (auto simp: find_Some_iff prefix_def)

declare strip.simps [simp del]

definition trim :: "string \<Rightarrow> string" where
  "trim s = rev (strip (map rev white_space) (rev (strip white_space s)))"

section \<open>Arguments\<close>

record opts =
  listen :: string
  key :: "string option"
  tls_cert :: "string option"
  tls_key :: "string option"
  use_self_signed :: bool
  lims :: limits

definition initial_opts :: opts where
  "initial_opts =
     \<lparr>listen = ''0.0.0.0:443'', key = None, tls_cert = None, tls_key = None,
      use_self_signed = False, lims = default_limits\<rparr>"

text \<open>How \<open>main\<close> ends without serving: the usage, a process exit with its message, an error.\<close>

datatype stop = Help | Exit nat string | MainErr io_error

fun next_arg :: "string list \<Rightarrow> string option \<times> string list" where
  "next_arg [] = (None, [])"
| "next_arg (a # as) = (Some a, as)"

definition positive :: "string list \<Rightarrow> string \<Rightarrow> stop + nat \<times> string list" where
  "positive args flag =
     (let usage = Inl (Exit 2 (''dsh-proxy: '' @ flag @ '' needs a positive integer''))
      in case next_arg args of
           (Some v, args') \<Rightarrow>
             (case parse_usize v of
                Some n \<Rightarrow> if n > 0 then Inr (n, args') else usage
              | None \<Rightarrow> usage)
         | (None, _) \<Rightarrow> usage)"

text \<open>A flag whose value is a limit: \<open>positive\<close>, then the assignment of the field.\<close>

definition limit_flag ::
    "string \<Rightarrow> (nat \<Rightarrow> limits \<Rightarrow> limits) \<Rightarrow> opts \<Rightarrow> string list \<Rightarrow> stop + opts \<times> string list" where
  "limit_flag flag set_field op args =
     (case positive args flag of
        Inl e \<Rightarrow> Inl e
      | Inr (n, args') \<Rightarrow> Inr (op\<lparr>lims := set_field n (lims op)\<rparr>, args'))"

definition arg_step :: "opts \<Rightarrow> string \<Rightarrow> string list \<Rightarrow> stop + opts \<times> string list" where
  "arg_step op arg args =
     (if arg = ''--listen'' then
        (case next_arg args of (v, args') \<Rightarrow>
           Inr (op\<lparr>listen := (case v of Some l \<Rightarrow> l | None \<Rightarrow> listen op)\<rparr>, args'))
      else if arg = ''--key'' then (case next_arg args of (v, args') \<Rightarrow> Inr (op\<lparr>key := v\<rparr>, args'))
      else if arg = ''--tls-cert'' then (case next_arg args of (v, args') \<Rightarrow> Inr (op\<lparr>tls_cert := v\<rparr>, args'))
      else if arg = ''--tls-key'' then (case next_arg args of (v, args') \<Rightarrow> Inr (op\<lparr>tls_key := v\<rparr>, args'))
      else if arg = ''--tls-self-signed'' then Inr (op\<lparr>use_self_signed := True\<rparr>, args)
      else if arg = ''--max-bridges'' then limit_flag arg (\<lambda>n l. l\<lparr>max_bridges := n\<rparr>) op args
      else if arg = ''--max-clients-per-ip'' then limit_flag arg (\<lambda>n l. l\<lparr>max_clients_per_ip := n\<rparr>) op args
      else if arg = ''--max-bridges-per-ip'' then limit_flag arg (\<lambda>n l. l\<lparr>max_bridges_per_ip := n\<rparr>) op args
      else if arg = ''--max-streams-per-bridge'' then limit_flag arg (\<lambda>n l. l\<lparr>max_streams_per_bridge := n\<rparr>) op args
      else if arg = ''--handshake-timeout-ms'' then limit_flag arg (\<lambda>n l. l\<lparr>handshake_timeout := n\<rparr>) op args
      else if arg = ''--help'' \<or> arg = ''-h'' then Inl Help
      else Inl (Exit 2 (''dsh-proxy: unknown argument '' @ arg)))"

lemma positive_Inr:
  "positive args flag = Inr (n, args') \<longleftrightarrow>
     (\<exists>v. args = v # args' \<and> parse_usize v = Some n \<and> 0 < n)"
  by (cases args) (auto simp: positive_def Let_def split: option.splits if_splits)

lemma positive_Cons [simp]:
  "parse_usize v = Some n \<Longrightarrow> 0 < n \<Longrightarrow> positive (v # args) flag = Inr (n, args)"
  by (simp add: positive_def)

lemma limit_flag_Inr:
  "limit_flag flag f op args = Inr (op', args') \<longleftrightarrow>
     (\<exists>v n. args = v # args' \<and> parse_usize v = Some n \<and> 0 < n \<and> op' = op\<lparr>lims := f n (lims op)\<rparr>)"
  by (auto simp: limit_flag_def positive_Inr split: sum.splits)

lemma next_arg_length: "next_arg args = (v, args') \<Longrightarrow> length args' \<le> length args"
  by (cases args) auto

lemma arg_step_length: "arg_step op arg args = Inr (op', args') \<Longrightarrow> length args' \<le> length args"
  by (auto simp: arg_step_def limit_flag_Inr dest: next_arg_length split: if_splits prod.splits)

function parse_args :: "opts \<Rightarrow> string list \<Rightarrow> stop + opts" where
  "parse_args op [] = Inr op"
| "parse_args op (arg # args) =
     (case arg_step op arg args of
        Inl e \<Rightarrow> Inl e
      | Inr (op', args') \<Rightarrow> parse_args op' args')"
  by pat_completeness auto
termination
  by (relation "measure (length \<circ> snd)") (auto dest!: arg_step_length simp: less_Suc_eq_le)

section \<open>Starting the proxy\<close>

record ('conf, 'l) serving =
  sv_listener :: 'l
  sv_private :: bytes
  sv_public :: bytes
  sv_limits :: limits
  sv_tls :: "'conf server_conf"

text \<open>The operations \<open>main\<close> calls beside TLS.\<close>

record 'l main_env =
  b64_decode :: "string \<Rightarrow> bytes option"
  gen_keypair :: "string \<Rightarrow> string + bytes \<times> bytes"
  curve :: "bytes \<Rightarrow> bytes"
  tcp_bind :: "string \<Rightarrow> 'l result"

definition main_key :: "'l main_env \<Rightarrow> opts \<Rightarrow> stop + bytes" where
  "main_key env op =
     (case key op of
        Some txt \<Rightarrow>
          (case b64_decode env (trim txt) of
             Some k \<Rightarrow> Inr k
           | None \<Rightarrow> Inl (Exit 2 ''dsh-proxy: --key is not base64''))
      | None \<Rightarrow>
          (case generate_keypair (gen_keypair env) of
             Inl e \<Rightarrow> Inl (MainErr e)
           | Inr (private, public) \<Rightarrow> Inr private))"

definition lift_err :: "'a result \<Rightarrow> stop + 'a" where
  "lift_err r = (case r of Inl e \<Rightarrow> Inl (MainErr e) | Inr x \<Rightarrow> Inr x)"

definition main_identity ::
    "('cert, 'key, 'conf) tls_ops \<Rightarrow> opts \<Rightarrow> stop + ('cert, 'key) tls_identity" where
  "main_identity ops op =
     (case (tls_cert op, tls_key op) of
        (Some c, Some k) \<Rightarrow> lift_err (load_pem ops c k)
      | (None, None) \<Rightarrow>
          if use_self_signed op then lift_err (self_signed ops [''localhost''])
          else Inl (Exit 2 ''dsh-proxy: provide --tls-cert and --tls-key, or --tls-self-signed'')
      | _ \<Rightarrow> Inl (Exit 2 ''dsh-proxy: provide --tls-cert and --tls-key, or --tls-self-signed''))"

definition main_serve ::
    "'l main_env \<Rightarrow> ('cert, 'key, 'conf) tls_ops \<Rightarrow> opts \<Rightarrow> stop + ('conf, 'l) serving" where
  "main_serve env ops op =
     (case main_key env op of
        Inl e \<Rightarrow> Inl e
      | Inr private \<Rightarrow>
          (case lift_err (public_key_of (curve env) private) of
             Inl e \<Rightarrow> Inl e
           | Inr public \<Rightarrow>
               (case main_identity ops op of
                  Inl e \<Rightarrow> Inl e
                | Inr identity \<Rightarrow>
                    (case lift_err (server_config ops identity) of
                       Inl e \<Rightarrow> Inl e
                     | Inr tls \<Rightarrow>
                         (case lift_err (tcp_bind env (listen op)) of
                            Inl e \<Rightarrow> Inl e
                          | Inr l \<Rightarrow>
                              Inr \<lparr>sv_listener = l, sv_private = private, sv_public = public,
                                   sv_limits = lims op, sv_tls = tls\<rparr>)))))"

definition main :: "'l main_env \<Rightarrow> ('cert, 'key, 'conf) tls_ops \<Rightarrow> string list \<Rightarrow> stop + ('conf, 'l) serving" where
  "main env ops args =
     (case parse_args initial_opts args of
        Inl e \<Rightarrow> Inl e
      | Inr op \<Rightarrow> main_serve env ops op)"

section \<open>Lemmas\<close>

text \<open>The value of a digit string, and the decimal numeral of a number.\<close>

definition decimal :: "nat \<Rightarrow> string \<Rightarrow> nat" where
  "decimal n cs = foldl (\<lambda>n c. n * 10 + (of_char c - 48)) n cs"

fun show_nat :: "nat \<Rightarrow> string" where
  "show_nat n = (if n < 10 then [char_of (48 + n)] else show_nat (n div 10) @ [char_of (48 + n mod 10)])"

declare show_nat.simps [simp del]

lemma decimal_Nil [simp]: "decimal n [] = n"
  and decimal_Cons [simp]: "decimal n (c # cs) = decimal (n * 10 + (of_char c - 48)) cs"
  and decimal_append [simp]: "decimal n (cs @ ds) = decimal (decimal n cs) ds"
  by (simp_all add: decimal_def)

lemma decimal_ge: "n \<le> decimal n cs"
proof (induction cs arbitrary: n)
  case (Cons c cs)
  have "n \<le> n * 10 + (of_char c - 48)" by simp
  also have "\<dots> \<le> decimal n (c # cs)" using Cons.IH by simp
  finally show ?case .
qed simp

lemma parse_digits_Some:
  "parse_digits n cs = Some m \<and> n < 2 ^ 64 \<longleftrightarrow>
     list_all (\<lambda>c. digit_value c \<noteq> None) cs \<and> m = decimal n cs \<and> m < 2 ^ 64"
proof (induction cs arbitrary: n)
  case (Cons c cs)
  show ?case
  proof (cases "digit_value c")
    case (Some d)
    then have d: "d = of_char c - 48" by (auto simp: digit_value_def Let_def split: if_splits)
    have "n * 10 + d \<le> decimal (n * 10 + d) cs" by (rule decimal_ge)
    with Some d Cons.IH [of "n * 10 + d"] show ?thesis
      by (cases "n * 10 + d < 2 ^ 64") auto
  qed simp
qed auto

lemma digit_value_char [simp]: "n < 10 \<Longrightarrow> digit_value (char_of (48 + n)) = Some n"
  by (simp add: digit_value_def)

lemma show_nat_digits: "show_nat n \<noteq> []" "list_all (\<lambda>c. digit_value c \<noteq> None) (show_nat n)"
  by (induction n rule: show_nat.induct; subst show_nat.simps; simp)+

lemma decimal_show_nat: "decimal 0 (show_nat n) = n"
  by (induction n rule: show_nat.induct) (subst show_nat.simps, simp)

lemma parse_usize_Some_less: "parse_usize s = Some n \<Longrightarrow> n < 2 ^ 64"
  using parse_digits_Some [of 0]
  by (auto simp: parse_usize_def simp del: parse_digits.simps split: list.splits if_splits)

lemma parse_usize_show_nat [simp]:
  assumes "n < 2 ^ 64"
  shows "parse_usize (show_nat n) = Some n"
proof -
  obtain c cs where s: "show_nat n = c # cs" using show_nat_digits(1) by (cases "show_nat n") auto
  have "parse_digits 0 (c # cs) = Some n"
    using parse_digits_Some [of 0 "c # cs" n] show_nat_digits(2) [of n] decimal_show_nat [of n] assms
    unfolding s by blast
  moreover have "c \<noteq> CHR ''+''"
    using show_nat_digits(2) [of n] by (auto simp: s digit_value_def)
  ultimately show ?thesis by (simp add: parse_usize_def s)
qed

text \<open>Every limit of the command line is a positive \<open>usize\<close>.\<close>

definition limits_ok :: "limits \<Rightarrow> bool" where
  "limits_ok l \<longleftrightarrow>
     (\<forall>n \<in> {max_bridges l, max_bridges_per_ip l, max_streams_per_bridge l, handshake_timeout l,
            max_clients_per_ip l}. 0 < n \<and> n < 2 ^ 64)"

lemma arg_step_limits_ok:
  "arg_step op arg args = Inr (op', args') \<Longrightarrow> limits_ok (lims op) \<Longrightarrow> limits_ok (lims op')"
  by (auto simp: arg_step_def limit_flag_Inr limits_ok_def dest: parse_usize_Some_less
      split: if_splits prod.splits)

lemma parse_args_limits_ok:
  "parse_args op args = Inr op' \<Longrightarrow> limits_ok (lims op) \<Longrightarrow> limits_ok (lims op')"
  by (induction op args rule: parse_args.induct)
    (auto split: sum.splits prod.splits dest: arg_step_limits_ok)

text \<open>The command line that asks for a configuration.\<close>

definition opt_flag :: "string \<Rightarrow> string option \<Rightarrow> string list" where
  "opt_flag flag v = (case v of None \<Rightarrow> [] | Some x \<Rightarrow> [flag, x])"

definition print_args :: "opts \<Rightarrow> string list" where
  "print_args op =
     [''--listen'', listen op] @ opt_flag ''--key'' (key op) @ opt_flag ''--tls-cert'' (tls_cert op)
     @ opt_flag ''--tls-key'' (tls_key op) @ (if use_self_signed op then [''--tls-self-signed''] else [])
     @ [''--max-bridges'', show_nat (max_bridges (lims op)),
        ''--max-clients-per-ip'', show_nat (max_clients_per_ip (lims op)),
        ''--max-bridges-per-ip'', show_nat (max_bridges_per_ip (lims op)),
        ''--max-streams-per-bridge'', show_nat (max_streams_per_bridge (lims op)),
        ''--handshake-timeout-ms'', show_nat (handshake_timeout (lims op))]"

lemma parse_args_values [simp]:
  "parse_args op (''--listen'' # v # r) = parse_args (op\<lparr>listen := v\<rparr>) r"
  "parse_args op (''--tls-self-signed'' # r) = parse_args (op\<lparr>use_self_signed := True\<rparr>) r"
  by (simp_all add: arg_step_def)

lemma parse_args_optional [simp]:
  "key op = None \<Longrightarrow> parse_args op (opt_flag ''--key'' v @ r) = parse_args (op\<lparr>key := v\<rparr>) r"
  "tls_cert op = None \<Longrightarrow> parse_args op (opt_flag ''--tls-cert'' v @ r) = parse_args (op\<lparr>tls_cert := v\<rparr>) r"
  "tls_key op = None \<Longrightarrow> parse_args op (opt_flag ''--tls-key'' v @ r) = parse_args (op\<lparr>tls_key := v\<rparr>) r"
  by (cases op, cases v, simp_all add: opt_flag_def arg_step_def)+

lemma parse_args_limits [simp]:
  assumes "parse_usize v = Some n" and "0 < n"
  shows "parse_args op (''--max-bridges'' # v # r) = parse_args (op\<lparr>lims := (lims op)\<lparr>max_bridges := n\<rparr>\<rparr>) r"
    and "parse_args op (''--max-clients-per-ip'' # v # r) = parse_args (op\<lparr>lims := (lims op)\<lparr>max_clients_per_ip := n\<rparr>\<rparr>) r"
    and "parse_args op (''--max-bridges-per-ip'' # v # r) = parse_args (op\<lparr>lims := (lims op)\<lparr>max_bridges_per_ip := n\<rparr>\<rparr>) r"
    and "parse_args op (''--max-streams-per-bridge'' # v # r) = parse_args (op\<lparr>lims := (lims op)\<lparr>max_streams_per_bridge := n\<rparr>\<rparr>) r"
    and "parse_args op (''--handshake-timeout-ms'' # v # r) = parse_args (op\<lparr>lims := (lims op)\<lparr>handshake_timeout := n\<rparr>\<rparr>) r"
  using assms by (simp_all add: arg_step_def limit_flag_def)

lemma lift_err_Inr [simp]: "lift_err r = Inr x \<longleftrightarrow> r = Inr x"
  by (auto simp: lift_err_def split: sum.splits)

lemma main_identity_Inr:
  assumes "main_identity ops op = Inr i"
  shows "cert_chain i \<noteq> []"
    and "(\<exists>c k. tls_cert op = Some c \<and> tls_key op = Some k)
      \<or> tls_cert op = None \<and> tls_key op = None \<and> use_self_signed op"
  using assms
  by (auto simp: main_identity_def split: option.splits if_splits dest: load_pem_chain self_signed_chain)

lemma main_serve_Inr:
  "main_serve env ops op = Inr sv \<longleftrightarrow>
     main_key env op = Inr (sv_private sv) \<and>
     public_key_of (curve env) (sv_private sv) = Inr (sv_public sv) \<and>
     (\<exists>i. main_identity ops op = Inr i \<and> server_config ops i = Inr (sv_tls sv)) \<and>
     tcp_bind env (listen op) = Inr (sv_listener sv) \<and> sv_limits sv = lims op"
  by (cases sv) (auto simp: main_serve_def lift_err_def split: sum.splits)

section \<open>Properties\<close>


text \<open>An environment in which everything works, and certificates and keys are numbers.\<close>

definition demo_env :: "nat main_env" where
  "demo_env = \<lparr>b64_decode = (\<lambda>_. Some (replicate 32 5)), gen_keypair = (\<lambda>_. Inr (replicate 32 1, replicate 32 2)),
     curve = map (\<lambda>b. b + 1), tcp_bind = (\<lambda>_. Inr 3)\<rparr>"

definition demo_tls :: "(nat, nat, nat) tls_ops" where
  "demo_tls = \<lparr>fs_read = (\<lambda>_. Inr []), pem_certs = (\<lambda>_. [Inr 1, Inr 2]), pem_private_key = (\<lambda>_. Inr (Some 9)),
     generate_simple_self_signed = (\<lambda>_. Inr (4, [])), pkcs8 = (\<lambda>_. 8), protocol_versions = Inr (),
     with_single_cert = (\<lambda>c k. Inr (length c))\<rparr>"


text \<open>
  C37. The command line can express every configuration: for any listen address, key,
  certificate paths, choice of self-signing and positive machine-integer limits, the flags
  written out with decimal numbers parse back to exactly that configuration.
\<close>

theorem args_round_trip:
  assumes "\<forall>n \<in> {max_bridges (lims op), max_bridges_per_ip (lims op), max_streams_per_bridge (lims op),
      handshake_timeout (lims op), max_clients_per_ip (lims op)}. 0 < n \<and> n < 2 ^ 64"
  shows "parse_args initial_opts (print_args op) = Inr op"
  using assms unfolding print_args_def
  by (cases "lims op"; cases op)
    (simp add: initial_opts_def default_limits_def del: parse_args.simps(2))

theorem args_round_trip_witness:
  "parse_args initial_opts (print_args (initial_opts\<lparr>key := Some ''secret'', lims := default_limits\<lparr>max_bridges := 5\<rparr>\<rparr>))
     = Inr (initial_opts\<lparr>key := Some ''secret'', lims := default_limits\<lparr>max_bridges := 5\<rparr>\<rparr>)"
  by (rule args_round_trip) (simp add: initial_opts_def default_limits_def wire_consts)

end
