(* ===== verification/Sock.thy ===== *)
theory Sock
  imports Prelude
begin

text \<open>
  The socket underneath a \<open>WsStream\<close>. The source is generic over it (\<open>S: AsyncRead +
  AsyncWrite\<close>), so a socket here is whatever its polls answer: a script of read answers, a
  script of write answers and a script of flush and shutdown answers, each used up one poll
  at a time. A poll past the end of a script is \<open>Pending\<close>. Every finite interaction with any
  socket is such a script, and the theorems quantify over all of them.

  \<open>taken\<close> and \<open>sent\<close> record the bytes that crossed: what the reader has been given, and what
  writes have accepted.
\<close>

datatype rd_answer = RdData bytes | RdEof | RdErr io_error | RdPending

datatype wr_answer = WrAccept nat | WrErr io_error | WrPending

record sock =
  rd :: "rd_answer list"
  wr :: "wr_answer list"
  ctl :: "unit result poll list"
  taken :: bytes
  sent :: bytes

text \<open>
  \<open>poll_read\<close> into a buffer of \<open>n\<close> bytes: at most \<open>n\<close> of them, an empty answer being the end
  of the stream; what does not fit stays for the next poll.
\<close>

definition sock_poll_read :: "nat \<Rightarrow> sock \<Rightarrow> sock \<times> bytes result poll" where
  "sock_poll_read n k =
     (case rd k of
        [] \<Rightarrow> (k, Pending)
      | RdPending # as \<Rightarrow> (k\<lparr>rd := as\<rparr>, Pending)
      | RdErr e # as \<Rightarrow> (k\<lparr>rd := as\<rparr>, Ready (Inl e))
      | RdEof # as \<Rightarrow> (k, Ready (Inr []))
      | RdData bs # as \<Rightarrow>
          (k\<lparr>rd := (if length bs \<le> n then as else RdData (drop n bs) # as),
              taken := taken k @ take n bs\<rparr>,
           Ready (Inr (take n bs))))"

text \<open>\<open>poll_write\<close>: a write accepts a prefix of the buffer it is given.\<close>

definition sock_poll_write :: "bytes \<Rightarrow> sock \<Rightarrow> sock \<times> nat result poll" where
  "sock_poll_write buf k =
     (case wr k of
        [] \<Rightarrow> (k, Pending)
      | WrPending # as \<Rightarrow> (k\<lparr>wr := as\<rparr>, Pending)
      | WrErr e # as \<Rightarrow> (k\<lparr>wr := as\<rparr>, Ready (Inl e))
      | WrAccept n # as \<Rightarrow>
          (k\<lparr>wr := as, sent := sent k @ take n buf\<rparr>, Ready (Inr (min n (length buf)))))"

text \<open>\<open>poll_flush\<close> and \<open>poll_shutdown\<close> of the socket: the next scripted answer.\<close>

definition sock_poll_ctl :: "sock \<Rightarrow> sock \<times> unit result poll" where
  "sock_poll_ctl k = (case ctl k of [] \<Rightarrow> (k, Pending) | a # as \<Rightarrow> (k\<lparr>ctl := as\<rparr>, a))"

text \<open>What a read script can still deliver, as a measure for loops over reads.\<close>

fun rd_answer_size :: "rd_answer \<Rightarrow> nat" where
  "rd_answer_size (RdData bs) = Suc (length bs)"
| "rd_answer_size _ = 1"

definition rd_size :: "sock \<Rightarrow> nat" where
  "rd_size k = (\<Sum>a\<leftarrow>rd k. rd_answer_size a)"

lemma sock_poll_read_frame:
  "sock_poll_read n k = (k', a) \<Longrightarrow> wr k' = wr k \<and> ctl k' = ctl k \<and> sent k' = sent k"
  by (auto simp: sock_poll_read_def split: list.splits rd_answer.splits)

lemma sock_poll_read_Ready:
  "sock_poll_read n k = (k', Ready (Inr bs)) \<Longrightarrow> taken k' = taken k @ bs \<and> length bs \<le> n"
  by (auto simp: sock_poll_read_def split: list.splits rd_answer.splits)

lemma sock_poll_read_not_Ready:
  "sock_poll_read n k = (k', Ready (Inl e)) \<Longrightarrow> taken k' = taken k"
  "sock_poll_read n k = (k', Pending) \<Longrightarrow> taken k' = taken k"
  by (auto simp: sock_poll_read_def split: list.splits rd_answer.splits)

lemma sock_poll_read_size:
  "sock_poll_read n k = (k', Ready (Inr bs)) \<Longrightarrow> bs \<noteq> [] \<Longrightarrow> rd_size k' < rd_size k"
  by (auto simp: sock_poll_read_def rd_size_def split: list.splits rd_answer.splits)

lemma sock_poll_write_frame:
  "sock_poll_write buf k = (k', a) \<Longrightarrow> rd k' = rd k \<and> ctl k' = ctl k \<and> taken k' = taken k"
  by (auto simp: sock_poll_write_def split: list.splits wr_answer.splits)

lemma sock_poll_write_Ready:
  "sock_poll_write buf k = (k', Ready (Inr n)) \<Longrightarrow> n \<le> length buf \<and> sent k' = sent k @ take n buf"
  by (auto simp: sock_poll_write_def min_def split: list.splits wr_answer.splits)

lemma sock_poll_write_not_Ready:
  "sock_poll_write buf k = (k', Ready (Inl e)) \<Longrightarrow> sent k' = sent k"
  "sock_poll_write buf k = (k', Pending) \<Longrightarrow> sent k' = sent k"
  by (auto simp: sock_poll_write_def split: list.splits wr_answer.splits)

lemma sock_poll_write_script:
  "sock_poll_write buf k = (k', Ready a) \<Longrightarrow> length (wr k') < length (wr k)"
  by (auto simp: sock_poll_write_def split: list.splits wr_answer.splits)

lemma sock_poll_ctl_frame:
  "sock_poll_ctl k = (k', a) \<Longrightarrow> rd k' = rd k \<and> wr k' = wr k \<and> taken k' = taken k \<and> sent k' = sent k"
  by (auto simp: sock_poll_ctl_def split: list.splits)

end
