(* ===== verification/Ws.thy ===== *)
theory Ws
  imports Sock Framing
begin

text \<open>
  \<open>src/src/ws.rs\<close>: a WebSocket server cut down to a byte pipe. The state is \<open>WsStream\<close>, the
  operations are \<open>frame\<close>, \<open>decode\<close>, \<open>drain\<close> and the four polls of \<open>AsyncRead\<close> and
  \<open>AsyncWrite\<close>. \<open>decode\<close> is written in the two halves it has in the source: \<open>ws_parse\<close> takes a
  complete frame off the buffer and unmasks it, \<open>ws_dispatch\<close> acts on its opcode.
\<close>

section \<open>Constants\<close>

definition GUID :: string where
  "GUID = ''258EAFA5-E914-47DA-95CA-C5AB0DC85B11''"

definition MAX_FRAME :: nat where
  [wire_consts]: "MAX_FRAME = 1024 * 1024"

definition MAX_CONTROL :: nat where
  [wire_consts]: "MAX_CONTROL = 125"

definition MAX_PONG_BACKLOG :: nat where
  [wire_consts]: "MAX_PONG_BACKLOG = 8 * 1024"

definition MAX_SEND :: nat where
  [wire_consts]: "MAX_SEND = 64 * 1024"

definition OP_CONTINUATION :: u8 where
  "OP_CONTINUATION = 0x0"

definition OP_TEXT :: u8 where
  "OP_TEXT = 0x1"

definition OP_BINARY :: u8 where
  "OP_BINARY = 0x2"

definition OP_CLOSE :: u8 where
  "OP_CLOSE = 0x8"

definition OP_PING :: u8 where
  "OP_PING = 0x9"

definition OP_PONG :: u8 where
  "OP_PONG = 0xa"

lemmas op_defs = OP_CONTINUATION_def OP_TEXT_def OP_BINARY_def OP_CLOSE_def OP_PING_def OP_PONG_def

definition ws_bad :: "string \<Rightarrow> io_error" where
  "ws_bad msg = IoError InvalidData msg"

text \<open>
  \<open>accept_key\<close>: SHA-1 (\<open>ring\<close>) and Base64 (\<open>base64\<close>) are arguments.
\<close>

definition accept_key :: "(string \<Rightarrow> bytes) \<Rightarrow> (bytes \<Rightarrow> string) \<Rightarrow> string \<Rightarrow> string" where
  "accept_key sha1 b64 client_key = b64 (sha1 (client_key @ GUID))"

section \<open>The stream\<close>

record ws_stream =
  inner :: sock
  incoming :: bytes
  plain :: bytes
  outgoing :: bytes
  closed :: bool

definition ws_new :: "sock \<Rightarrow> ws_stream" where
  "ws_new k = \<lparr>inner = k, incoming = [], plain = [], outgoing = [], closed = False\<rparr>"

text \<open>\<open>frame\<close>: the bytes one server frame stages. Server frames are never masked.\<close>

definition server_frame :: "u8 \<Rightarrow> bytes \<Rightarrow> bytes" where
  "server_frame opcode payload =
     (0x80 OR opcode) #
     (if length payload < 126 then [of_nat (length payload)]
      else if length payload \<le> 65535 then 126 # to_be 2 (unat (of_nat (length payload) :: u16))
      else 127 # to_be 8 (unat (of_nat (length payload) :: u64)))
     @ payload"

definition ws_frame :: "u8 \<Rightarrow> bytes \<Rightarrow> ws_stream \<Rightarrow> ws_stream" where
  "ws_frame opcode payload s = s\<lparr>outgoing := outgoing s @ server_frame opcode payload\<rparr>"

text \<open>The payload length and the offset behind it; \<open>None\<close> while the header is incomplete.\<close>

definition ws_length :: "nat \<Rightarrow> bytes \<Rightarrow> (nat \<times> nat) option" where
  "ws_length short buf =
     (if short = 126 then (if length buf < 4 then None else Some (from_be [buf ! 2, buf ! 3], 4))
      else if short = 127 then
        (if length buf < 10 then None else Some (from_be (take 8 (drop 2 buf)), 10))
      else Some (short, 2))"

definition apply_mask :: "bytes \<Rightarrow> bytes \<Rightarrow> bytes" where
  "apply_mask mk payload = map (\<lambda>(index, b). b XOR mk ! (index mod 4)) (enumerate 0 payload)"

text \<open>
  A control frame must be final and carry at most 125 bytes; this is checked on the first two
  bytes, before the length is read.
\<close>

definition control_violation :: "u8 \<Rightarrow> u8 \<Rightarrow> bool" where
  "control_violation first second \<longleftrightarrow>
     (let fin = (first AND 0x80 \<noteq> 0);
          opcode = first AND 0x0f;
          control = (opcode AND 0x08 \<noteq> 0)
      in control \<and> (\<not> fin \<or> unat (second AND 0x7f) > MAX_CONTROL))"

text \<open>
  The first half of \<open>decode\<close>: \<open>Inr None\<close> is \<open>Ok(false)\<close>; a complete frame is its opcode, its
  unmasked payload and the buffer behind it.
\<close>

definition ws_parse :: "bytes \<Rightarrow> io_error + (u8 \<times> bytes \<times> bytes) option" where
  "ws_parse buf =
     (if length buf < 2 then Inr None
      else if control_violation (buf ! 0) (buf ! 1)
      then Inl (ws_bad ''oversized or fragmented control frame'')
      else (case ws_length (unat (buf ! 1 AND 0x7f)) buf of
              None \<Rightarrow> Inr None
            | Some (len, offset) \<Rightarrow>
                if len > MAX_FRAME then Inl (ws_bad ''websocket frame is too large'')
                else if buf ! 1 AND 0x80 = 0 then Inl (ws_bad ''client frame is not masked'')
                else if length buf < offset + 4 then Inr None
                else let mk = take 4 (drop offset buf); offset' = offset + 4
                     in if length buf < offset' + len then Inr None
                        else Inr (Some (buf ! 0 AND 0x0f,
                               apply_mask mk (take len (drop offset' buf)),
                               drop len (drop offset' buf)))))"

text \<open>The second half of \<open>decode\<close>: act on a frame already taken off the buffer.\<close>

definition ws_dispatch :: "u8 \<Rightarrow> bytes \<Rightarrow> ws_stream \<Rightarrow> ws_stream \<times> bool result" where
  "ws_dispatch opcode payload s =
     (if opcode = OP_CONTINUATION \<or> opcode = OP_TEXT \<or> opcode = OP_BINARY
      then (s\<lparr>plain := plain s @ payload\<rparr>, Inr True)
      else if opcode = OP_CLOSE then (s\<lparr>closed := True\<rparr>, Inr True)
      else if opcode = OP_PING
      then (if length (outgoing s) \<le> MAX_PONG_BACKLOG then ws_frame OP_PONG payload s else s, Inr True)
      else if opcode = OP_PONG then (s, Inr True)
      else (s, Inl (ws_bad ''unknown websocket opcode'')))"

definition ws_decode :: "ws_stream \<Rightarrow> ws_stream \<times> bool result" where
  "ws_decode s =
     (case ws_parse (incoming s) of
        Inl e \<Rightarrow> (s, Inl e)
      | Inr None \<Rightarrow> (s, Inr False)
      | Inr (Some (opcode, payload, rest)) \<Rightarrow> ws_dispatch opcode payload (s\<lparr>incoming := rest\<rparr>))"

text \<open>\<open>drain\<close>: push staged bytes at the socket until it would block.\<close>

function drain :: "ws_stream \<Rightarrow> ws_stream \<times> unit result poll" where
  "drain s =
     (if outgoing s = [] then (s, Ready (Inr ()))
      else (case sock_poll_write (outgoing s) (inner s) of
              (k, Ready (Inr n)) \<Rightarrow>
                if n = 0 then (s\<lparr>inner := k\<rparr>, Ready (Inl (ws_bad ''websocket closed'')))
                else drain (s\<lparr>inner := k, outgoing := drop n (outgoing s)\<rparr>)
            | (k, Ready (Inl e)) \<Rightarrow> (s\<lparr>inner := k\<rparr>, Ready (Inl e))
            | (k, Pending) \<Rightarrow> (s\<lparr>inner := k\<rparr>, Pending)))"
  by pat_completeness auto
termination
  by (relation "measure (\<lambda>s. length (outgoing s))")
     (auto dest!: sock_poll_write_Ready [OF sym])

declare drain.simps [simp del]

subsection \<open>What \<open>drain\<close> and \<open>decode\<close> leave alone\<close>

text \<open>
  Draining moves bytes from \<open>outgoing\<close> to the socket and changes nothing else; what has been
  sent followed by what is staged stays the same byte sequence.
\<close>

lemma drain_frame:
  "drain s = (s', a) \<Longrightarrow>
     incoming s' = incoming s \<and> plain s' = plain s \<and> closed s' = closed s
     \<and> rd (inner s') = rd (inner s) \<and> taken (inner s') = taken (inner s)
     \<and> sent (inner s') @ outgoing s' = sent (inner s) @ outgoing s
     \<and> length (outgoing s') \<le> length (outgoing s)
     \<and> (a = Ready (Inr ()) \<longrightarrow> outgoing s' = [])"
proof (induction s rule: drain.induct)
  case (1 s)
  obtain k w where w: "sock_poll_write (outgoing s) (inner s) = (k, w)"
    by (cases "sock_poll_write (outgoing s) (inner s)")
  note frame = sock_poll_write_frame [OF w]
  show ?case
  proof (cases "outgoing s = [] \<or> (\<nexists>n. w = Ready (Inr n) \<and> n \<noteq> 0)")
    case True
    with 1 w frame show ?thesis
      by (subst (asm) drain.simps)
        (auto split: if_splits poll.splits sum.splits
          dest: sock_poll_write_Ready sock_poll_write_not_Ready)
  next
    case False
    then obtain n where n: "w = Ready (Inr n)" "n \<noteq> 0" and out: "outgoing s \<noteq> []"
      by blast
    from 1(2) w n out have "drain (s\<lparr>inner := k, outgoing := drop n (outgoing s)\<rparr>) = (s', a)"
      by (subst (asm) drain.simps) simp
    from 1(1) [OF out w [symmetric] n(1) refl n(2) this] n frame w show ?thesis
      by (auto dest: sock_poll_write_Ready)
  qed
qed

lemma apply_mask_length [simp]: "length (apply_mask mk p) = length p"
  by (simp add: apply_mask_def)

lemma ws_length_offset: "ws_length short buf = Some (len, off) \<Longrightarrow> 2 \<le> off"
  by (auto simp: ws_length_def split: if_splits)

lemma ws_length_append:
  "2 \<le> length buf \<Longrightarrow> ws_length short buf = Some lo \<Longrightarrow> ws_length short (buf @ x) = Some lo"
  by (auto simp: ws_length_def nth_append split: if_splits)

lemma ws_parse_Some:
  "ws_parse buf = Inr (Some (op, p, r)) \<longleftrightarrow>
     2 \<le> length buf \<and> \<not> control_violation (buf ! 0) (buf ! 1) \<and> buf ! 1 AND 0x80 \<noteq> 0
     \<and> op = buf ! 0 AND 0x0f
     \<and> (\<exists>len off. ws_length (unat (buf ! 1 AND 0x7f)) buf = Some (len, off) \<and> len \<le> MAX_FRAME
          \<and> off + 4 + len \<le> length buf
          \<and> p = apply_mask (take 4 (drop off buf)) (take len (drop (off + 4) buf))
          \<and> r = drop (off + 4 + len) buf)"
  by (auto simp: ws_parse_def Let_def add.commute add.left_commute split: option.splits)

lemma ws_parse_shrinks: "ws_parse buf = Inr (Some (op, p, r)) \<Longrightarrow> length r < length buf"
  by (auto simp: ws_parse_Some dest: ws_length_offset)

lemma ws_parse_more:
  assumes "ws_parse buf = Inr (Some (op, p, r))"
  shows "ws_parse (buf @ x) = Inr (Some (op, p, r @ x))"
proof -
  from assms obtain len off where
    "ws_length (unat (buf ! 1 AND 0x7f)) buf = Some (len, off)" and two: "2 \<le> length buf"
    and "len \<le> MAX_FRAME" "off + 4 + len \<le> length buf"
    and "p = apply_mask (take 4 (drop off buf)) (take len (drop (off + 4) buf))"
    and "r = drop (off + 4 + len) buf"
    by (auto simp: ws_parse_Some)
  moreover from this have "ws_length (unat (buf ! 1 AND 0x7f)) (buf @ x) = Some (len, off)"
    by (simp add: ws_length_append)
  ultimately show ?thesis
    using assms by (simp add: ws_parse_Some)
qed

lemma ws_parse_fails:
  assumes "ws_parse buf = Inl e"
  shows "ws_parse (buf @ x) = Inl e"
proof -
  have len: "2 \<le> length buf"
    using assms by (auto simp: ws_parse_def split: if_splits)
  then show ?thesis
    using assms
    by (auto simp: ws_parse_def Let_def split: if_splits option.splits
        dest: ws_length_append [OF len, where x = x])
qed

lemma ws_dispatch_frame:
  "ws_dispatch op p s = (s', a) \<Longrightarrow> inner s' = inner s \<and> incoming s' = incoming s"
  by (auto simp: ws_dispatch_def ws_frame_def split: if_splits)

lemma ws_decode_inner: "ws_decode s = (s', a) \<Longrightarrow> inner s' = inner s"
  by (auto simp: ws_decode_def split: sum.splits option.splits dest: ws_dispatch_frame)

lemma ws_decode_shrinks: "ws_decode s = (s', Inr True) \<Longrightarrow> length (incoming s') < length (incoming s)"
  by (auto simp: ws_decode_def split: sum.splits option.splits
      dest!: ws_dispatch_frame ws_parse_shrinks)

lemma ws_decode_False: "ws_decode s = (s', Inr False) \<longleftrightarrow> s' = s \<and> ws_parse (incoming s) = Inr None"
  by (auto simp: ws_decode_def ws_dispatch_def split: sum.splits option.splits)

section \<open>The polls\<close>

text \<open>
  \<open>poll_read\<close> into a buffer with \<open>n\<close> bytes of room; the answer carries the bytes put there. Each
  turn of the loop ends the call, takes a frame off \<open>incoming\<close>, or reads from the socket.
\<close>

function poll_read :: "nat \<Rightarrow> ws_stream \<Rightarrow> ws_stream \<times> bytes result poll" where
  "poll_read n s =
     (if plain s \<noteq> []
      then let k = min (length (plain s)) n
           in (s\<lparr>plain := drop k (plain s)\<rparr>, Ready (Inr (take k (plain s))))
      else (case ws_decode s of
              (s1, Inl e) \<Rightarrow> (s1, Ready (Inl e))
            | (s1, Inr got) \<Rightarrow>
                if got then poll_read n (fst (drain s1))
                else if closed s1 then (s1, Ready (Inr []))
                else (case sock_poll_read (16 * 1024) (inner s1) of
                        (k, Ready (Inr bs)) \<Rightarrow>
                          if bs = [] then (s1\<lparr>inner := k\<rparr>, Ready (Inr []))
                          else poll_read n (s1\<lparr>inner := k, incoming := incoming s1 @ bs\<rparr>)
                      | (k, Ready (Inl e)) \<Rightarrow> (s1\<lparr>inner := k\<rparr>, Ready (Inl e))
                      | (k, Pending) \<Rightarrow> (s1\<lparr>inner := k\<rparr>, Pending))))"
  by pat_completeness auto
termination
proof (relation "(\<lambda>(n, s). rd_size (inner s)) <*mlex*> measure (\<lambda>(n, s). length (incoming s))",
    goal_cases)
  case 1
  then show ?case by (simp add: wf_mlex)
next
  case (2 n s s1 r)
  then have dec: "ws_decode s = (s1, Inr True)" by (metis (full_types))
  obtain s2 a where "drain s1 = (s2, a)" by (cases "drain s1")
  with drain_frame [OF this] ws_decode_shrinks [OF dec] ws_decode_inner [OF dec] show ?case
    by (auto intro: mlex_leq simp: rd_size_def)
next
  case (3 n s s1 r b k v w bs)
  then have "inner s1 = inner s" and "sock_poll_read (16 * 1024) (inner s1) = (k, Ready (Inr bs))"
    and "bs \<noteq> []"
    by (auto dest: ws_decode_inner [OF sym])
  then have "rd_size k < rd_size (inner s)"
    by (metis sock_poll_read_size)
  then show ?case
    by (simp add: mlex_less)
qed

declare poll_read.simps [simp del]

definition poll_write :: "bytes \<Rightarrow> ws_stream \<Rightarrow> ws_stream \<times> nat result poll" where
  "poll_write data s =
     (case drain s of
        (s1, Ready (Inl e)) \<Rightarrow> (s1, Ready (Inl e))
      | (s1, Pending) \<Rightarrow> (s1, Pending)
      | (s1, Ready (Inr _)) \<Rightarrow>
          (let k = min (length data) MAX_SEND
           in case drain (ws_frame OP_BINARY (take k data) s1) of
                (s2, Ready (Inl e)) \<Rightarrow> (s2, Ready (Inl e))
              | (s2, _) \<Rightarrow> (s2, Ready (Inr k))))"

definition poll_flush :: "ws_stream \<Rightarrow> ws_stream \<times> unit result poll" where
  "poll_flush s =
     (case drain s of
        (s1, Ready (Inr _)) \<Rightarrow>
          (case sock_poll_ctl (inner s1) of (k, a) \<Rightarrow> (s1\<lparr>inner := k\<rparr>, a))
      | (s1, other) \<Rightarrow> (s1, other))"

definition poll_shutdown :: "ws_stream \<Rightarrow> ws_stream \<times> unit result poll" where
  "poll_shutdown s =
     (let s0 = (if closed s then s else (ws_frame OP_CLOSE [] s)\<lparr>closed := True\<rparr>)
      in case drain s0 of
           (s1, Ready (Inr _)) \<Rightarrow>
             (case sock_poll_ctl (inner s1) of (k, a) \<Rightarrow> (s1\<lparr>inner := k\<rparr>, a))
         | (s1, other) \<Rightarrow> (s1, other))"

end
