(* ===== verification/Ws_Read.thy ===== *)
theory Ws_Read
  imports Ws
begin

text \<open>
  The reading direction of the WebSocket: \<open>poll_read\<close> refines the stream of payload bytes
  that the client's frames carry. The abstract side is \<open>payload_stream raw\<close>, which decodes the
  raw bytes in one piece; the concrete side is any sequence of polls, over a socket that cuts
  the raw bytes anywhere, into buffers of any size.
\<close>

section \<open>The parser as an incremental decoder\<close>

definition known_opcode :: "u8 \<Rightarrow> bool" where
  "known_opcode op \<longleftrightarrow>
     op \<in> {OP_CONTINUATION, OP_TEXT, OP_BINARY, OP_CLOSE, OP_PING, OP_PONG}"

definition data_opcode :: "u8 \<Rightarrow> bool" where
  "data_opcode op \<longleftrightarrow> op \<in> {OP_CONTINUATION, OP_TEXT, OP_BINARY}"

text \<open>
  One call of \<open>decode\<close> seen from the buffer: the frame it takes off, or its error. The state
  counts the frames.
\<close>

definition ws_item :: "(nat, u8 \<times> bytes) decoder" where
  "ws_item i buf =
     (case ws_parse buf of
        Inl e \<Rightarrow> Inl e
      | Inr None \<Rightarrow> Inr None
      | Inr (Some (op, p, r)) \<Rightarrow>
          if known_opcode op then Inr (Some ((op, p), Suc i, r))
          else Inl (ws_bad ''unknown websocket opcode''))"

lemma ws_item_Some:
  "ws_item i buf = Inr (Some ((op, p), j, r)) \<longleftrightarrow>
     ws_parse buf = Inr (Some (op, p, r)) \<and> known_opcode op \<and> j = Suc i"
  by (auto simp: ws_item_def split: sum.splits option.splits if_splits)

lemma ws_item_None: "ws_item i buf = Inr None \<longleftrightarrow> ws_parse buf = Inr None"
  by (auto simp: ws_item_def split: sum.splits option.splits)

interpretation ws_items: incr_decoder ws_item
proof unfold_locales
  fix i b m j r
  assume "ws_item i b = Inr (Some (m, j, r))"
  then show "length r < length b"
    by (cases m) (auto simp: ws_item_Some dest: ws_parse_shrinks)
next
  fix i b m j r x
  assume "ws_item i b = Inr (Some (m, j, r))"
  then show "ws_item i (b @ x) = Inr (Some (m, j, r @ x))"
    by (cases m) (auto simp: ws_item_Some dest: ws_parse_more)
next
  fix i b e x
  assume "ws_item i b = Inl e"
  then show "ws_item i (b @ x) = Inl e"
    by (auto simp: ws_item_def ws_parse_fails ws_parse_more
        split: sum.split_asm option.split_asm if_split_asm)
qed

text \<open>\<open>decode\<close>, restated over the items.\<close>

lemma ws_decode_True:
  assumes "ws_decode s = (s', Inr True)"
  obtains op p where "ws_item i (incoming s) = Inr (Some ((op, p), Suc i, incoming s'))"
    and "plain s' = plain s @ (if data_opcode op then p else [])"
    and "closed s' \<longleftrightarrow> closed s \<or> op = OP_CLOSE"
    and "inner s' = inner s"
    and "outgoing s' = outgoing s @
           (if op = OP_PING \<and> length (outgoing s) \<le> MAX_PONG_BACKLOG then server_frame OP_PONG p else [])"
proof -
  from assms obtain op p r where "ws_parse (incoming s) = Inr (Some (op, p, r))"
    and "ws_dispatch op p (s\<lparr>incoming := r\<rparr>) = (s', Inr True)"
    by (auto simp: ws_decode_def split: sum.splits option.splits)
  then show ?thesis
    by (intro that [of op p])
      (auto simp: ws_item_Some ws_dispatch_def ws_frame_def known_opcode_def data_opcode_def op_defs
        split: if_splits)
qed

section \<open>Induction over a read\<close>

text \<open>
  Everything proved about \<open>poll_read\<close> goes by the cases of its loop: it gives bytes away, fails
  on a bad frame, ends after a close frame, stops at the socket, or goes round after a frame
  or after a successful read.
\<close>

lemma poll_read_cases [consumes 1, case_names give bad_frame ended stop frame more]:
  assumes run: "poll_read n s = (s', a)"
  obtains "plain s \<noteq> []" "s' = s\<lparr>plain := drop (min (length (plain s)) n) (plain s)\<rparr>"
      "a = Ready (Inr (take (min (length (plain s)) n) (plain s)))"
  | e where "plain s = []" "ws_decode s = (s', Inl e)" "a = Ready (Inl e)"
  | "plain s = []" "ws_parse (incoming s) = Inr None" "closed s" "s' = s" "a = Ready (Inr [])"
  | k where "plain s = []" "ws_parse (incoming s) = Inr None" "\<not> closed s"
      "sock_poll_read (16 * 1024) (inner s) = (k, a)" "\<nexists>bs. a = Ready (Inr bs) \<and> bs \<noteq> []" "s' = s\<lparr>inner := k\<rparr>"
  | s1 s2 r where "plain s = []" "ws_decode s = (s1, Inr True)" "drain s1 = (s2, r)" "poll_read n s2 = (s', a)"
  | k bs where "plain s = []" "ws_parse (incoming s) = Inr None" "\<not> closed s"
      "sock_poll_read (16 * 1024) (inner s) = (k, Ready (Inr bs))" "bs \<noteq> []"
      "poll_read n (s\<lparr>inner := k, incoming := incoming s @ bs\<rparr>) = (s', a)"
proof -
  obtain s1 r where dec: "ws_decode s = (s1, r)" by (cases "ws_decode s")
  obtain s2 w where dr: "drain s1 = (s2, w)" by (cases "drain s1")
  obtain k c where rd: "sock_poll_read (16 * 1024) (inner s1) = (k, c)"
    by (cases "sock_poll_read (16 * 1024) (inner s1)")
  note run = run [unfolded poll_read.simps [of n s]]
  consider "plain s \<noteq> []" | e where "plain s = []" "r = Inl e" | "plain s = []" "r = Inr True"
    | "plain s = []" "r = Inr False"
    by (cases r) auto
  then show thesis
  proof cases
    case 1
    with run that(1) show thesis by (simp add: Let_def)
  next
    case (2 e)
    with run dec that(2) show thesis by simp
  next
    case 3
    with run dec dr that(5) show thesis by simp
  next
    case 4
    then have none: "s1 = s" "ws_parse (incoming s) = Inr None"
      using dec by (simp_all add: ws_decode_False)
    note run = run [simplified 4 dec none(1), simplified]
    consider "closed s" | bs where "\<not> closed s" "c = Ready (Inr bs)" "bs \<noteq> []"
      | "\<not> closed s" "\<nexists>bs. c = Ready (Inr bs) \<and> bs \<noteq> []"
      by blast
    then show thesis
    proof cases
      case 1
      then have "s' = s" "a = Ready (Inr [])" using run by auto
      then show thesis by (rule that(3) [OF 4(1) none(2) 1])
    next
      case (2 bs)
      then have "poll_read n (s\<lparr>inner := k, incoming := incoming s @ bs\<rparr>) = (s', a)" using run rd none(1) by simp
      with 2 4(1) none rd show thesis by (intro that(6) [of k bs]) simp_all
    next
      case 3
      then have "s' = s\<lparr>inner := k\<rparr>" "a = c"
        using run rd none(1) by (auto split: poll.splits sum.splits if_splits)
      with 3 4(1) none rd show thesis by (intro that(4) [of k]) simp_all
    qed
  qed
qed

lemma poll_read_induct [consumes 1, case_names give bad_frame ended stop frame more]:
  assumes run: "poll_read n s = (s', a)"
    and give: "\<And>s k. plain s \<noteq> [] \<Longrightarrow> k = min (length (plain s)) n \<Longrightarrow>
      Q s (s\<lparr>plain := drop k (plain s)\<rparr>) (Ready (Inr (take k (plain s))))"
    and bad_frame: "\<And>s s1 e. plain s = [] \<Longrightarrow> ws_decode s = (s1, Inl e) \<Longrightarrow> Q s s1 (Ready (Inl e))"
    and ended: "\<And>s. plain s = [] \<Longrightarrow> ws_parse (incoming s) = Inr None \<Longrightarrow> closed s \<Longrightarrow>
      Q s s (Ready (Inr []))"
    and stop: "\<And>s k a. plain s = [] \<Longrightarrow> ws_parse (incoming s) = Inr None \<Longrightarrow> \<not> closed s \<Longrightarrow>
      sock_poll_read (16 * 1024) (inner s) = (k, a) \<Longrightarrow> (\<nexists>bs. a = Ready (Inr bs) \<and> bs \<noteq> []) \<Longrightarrow>
      Q s (s\<lparr>inner := k\<rparr>) a"
    and frame: "\<And>s s1 s2 r s' a. plain s = [] \<Longrightarrow> ws_decode s = (s1, Inr True) \<Longrightarrow>
      drain s1 = (s2, r) \<Longrightarrow> poll_read n s2 = (s', a) \<Longrightarrow> Q s2 s' a \<Longrightarrow> Q s s' a"
    and more: "\<And>s k bs s' a. plain s = [] \<Longrightarrow> ws_parse (incoming s) = Inr None \<Longrightarrow> \<not> closed s \<Longrightarrow>
      sock_poll_read (16 * 1024) (inner s) = (k, Ready (Inr bs)) \<Longrightarrow> bs \<noteq> [] \<Longrightarrow>
      Q (s\<lparr>inner := k, incoming := incoming s @ bs\<rparr>) s' a \<Longrightarrow> Q s s' a"
  shows "Q s s' a"
proof -
  have "Q s s' a" if "m = n" and "poll_read m s = (s', a)" for m
    using that
  proof (induction m s arbitrary: s' a rule: poll_read.induct)
    case (1 m s)
    from 1(4) show ?case
    proof (cases rule: poll_read_cases)
      case (frame s1 s2 r)
      then have "Q s2 s' a" using 1(1) [of s1 "Inr True" True] 1(3) by simp
      with frame 1(3) show ?thesis using assms(6) by blast
    next
      case (more k bs)
      moreover have "ws_decode s = (s, Inr False)" using more(2) by (simp add: ws_decode_def)
      ultimately have "Q (s\<lparr>inner := k, incoming := incoming s @ bs\<rparr>) s' a"
        using 1(2) [of s "Inr False" False k "Ready (Inr bs)" "Inr bs" bs] 1(3) by simp
      with more show ?thesis using assms(7) by blast
    qed (use 1(3) give bad_frame ended stop in auto)
  qed
  from this [OF refl run] show ?thesis .
qed

section \<open>The payload stream\<close>

definition data_of :: "(u8 \<times> bytes) list \<Rightarrow> bytes" where
  "data_of fs = concat (map snd (filter (\<lambda>(op, p). data_opcode op) fs))"

lemma data_of_simps [simp]:
  "data_of [] = []"
  "data_of ((op, p) # fs) = (if data_opcode op then p else []) @ data_of fs"
  "data_of (fs @ gs) = data_of fs @ data_of gs"
  by (simp_all add: data_of_def)

text \<open>The frames, and the payload bytes, that a sequence of raw client bytes carries.\<close>

definition frames_of :: "bytes \<Rightarrow> (u8 \<times> bytes) list" where
  "frames_of raw = fst (drain_buf ws_item 0 raw)"

definition payload_stream :: "bytes \<Rightarrow> bytes" where
  "payload_stream raw = data_of (frames_of raw)"

text \<open>
  The abstraction: with \<open>d\<close> delivered so far, the frames \<open>fs\<close> already taken off the raw bytes
  account for exactly \<open>d\<close> and \<open>plain\<close>, and what is still to be decoded is in \<open>incoming\<close>, now
  and whatever arrives next.
\<close>

definition decoded :: "(u8 \<times> bytes) list \<Rightarrow> ws_stream \<Rightarrow> bool" where
  "decoded fs s \<longleftrightarrow>
     (\<forall>x. drain_buf ws_item 0 (taken (inner s) @ x) =
        (case drain_buf ws_item (length fs) (incoming s @ x) of
           (ms, e, j, r) \<Rightarrow> (fs @ ms, e, j, r)))"

definition read_inv :: "bytes \<Rightarrow> ws_stream \<Rightarrow> bool" where
  "read_inv d s \<longleftrightarrow> (\<exists>fs. decoded fs s \<and> data_of fs = d @ plain s)"

lemma decodedD:
  "decoded fs s \<Longrightarrow> drain_buf ws_item 0 (taken (inner s)) =
     (case drain_buf ws_item (length fs) (incoming s) of (ms, e, j, r) \<Rightarrow> (fs @ ms, e, j, r))"
  unfolding decoded_def by (drule spec [where x = "[]"]) simp

lemma decoded_step:
  assumes "decoded fs s" and item: "ws_item (length fs) (incoming s) = Inr (Some (m, j, incoming s'))"
    and "inner s' = inner s"
  shows "decoded (fs @ [m]) s'"
  unfolding decoded_def
proof
  fix x
  have "j = length (fs @ [m])"
    using item by (cases m) (simp add: ws_item_Some)
  then show "drain_buf ws_item 0 (taken (inner s') @ x) =
      (case drain_buf ws_item (length (fs @ [m])) (incoming s' @ x) of
         (ms, e, j, r) \<Rightarrow> ((fs @ [m]) @ ms, e, j, r))"
    using assms ws_items.drain_step [OF ws_items.dec_more [OF item], of x]
    by (simp add: decoded_def split: prod.splits)
qed

lemma decoded_cong:
  "decoded fs s \<Longrightarrow> taken (inner s') = taken (inner s) @ bs \<Longrightarrow> incoming s' = incoming s @ bs \<Longrightarrow>
   decoded fs s'"
  by (simp add: decoded_def)

text \<open>Taking a frame off the buffer delivers nothing yet.\<close>

lemma read_inv_frame:
  assumes "ws_decode s = (s1, Inr True)" and dr: "drain s1 = (s2, r)" and "read_inv d s"
  shows "read_inv d s2"
proof -
  from assms(3) obtain fs where fs: "decoded fs s" "data_of fs = d @ plain s"
    by (auto simp: read_inv_def)
  obtain op p where item: "ws_item (length fs) (incoming s) = Inr (Some ((op, p), Suc (length fs), incoming s1))"
    and pl: "plain s1 = plain s @ (if data_opcode op then p else [])" and inn: "inner s1 = inner s"
    using assms(1) by (rule ws_decode_True)
  have "decoded (fs @ [(op, p)]) s2"
    using drain_frame [OF dr]
    by (auto intro: decoded_cong [OF decoded_step [OF fs(1) item inn], of s2 "[]"])
  moreover have "data_of (fs @ [(op, p)]) = d @ plain s2"
    using fs(2) pl drain_frame [OF dr] by simp
  ultimately show ?thesis
    unfolding read_inv_def by blast
qed

text \<open>
  One read keeps the abstraction: what it hands over continues the delivered bytes, and unless
  it failed it stopped with the buffer holding no complete frame.
\<close>

lemma poll_read_refines:
  assumes "poll_read n s = (s', a)" and "read_inv d s"
  shows "(\<forall>bs. a = Ready (Inr bs) \<longrightarrow> read_inv (d @ bs) s') \<and> (a = Pending \<longrightarrow> read_inv d s')"
  using assms
proof (induction arbitrary: d rule: poll_read_induct)
  case (give s k)
  then show ?case by (auto simp: read_inv_def decoded_def)
next
  case (bad_frame s s1 e)
  then show ?case by simp
next
  case (ended s)
  then show ?case by simp
next
  case (stop s k a)
  have "read_inv d (s\<lparr>inner := k\<rparr>)" if "a = Pending \<or> a = Ready (Inr [])"
  proof -
    have "taken k = taken (inner s)"
      using that stop(4) by (auto dest: sock_poll_read_Ready sock_poll_read_not_Ready)
    with stop.prems show ?thesis by (auto simp: read_inv_def decoded_def)
  qed
  with stop show ?case by fastforce
next
  case (frame s s1 s2 r s' a)
  then show ?case using read_inv_frame by blast
next
  case (more s k bs s' a)
  have "read_inv d (s\<lparr>inner := k, incoming := incoming s @ bs\<rparr>)"
    using more.prems sock_poll_read_Ready [OF more.hyps(4)]
    by (auto simp: read_inv_def decoded_def)
  then show ?case by (rule more.IH)
qed

text \<open>A read that is not given bytes stopped with nothing left to give.\<close>

lemma poll_read_exhausts:
  assumes "poll_read n s = (s', a)" and "a = Pending \<or> a = Ready (Inr []) \<and> 0 < n"
  shows "plain s' = [] \<and> ws_parse (incoming s') = Inr None"
  using assms by (induction rule: poll_read_induct) (auto simp: min_def split: if_splits)

lemma read_inv_new [simp]: "taken k = [] \<Longrightarrow> read_inv [] (ws_new k)"
  unfolding read_inv_def by (rule exI [of _ "[]"]) (simp add: decoded_def ws_new_def split: prod.splits)

lemma read_inv_prefix: "read_inv d s \<Longrightarrow> prefix d (payload_stream (taken (inner s)))"
  unfolding read_inv_def
  by (auto simp: payload_stream_def frames_of_def dest!: decodedD split: prod.splits)

text \<open>A read that fails leaves what was delivered a prefix of what the phone sent.\<close>

lemma poll_read_fails:
  assumes "poll_read n s = (s', a)" and "a = Ready (Inl e)" and "read_inv d s"
  shows "prefix d (payload_stream (taken (inner s')))"
  using assms
proof (induction arbitrary: d rule: poll_read_induct)
  case (bad_frame s s1 e)
  then show ?case using read_inv_prefix [of d s] by (simp add: ws_decode_inner)
next
  case (stop s k a)
  then show ?case using read_inv_prefix [of d s] sock_poll_read_not_Ready(1) [of "16 * 1024" "inner s" k e] by simp
next
  case (frame s s1 s2 r s' a)
  then show ?case using read_inv_frame by blast
next
  case (more s k bs s' a)
  have "read_inv d (s\<lparr>inner := k, incoming := incoming s @ bs\<rparr>)"
    using more.prems(2) sock_poll_read_Ready [OF more.hyps(4)] by (auto simp: read_inv_def decoded_def)
  then show ?case by (rule more.IH [OF more.prems(1)])
qed simp_all

lemma read_inv_complete:
  "read_inv d s \<Longrightarrow> plain s = [] \<Longrightarrow> ws_parse (incoming s) = Inr None \<Longrightarrow>
   payload_stream (taken (inner s)) = d"
  unfolding read_inv_def
  by (auto simp: payload_stream_def frames_of_def drain_buf_need ws_item_None dest!: decodedD)

end
