(* ===== verification/Ws_Wire.thy ===== *)
theory Ws_Wire
  imports Ws_Read
begin

text \<open>
  The WebSocket wire format from the other side. \<open>client_frame\<close> is what a phone puts on the
  wire (the masked frames of \<open>tests/common/mod.rs\<close>, with any mask and either FIN bit), and
  \<open>client_parse\<close> is how it reads the server's frames (\<open>WsClientStream::decode\<close> of
  \<open>tests/common/wsio.rs\<close>). Both directions meet the framing contract: what is framed arrives,
  however it is cut.
\<close>

section \<open>Bits\<close>

lemma or_128_and_128: "(128 OR w) AND 128 = (128 :: u8)"
  by (simp add: word_ao_absorbs)

lemma unat_and_127: "unat (w AND (127 :: u8)) = unat w mod 128"
proof -
  have "w AND 127 = take_bit 7 w"
    by (simp add: take_bit_eq_mask mask_eq_exp_minus_1)
  then show ?thesis
    by (simp add: unsigned_take_bit_eq) (simp add: take_bit_eq_mod)
qed

lemma len_and_127: "n < 128 \<Longrightarrow> unat ((128 OR of_nat n) AND (127 :: u8)) = n"
  by (simp add: word_ao_dist unat_and_127 unat_of_nat_u8)

lemma plain_len_and_127: "n < 128 \<Longrightarrow> unat (of_nat n AND (127 :: u8)) = n"
  by (simp add: unat_and_127 unat_of_nat_u8)

lemma len_and_128: "n < 128 \<Longrightarrow> of_nat n AND (128 :: u8) = 0"
proof -
  assume "n < 128"
  then have "\<not> bit n 7" by (simp add: bit_iff_odd)
  then have "\<not> bit (of_nat n :: u8) 7" by (simp add: bit_of_nat_iff)
  then have "of_nat n AND (2 ^ 7 :: u8) = 0" by (rule and_exp_eq_0_iff_not_bit [THEN iffD2])
  then show ?thesis by simp
qed

lemma apply_mask_twice [simp]: "apply_mask mk (apply_mask mk p) = p"
  by (auto simp: apply_mask_def enumerate_eq_zip xor.assoc intro!: nth_equalityI)

section \<open>From the client\<close>

definition first_byte :: "bool \<Rightarrow> u8 \<Rightarrow> u8" where
  "first_byte fin op = (if fin then 0x80 OR op else op)"

text \<open>The header up to the mask, then the mask and the masked payload.\<close>

definition client_head :: "bool \<Rightarrow> u8 \<Rightarrow> nat \<Rightarrow> bytes" where
  "client_head fin op n =
     first_byte fin op #
     (if n < 126 then [0x80 OR of_nat n]
      else if n \<le> 65535 then (0x80 OR 126) # to_be 2 (unat (of_nat n :: u16))
      else (0x80 OR 127) # to_be 8 (unat (of_nat n :: u64)))"

definition client_frame :: "bool \<Rightarrow> bytes \<Rightarrow> u8 \<Rightarrow> bytes \<Rightarrow> bytes" where
  "client_frame fin mk op payload =
     client_head fin op (length payload) @ mk @ apply_mask mk payload"

text \<open>A frame the proxy accepts: RFC 6455's rules for control frames, and the size ceiling.\<close>

definition valid_frame :: "bool \<Rightarrow> bytes \<Rightarrow> u8 \<Rightarrow> bytes \<Rightarrow> bool" where
  "valid_frame fin mk op payload \<longleftrightarrow>
     length mk = 4 \<and> length payload \<le> MAX_FRAME \<and> known_opcode op
     \<and> (\<not> data_opcode op \<longrightarrow> fin \<and> length payload \<le> MAX_CONTROL)"

lemma first_byte_opcode: "known_opcode op \<Longrightarrow> first_byte fin op AND 15 = op"
  by (auto simp: known_opcode_def op_defs first_byte_def)

lemma valid_no_violation:
  assumes "valid_frame fin mk op payload" and "unat (b AND 0x7f) \<le> length payload"
  shows "\<not> control_violation (first_byte fin op) b"
proof (cases "data_opcode op")
  case True
  then show ?thesis
    by (auto simp: control_violation_def Let_def data_opcode_def op_defs first_byte_def)
next
  case False
  with assms show ?thesis
    by (auto simp: control_violation_def Let_def valid_frame_def known_opcode_def op_defs
        first_byte_def wire_consts)
qed

lemma from_be_to_be_u64: "n < 2 ^ 64 \<Longrightarrow> from_be (to_be 8 (unat (of_nat n :: u64))) = n"
  by (simp add: unat_of_nat from_be_to_be)

lemma put_u16: "to_be 2 (unat (of_nat n :: u16)) = [of_nat (n div 256), of_nat n]"
  by (subst to_be_unat_of_nat_u16) (rule to_be_2)

lemma client_head_parts:
  assumes "n \<le> MAX_FRAME"
  shows "2 \<le> length (client_head fin op n)"
    and "client_head fin op n ! 0 = first_byte fin op"
    and "client_head fin op n ! 1 AND 0x80 \<noteq> 0"
    and "unat (client_head fin op n ! 1 AND 0x7f) \<le> n"
    and "ws_length (unat (client_head fin op n ! 1 AND 0x7f)) (client_head fin op n)
           = Some (n, length (client_head fin op n))"
proof -
  consider (short) "n < 126" | (mid) "126 \<le> n" "n \<le> 65535" | (long) "65535 < n"
    by linarith
  note three = this
  show "2 \<le> length (client_head fin op n)"
    by (simp add: client_head_def)
  show "client_head fin op n ! 0 = first_byte fin op"
    by (simp add: client_head_def)
  show "client_head fin op n ! 1 AND 0x80 \<noteq> 0"
    by (simp add: client_head_def or_128_and_128)
  show "unat (client_head fin op n ! 1 AND 0x7f) \<le> n"
    by (simp add: client_head_def len_and_127)
  show "ws_length (unat (client_head fin op n ! 1 AND 0x7f)) (client_head fin op n)
      = Some (n, length (client_head fin op n))"
    using three
  proof cases
    case short
    then show ?thesis by (simp add: client_head_def ws_length_def len_and_127)
  next
    case mid
    then show ?thesis
      by (simp add: client_head_def ws_length_def put_u16 from_be_2)
  next
    case long
    with assms show ?thesis
      by (simp add: client_head_def ws_length_def from_be_to_be_u64 wire_consts)
  qed
qed

text \<open>The proxy parses every valid client frame back to its opcode and payload.\<close>

lemma ws_parse_client_frame:
  assumes "valid_frame fin mk op payload"
  shows "ws_parse (client_frame fin mk op payload) = Inr (Some (op, payload, []))"
proof -
  let ?h = "client_head fin op (length payload)"
  let ?buf = "client_frame fin mk op payload"
  have n: "length payload \<le> MAX_FRAME" and mk: "length mk = 4"
    using assms by (simp_all add: valid_frame_def)
  note h = client_head_parts [OF n, of fin op]
  have heads: "?buf ! 0 = first_byte fin op" "?buf ! 1 = ?h ! 1"
    using h(1,2) by (simp_all add: client_frame_def)
  have "ws_length (unat (?buf ! 1 AND 0x7f)) ?buf = Some (length payload, length ?h)"
    using ws_length_append [OF h(1,5)] h(1) by (simp add: client_frame_def)
  moreover have "\<not> control_violation (?buf ! 0) (?buf ! 1)"
    unfolding heads using valid_no_violation [OF assms h(4)] .
  ultimately show ?thesis
    unfolding ws_parse_Some
    using h(1,3) n mk heads assms
    by (auto simp: first_byte_opcode valid_frame_def client_frame_def)
qed

section \<open>To the client\<close>

text \<open>\<open>WsClientStream::decode\<close>, up to its dispatch on the opcode.\<close>

definition client_parse :: "bytes \<Rightarrow> io_error + (u8 \<times> bytes \<times> bytes) option" where
  "client_parse buf =
     (if length buf < 2 then Inr None
      else if buf ! 1 AND 0x80 \<noteq> 0 then Inl (ws_bad ''a server frame must not be masked'')
      else (case ws_length (unat (buf ! 1 AND 0x7f)) buf of
              None \<Rightarrow> Inr None
            | Some (len, offset) \<Rightarrow>
                if len > 4 * 1024 * 1024 then Inl (ws_bad ''server frame is too large'')
                else if length buf < offset + len then Inr None
                else Inr (Some (buf ! 0 AND 0x0f, take len (drop offset buf), drop len (drop offset buf)))))"

lemma client_parse_Some:
  "client_parse buf = Inr (Some (op, p, r)) \<longleftrightarrow>
     2 \<le> length buf \<and> buf ! 1 AND 0x80 = 0 \<and> op = buf ! 0 AND 0x0f
     \<and> (\<exists>len off. ws_length (unat (buf ! 1 AND 0x7f)) buf = Some (len, off)
          \<and> len \<le> 4 * 1024 * 1024 \<and> off + len \<le> length buf
          \<and> p = take len (drop off buf) \<and> r = drop (off + len) buf)"
  by (auto simp: client_parse_def add.commute split: option.splits)

lemma client_parse_more:
  assumes "client_parse buf = Inr (Some (op, p, r))"
  shows "client_parse (buf @ x) = Inr (Some (op, p, r @ x))"
proof -
  from assms obtain len off where
    "ws_length (unat (buf ! 1 AND 0x7f)) buf = Some (len, off)" and "2 \<le> length buf"
    and "len \<le> 4 * 1024 * 1024" "off + len \<le> length buf"
    and "p = take len (drop off buf)" and "r = drop (off + len) buf"
    by (auto simp: client_parse_Some)
  moreover from this have "ws_length (unat (buf ! 1 AND 0x7f)) (buf @ x) = Some (len, off)"
    by (simp add: ws_length_append)
  ultimately show ?thesis
    using assms by (simp add: client_parse_Some)
qed

lemma client_parse_fails:
  assumes "client_parse buf = Inl e"
  shows "client_parse (buf @ x) = Inl e"
proof -
  have len: "2 \<le> length buf"
    using assms by (auto simp: client_parse_def split: if_splits)
  then show ?thesis
    using assms
    by (auto simp: client_parse_def split: if_splits option.splits
        dest: ws_length_append [OF len, where x = x])
qed

definition client_item :: "(unit, u8 \<times> bytes) decoder" where
  "client_item u buf =
     (case client_parse buf of
        Inl e \<Rightarrow> Inl e
      | Inr None \<Rightarrow> Inr None
      | Inr (Some (op, p, r)) \<Rightarrow> Inr (Some ((op, p), u, r)))"

lemma client_item_Some:
  "client_item u buf = Inr (Some ((op, p), u', r)) \<longleftrightarrow> client_parse buf = Inr (Some (op, p, r))"
  by (auto simp: client_item_def split: sum.splits option.splits)

lemma client_item_Inl: "client_item u buf = Inl e \<longleftrightarrow> client_parse buf = Inl e"
  by (auto simp: client_item_def split: sum.splits option.splits)

lemma server_head:
  assumes "length payload \<le> 4 * 1024 * 1024" and "known_opcode op"
  shows "client_parse (server_frame op payload) = Inr (Some (op, payload, []))"
proof -
  have op: "(0x80 OR op) AND 0x0f = op"
    using assms(2) by (auto simp: known_opcode_def op_defs)
  consider (short) "length payload < 126" | (mid) "126 \<le> length payload" "length payload \<le> 65535"
    | (long) "65535 < length payload"
    by linarith
  then show ?thesis
  proof cases
    case short
    then show ?thesis
      by (simp add: client_parse_Some server_frame_def op ws_length_def len_and_128 plain_len_and_127)
  next
    case mid
    then show ?thesis
      by (simp add: client_parse_Some server_frame_def op ws_length_def put_u16 from_be_2)
  next
    case long
    with assms show ?thesis
      by (simp add: client_parse_Some server_frame_def op ws_length_def from_be_to_be_u64)
  qed
qed

section \<open>Both directions meet the framing contract\<close>

text \<open>The \<open>i\<close>-th client frame may use any FIN bit and any mask.\<close>

definition client_enc :: "(nat \<Rightarrow> bool) \<Rightarrow> (nat \<Rightarrow> bytes) \<Rightarrow> nat \<Rightarrow> u8 \<times> bytes \<Rightarrow> bytes" where
  "client_enc fin mk i f = client_frame (fin i) (mk i) (fst f) (snd f)"

definition client_ok :: "(nat \<Rightarrow> bool) \<Rightarrow> (nat \<Rightarrow> bytes) \<Rightarrow> nat \<Rightarrow> u8 \<times> bytes \<Rightarrow> bool" where
  "client_ok fin mk i f = valid_frame (fin i) (mk i) (fst f) (snd f)"

interpretation ws_up: framing ws_item "client_enc fin mk" "\<lambda>i _. Suc i" "client_ok fin mk"
  for fin mk
proof unfold_locales
  fix i
  show "ws_item i [] = Inr None"
    by (simp add: ws_item_None ws_parse_def)
next
  fix i f
  assume "client_ok fin mk i f"
  then show "ws_item i (client_enc fin mk i f) = Inr (Some (f, Suc i, []))"
    by (cases f)
      (simp add: client_ok_def client_enc_def ws_item_Some ws_parse_client_frame,
        simp add: valid_frame_def)
qed

definition server_ok :: "unit \<Rightarrow> u8 \<times> bytes \<Rightarrow> bool" where
  "server_ok u f \<longleftrightarrow> known_opcode (fst f) \<and> length (snd f) \<le> 4 * 1024 * 1024"

interpretation ws_down: framing client_item "\<lambda>_ f. server_frame (fst f) (snd f)" "\<lambda>u _. u" server_ok
proof unfold_locales
  fix u b m u' r
  assume "client_item u b = Inr (Some (m, u', r))"
  then show "length r < length b"
    by (cases m) (auto simp: client_item_Some client_parse_Some dest: ws_length_offset)
next
  fix u b m u' r x
  assume "client_item u b = Inr (Some (m, u', r))"
  then show "client_item u (b @ x) = Inr (Some (m, u', r @ x))"
    by (cases m) (simp add: client_item_Some client_parse_more)
next
  fix u b e x
  assume "client_item u b = Inl e"
  then show "client_item u (b @ x) = Inl e"
    by (simp add: client_item_Inl client_parse_fails)
next
  fix u
  show "client_item u [] = Inr None"
    by (simp add: client_item_def client_parse_def)
next
  fix u f
  assume "server_ok u f"
  then show "client_item u (server_frame (fst f) (snd f)) = Inr (Some (f, u, []))"
    by (cases f) (simp add: server_ok_def client_item_Some server_head)
qed

end
