(* ===== verification/Ws_Pipe.thy ===== *)
theory Ws_Pipe
  imports Ws_Wire
begin

text \<open>
  The WebSocket as the byte pipe its callers see: any interleaving of reads, writes, flushes
  and shutdowns. Bytes written come out at the phone in order, pongs and the close frame
  never land inside a frame, and no buffer grows past a fixed bound.
\<close>

section \<open>Interleaved use\<close>

datatype ws_op = Read nat | Write bytes | Flush | Shutdown

text \<open>One call: the bytes it delivered to the reader, the bytes it took from the writer.\<close>

fun ws_call :: "ws_op \<Rightarrow> ws_stream \<Rightarrow> (bytes \<times> bytes) result \<times> ws_stream" where
  "ws_call (Read n) s =
     (case poll_read n s of
        (s', Ready (Inl e)) \<Rightarrow> (Inl e, s')
      | (s', Ready (Inr bs)) \<Rightarrow> (Inr (bs, []), s')
      | (s', Pending) \<Rightarrow> (Inr ([], []), s'))"
| "ws_call (Write data) s =
     (case poll_write data s of
        (s', Ready (Inl e)) \<Rightarrow> (Inl e, s')
      | (s', Ready (Inr k)) \<Rightarrow> (Inr ([], take k data), s')
      | (s', Pending) \<Rightarrow> (Inr ([], []), s'))"
| "ws_call Flush s =
     (case poll_flush s of (s', Ready (Inl e)) \<Rightarrow> (Inl e, s') | (s', _) \<Rightarrow> (Inr ([], []), s'))"
| "ws_call Shutdown s =
     (case poll_shutdown s of (s', Ready (Inl e)) \<Rightarrow> (Inl e, s') | (s', _) \<Rightarrow> (Inr ([], []), s'))"

text \<open>A whole use of the pipe, up to the first failing call.\<close>

fun ws_run :: "ws_op list \<Rightarrow> ws_stream \<Rightarrow> (bytes \<times> bytes \<times> ws_stream) option" where
  "ws_run [] s = Some ([], [], s)"
| "ws_run (c # cs) s =
     (case ws_call c s of
        (Inl e, s') \<Rightarrow> None
      | (Inr (d, w), s') \<Rightarrow>
          map_option (\<lambda>(d', w', s''). (d @ d', w @ w', s'')) (ws_run cs s'))"

section \<open>The writing direction\<close>

text \<open>
  With \<open>w\<close> accepted so far: the bytes sent and staged are a sequence of whole frames that
  carries exactly \<open>w\<close>.
\<close>

definition frames_bytes :: "(u8 \<times> bytes) list \<Rightarrow> bytes" where
  "frames_bytes fs = concat (map (\<lambda>f. server_frame (fst f) (snd f)) fs)"

lemma frames_bytes_simps [simp]:
  "frames_bytes [] = []"
  "frames_bytes (fs @ gs) = frames_bytes fs @ frames_bytes gs"
  "frames_bytes [(op, p)] = server_frame op p"
  by (simp_all add: frames_bytes_def)

definition staged :: "(u8 \<times> bytes) list \<Rightarrow> ws_stream \<Rightarrow> bool" where
  "staged fs s \<longleftrightarrow>
     sent (inner s) @ outgoing s = frames_bytes fs
     \<and> (\<forall>f \<in> set fs. known_opcode (fst f) \<and> length (snd f) \<le> MAX_SEND)"

definition write_inv :: "bytes \<Rightarrow> ws_stream \<Rightarrow> bool" where
  "write_inv w s \<longleftrightarrow> (\<exists>fs. staged fs s \<and> data_of fs = w)"

lemma staged_drain: "drain s = (s', a) \<Longrightarrow> staged fs s \<Longrightarrow> staged fs s'"
  by (auto simp: staged_def dest: drain_frame)

lemma staged_frame:
  "staged fs s \<Longrightarrow> known_opcode op \<Longrightarrow> length p \<le> MAX_SEND \<Longrightarrow> staged (fs @ [(op, p)]) (ws_frame op p s)"
  by (auto simp: staged_def ws_frame_def simp flip: append_assoc)

lemma staged_cong:
  "staged fs s \<Longrightarrow> sent (inner s') @ outgoing s' = sent (inner s) @ outgoing s \<Longrightarrow> staged fs s'"
  by (simp add: staged_def)

lemma write_inv_cong:
  "write_inv w s \<Longrightarrow> sent (inner s') @ outgoing s' = sent (inner s) @ outgoing s \<Longrightarrow> write_inv w s'"
  by (auto simp: write_inv_def staged_def)

lemma write_inv_upd [simp]:
  "sent k = sent (inner s) \<Longrightarrow> write_inv w (s\<lparr>inner := k\<rparr>) \<longleftrightarrow> write_inv w s"
  "sent k = sent (inner s) \<Longrightarrow> write_inv w (s\<lparr>inner := k, incoming := b\<rparr>) \<longleftrightarrow> write_inv w s"
  by (simp_all add: write_inv_def staged_def)

lemma write_inv_frame:
  "write_inv w s \<Longrightarrow> known_opcode op \<Longrightarrow> length p \<le> MAX_SEND \<Longrightarrow>
   write_inv (w @ (if data_opcode op then p else [])) (ws_frame op p s)"
  unfolding write_inv_def by (auto intro!: exI [of _ "_ @ [(op, p)]"] dest: staged_frame [of _ s op p])

lemma write_inv_drain: "drain s = (s', a) \<Longrightarrow> write_inv w s \<Longrightarrow> write_inv w s'"
  by (auto intro: write_inv_cong dest: drain_frame)

lemma opcode_facts [simp]:
  "known_opcode OP_BINARY" "known_opcode OP_PONG" "known_opcode OP_CLOSE" "known_opcode OP_PING"
  "data_opcode OP_BINARY" "\<not> data_opcode OP_PONG" "\<not> data_opcode OP_CLOSE" "\<not> data_opcode OP_PING"
  by (simp_all add: known_opcode_def data_opcode_def op_defs)

text \<open>A control frame that parses carries at most 125 bytes.\<close>

lemma ping_payload:
  assumes "ws_parse buf = Inr (Some (OP_PING, p, r))"
  shows "length p \<le> MAX_CONTROL"
proof -
  from assms have "buf ! 0 AND 15 = 9" and "\<not> control_violation (buf ! 0) (buf ! 1)"
    by (auto simp: ws_parse_Some OP_PING_def)
  then have "unat (buf ! 1 AND 0x7f) \<le> MAX_CONTROL"
    by (auto simp: control_violation_def Let_def)
  with assms show ?thesis
    by (auto simp: ws_parse_Some ws_length_def wire_consts)
qed

lemma ws_decode_bad: "ws_decode s = (s1, Inl e) \<Longrightarrow> outgoing s1 = outgoing s \<and> inner s1 = inner s"
  by (auto simp: ws_decode_def ws_dispatch_def split: sum.splits option.splits if_splits)

lemma write_inv_poll_read:
  assumes "poll_read n s = (s', a)" and "write_inv w s"
  shows "write_inv w s'"
  using assms
proof (induction rule: poll_read_induct)
  case (frame s s1 s2 r s' a)
  obtain op p where item: "ws_item 0 (incoming s) = Inr (Some ((op, p), Suc 0, incoming s1))"
    and inn: "inner s1 = inner s"
    and out: "outgoing s1 = outgoing s @
           (if op = OP_PING \<and> length (outgoing s) \<le> MAX_PONG_BACKLOG then server_frame OP_PONG p else [])"
    using frame.hyps(2) by (rule ws_decode_True)
  have "write_inv w s1"
  proof (cases "op = OP_PING \<and> length (outgoing s) \<le> MAX_PONG_BACKLOG")
    case True
    with item have "length p \<le> MAX_SEND"
      by (auto simp: ws_item_Some wire_consts dest!: ping_payload)
    then have "write_inv (w @ []) (ws_frame OP_PONG p s)"
      using write_inv_frame [OF frame.prems(1), of OP_PONG p] by simp
    with True inn out show ?thesis
      by (auto intro: write_inv_cong simp: ws_frame_def)
  next
    case False
    with frame.prems inn out show ?thesis
      by (auto intro: write_inv_cong)
  qed
  with frame write_inv_drain show ?case by blast
next
  case (bad_frame s s1 e)
  then show ?case using ws_decode_bad [OF bad_frame(2)] write_inv_cong [of w s s1] by simp
next
  case (stop s k a)
  then show ?case using sock_poll_read_frame [OF stop(4)] by simp
next
  case (more s k bs s' a)
  then have "write_inv w (s\<lparr>inner := k, incoming := incoming s @ bs\<rparr>)"
    using sock_poll_read_frame [OF more(4)] by simp
  with more show ?case by blast
qed (auto intro: write_inv_cong)

lemma write_inv_poll_write:
  assumes "poll_write data s = (s', a)" and "write_inv w s"
  shows "(\<forall>k. a = Ready (Inr k) \<longrightarrow> write_inv (w @ take k data) s') \<and> (a = Pending \<longrightarrow> write_inv w s')
    \<and> (\<exists>k. write_inv (w @ take k data) s')"
proof -
  obtain s1 r where dr: "drain s = (s1, r)" by (cases "drain s")
  let ?p = "take (min (length data) MAX_SEND) data"
  have one: "write_inv w s1"
    using dr assms(2) by (rule write_inv_drain)
  then have two: "write_inv (w @ ?p) (ws_frame OP_BINARY ?p s1)"
    using write_inv_frame [of w s1 OP_BINARY ?p] by simp
  then have three: "\<exists>k. write_inv (w @ take k data) s2" if "drain (ws_frame OP_BINARY ?p s1) = (s2, b)" for s2 b
    using write_inv_drain [OF that] by blast
  show ?thesis
    using assms(1) dr one two
    by (auto simp: poll_write_def Let_def split: poll.splits sum.splits prod.splits
        intro: write_inv_drain three exI [of _ 0])
qed

lemma write_inv_poll_flush:
  "poll_flush s = (s', a) \<Longrightarrow> write_inv w s \<Longrightarrow> write_inv w s'"
  by (auto simp: poll_flush_def split: poll.splits sum.splits prod.splits
      dest!: write_inv_drain dest: sock_poll_ctl_frame)

lemma write_inv_poll_shutdown:
  assumes "poll_shutdown s = (s', a)" and "write_inv w s"
  shows "write_inv w s'"
proof -
  let ?s0 = "if closed s then s else (ws_frame OP_CLOSE [] s)\<lparr>closed := True\<rparr>"
  have "write_inv (w @ []) (ws_frame OP_CLOSE [] s)"
    using write_inv_frame [OF assms(2), of OP_CLOSE "[]"] by simp
  then have "write_inv w ?s0"
    using assms(2) by (auto intro: write_inv_cong)
  moreover have "poll_flush ?s0 = (s', a)"
    using assms(1) by (simp add: poll_shutdown_def poll_flush_def Let_def)
  ultimately show ?thesis by (blast intro: write_inv_poll_flush)
qed

section \<open>Both directions at once\<close>

text \<open>The writing calls do not touch what the reader sees.\<close>

definition same_reader :: "ws_stream \<Rightarrow> ws_stream \<Rightarrow> bool" where
  "same_reader s s' \<longleftrightarrow>
     incoming s' = incoming s \<and> plain s' = plain s \<and> taken (inner s') = taken (inner s)"

lemma same_reader_drain: "drain s = (s', a) \<Longrightarrow> same_reader s s'"
  by (auto simp: same_reader_def dest: drain_frame)

lemma same_reader_poll_flush: "poll_flush s = (s', a) \<Longrightarrow> same_reader s s'"
  by (auto simp: poll_flush_def same_reader_def split: poll.splits sum.splits prod.splits
      dest!: drain_frame sock_poll_ctl_frame)

lemma same_reader_poll_shutdown: "poll_shutdown s = (s', a) \<Longrightarrow> same_reader s s'"
  by (auto simp: poll_shutdown_def same_reader_def ws_frame_def Let_def
      split: poll.splits sum.splits prod.splits if_splits dest!: drain_frame sock_poll_ctl_frame)

lemma same_reader_poll_write: "poll_write data s = (s', a) \<Longrightarrow> same_reader s s'"
  by (auto simp: poll_write_def same_reader_def ws_frame_def Let_def
      split: poll.splits sum.splits prod.splits dest!: drain_frame)

lemma read_inv_same: "same_reader s s' \<Longrightarrow> read_inv d s \<Longrightarrow> read_inv d s'"
  by (simp add: same_reader_def read_inv_def decoded_def)

lemma ws_call_inv:
  assumes "ws_call c s = (Inr (d', w'), s')" and "read_inv d s" and "write_inv w s"
  shows "read_inv (d @ d') s' \<and> write_inv (w @ w') s'"
proof (cases c)
  case (Read n)
  obtain a where run: "poll_read n s = (s', a)" and a: "\<nexists>e. a = Ready (Inl e)"
      and res: "a = Ready (Inr d') \<or> a = Pending \<and> d' = []" and w': "w' = []"
    using assms(1) Read by (auto split: prod.splits poll.splits sum.splits)
  show ?thesis
    using poll_read_refines [OF run assms(2)] write_inv_poll_read [OF run assms(3)] res w' by auto
next
  case (Write data)
  then show ?thesis
    using assms same_reader_poll_write [of data s] write_inv_poll_write [OF _ assms(3), of data]
    by (auto split: prod.splits poll.splits sum.splits intro: read_inv_same)
next
  case Flush
  then show ?thesis
    using assms same_reader_poll_flush [of s] write_inv_poll_flush [OF _ assms(3)]
    by (auto split: prod.splits poll.splits sum.splits intro: read_inv_same)
next
  case Shutdown
  then show ?thesis
    using assms same_reader_poll_shutdown [of s] write_inv_poll_shutdown [OF _ assms(3)]
    by (auto split: prod.splits poll.splits sum.splits intro: read_inv_same)
qed

lemma ws_run_inv:
  "ws_run cs s = Some (d', w', s') \<Longrightarrow> read_inv d s \<Longrightarrow> write_inv w s \<Longrightarrow>
   read_inv (d @ d') s' \<and> write_inv (w @ w') s'"
proof (induction cs arbitrary: s d d' w w')
  case Nil
  then show ?case by simp
next
  case (Cons c cs)
  from Cons.prems(1) obtain d1 w1 s1 d2 w2 where one: "ws_call c s = (Inr (d1, w1), s1)"
    and rest: "ws_run cs s1 = Some (d2, w2, s')" and d': "d' = d1 @ d2" and w': "w' = w1 @ w2"
    by (auto split: prod.splits sum.splits)
  from ws_call_inv [OF one Cons.prems(2,3)] have "read_inv (d @ d1) s1" "write_inv (w @ w1) s1"
    by simp_all
  from Cons.IH [OF rest this] show ?case by (simp add: d' w')
qed

lemma write_inv_new [simp]: "sent k = [] \<Longrightarrow> write_inv [] (ws_new k)"
  unfolding write_inv_def staged_def by (rule exI [of _ "[]"]) (simp add: ws_new_def)

text \<open>What the phone makes of the bytes sent so far.\<close>

lemma frames_bytes_enc_all:
  "frames_bytes fs = enc_all (\<lambda>_ f. server_frame (fst f) (snd f)) (\<lambda>u _. u) () fs"
  by (induction fs) (auto simp: frames_bytes_def)

lemma frames_ok_all:
  "(\<forall>f \<in> set fs. known_opcode (fst f) \<and> length (snd f) \<le> MAX_SEND) \<Longrightarrow> ok_all server_ok (\<lambda>u _. u) () fs"
  by (induction fs) (auto simp: server_ok_def wire_consts)

lemma write_inv_received:
  assumes "write_inv w s" and "concat cs = sent (inner s)"
  shows "\<exists>fs r. feed_all client_item () [] cs = (fs, None, (), r) \<and> prefix (data_of fs) w
    \<and> (outgoing s = [] \<longrightarrow> data_of fs = w \<and> r = [])"
proof -
  from assms(1) obtain gs where gs: "sent (inner s) @ outgoing s = frames_bytes gs" "data_of gs = w"
    and "\<forall>f \<in> set gs. known_opcode (fst f) \<and> length (snd f) \<le> MAX_SEND"
    by (auto simp: write_inv_def staged_def)
  then have "ok_all server_ok (\<lambda>u _. u) () gs"
    by (intro frames_ok_all)
  from ws_down.transport_prefix [OF this, of cs "outgoing s"] gs(1) assms(2)
  obtain fs r where "feed_all client_item () [] cs = (fs, None, (), r)" "prefix fs gs" "outgoing s = [] \<longrightarrow> fs = gs \<and> r = []"
    by (auto simp: frames_bytes_enc_all)
  moreover from this(2) have "prefix (data_of fs) (data_of gs)" by (auto simp: prefix_def)
  ultimately show ?thesis using gs(2) by auto
qed

end
