(* ===== verification/Ws_Bounds.thy ===== *)
theory Ws_Bounds
  imports Ws_Pipe
begin

text \<open>
  What the WebSocket holds in memory, and what its callers may rely on: the buffers stay
  bounded whatever the client sends and however the polls interleave, and the properties of
  the pipe as a whole.
\<close>

section \<open>Bounded buffers\<close>

definition ws_bounded :: "ws_stream \<Rightarrow> bool" where
  "ws_bounded s \<longleftrightarrow>
     length (incoming s) < MAX_FRAME + 14 + 16 * 1024
     \<and> length (plain s) \<le> MAX_FRAME
     \<and> length (outgoing s) \<le> MAX_SEND + 10 + (if closed s then 2 else 0)"

lemma ws_length_le: "ws_length short buf = Some (len, off) \<Longrightarrow> off \<le> 10"
  by (auto simp: ws_length_def split: if_splits)

text \<open>A buffer without a complete frame is shorter than the largest frame.\<close>

lemma ws_parse_None_length:
  assumes "ws_parse buf = Inr None"
  shows "length buf < MAX_FRAME + 14"
proof (cases "length buf < 2 \<or> ws_length (unat (buf ! 1 AND 0x7f)) buf = None")
  case True
  then have "length buf < 10"
    by (auto simp: ws_length_def split: if_splits)
  then show ?thesis by (simp add: wire_consts)
next
  case False
  then obtain len off where l: "ws_length (unat (buf ! 1 AND 0x7f)) buf = Some (len, off)"
    by auto
  with assms False have "len \<le> MAX_FRAME" and "length buf < off + 4 + len"
    by (auto simp: ws_parse_def Let_def split: if_splits)
  with ws_length_le [OF l] show ?thesis by linarith
qed

lemma server_frame_length: "length (server_frame op p) \<le> length p + 10"
  by (auto simp: server_frame_def)

lemma control_frame_length: "length p \<le> MAX_CONTROL \<Longrightarrow> length (server_frame op p) = length p + 2"
  by (simp add: server_frame_def wire_consts)

lemma ws_parse_payload: "ws_parse buf = Inr (Some (op, p, r)) \<Longrightarrow> length p \<le> MAX_FRAME"
  by (auto simp: ws_parse_Some)

lemma ws_bounded_decode:
  assumes "ws_decode s = (s1, x)" and "ws_bounded s" and "plain s = []"
  shows "ws_bounded s1"
proof (cases "\<exists>op p r. ws_parse (incoming s) = Inr (Some (op, p, r))")
  case False
  with assms show ?thesis
    by (auto simp: ws_decode_def split: sum.splits option.splits)
next
  case True
  then obtain op p r where f: "ws_parse (incoming s) = Inr (Some (op, p, r))" by blast
  have r: "length r < MAX_FRAME + 14 + 16 * 1024" and p: "length p \<le> MAX_FRAME"
    using ws_parse_shrinks [OF f] ws_parse_payload [OF f] assms(2) by (simp_all add: ws_bounded_def)
  have "length (server_frame OP_PONG p) \<le> 127" if "op = OP_PING"
    using ping_payload [of "incoming s" p r] f that by (simp add: control_frame_length wire_consts)
  with f assms r p show ?thesis
    by (auto simp: ws_decode_def ws_dispatch_def ws_frame_def ws_bounded_def op_defs wire_consts
        split: if_splits)
qed

lemma ws_bounded_drain: "drain s = (s', a) \<Longrightarrow> ws_bounded s \<Longrightarrow> ws_bounded s'"
  by (auto simp: ws_bounded_def dest!: drain_frame)

lemma ws_bounded_inner [simp]: "ws_bounded (s\<lparr>inner := k\<rparr>) = ws_bounded s"
  by (simp add: ws_bounded_def)

lemma ws_bounded_poll_read:
  assumes "poll_read n s = (s', a)" and "ws_bounded s"
  shows "ws_bounded s'"
  using assms
proof (induction rule: poll_read_induct)
  case (give s k)
  then show ?case by (auto simp: ws_bounded_def)
next
  case (bad_frame s s1 e)
  then show ?case by (blast intro: ws_bounded_decode)
next
  case (frame s s1 s2 r s' a)
  then show ?case by (blast intro: ws_bounded_decode ws_bounded_drain)
next
  case (more s k bs s' a)
  have "length bs \<le> 16 * 1024"
    using sock_poll_read_Ready [OF more.hyps(4)] by simp
  with more ws_parse_None_length [OF more.hyps(2)] show ?case
    by (simp add: ws_bounded_def)
qed simp_all

lemma ws_bounded_poll_write:
  assumes "poll_write data s = (s', a)" and "ws_bounded s"
  shows "ws_bounded s'"
proof -
  obtain s1 r where d: "drain s = (s1, r)" by (cases "drain s")
  note s1 = ws_bounded_drain [OF d assms(2)]
  show ?thesis
  proof (cases "r = Ready (Inr ())")
    case True
    let ?s = "ws_frame OP_BINARY (take (min (length data) MAX_SEND) data) s1"
    have "outgoing s1 = []"
      using drain_frame [OF d] True by simp
    then have "ws_bounded ?s"
      using s1 server_frame_length [of OP_BINARY "take (min (length data) MAX_SEND) data"]
      by (auto simp: ws_bounded_def ws_frame_def)
    moreover have "drain ?s = (s', snd (drain ?s))"
      using assms(1) d True by (auto simp: poll_write_def Let_def split: prod.splits poll.splits sum.splits)
    ultimately show ?thesis by (blast intro: ws_bounded_drain)
  next
    case False
    with assms(1) d s1 show ?thesis
      by (auto simp: poll_write_def split: poll.splits sum.splits)
  qed
qed

lemma ws_bounded_poll_flush: "poll_flush s = (s', a) \<Longrightarrow> ws_bounded s \<Longrightarrow> ws_bounded s'"
  by (auto simp: poll_flush_def split: prod.splits poll.splits sum.splits dest!: ws_bounded_drain)

lemma ws_bounded_poll_shutdown:
  assumes "poll_shutdown s = (s', a)" and "ws_bounded s"
  shows "ws_bounded s'"
proof -
  let ?s = "if closed s then s else (ws_frame OP_CLOSE [] s)\<lparr>closed := True\<rparr>"
  have "ws_bounded ?s"
    using assms(2) by (auto simp: ws_bounded_def ws_frame_def server_frame_def)
  with assms(1) show ?thesis
    by (auto simp: poll_shutdown_def Let_def simp del: if_split
        split: prod.splits poll.splits sum.splits dest!: ws_bounded_drain)
qed

lemma ws_run_new:
  assumes "ws_run cs (ws_new k) = Some (d, w, s)" and "taken k = []" and "sent k = []"
  shows "read_inv d s" and "write_inv w s"
  using ws_run_inv [OF assms(1), of "[]" "[]"] assms(2,3) by simp_all

lemmas ws_bounded_polls =
  ws_bounded_poll_read ws_bounded_poll_write ws_bounded_poll_flush ws_bounded_poll_shutdown

lemma ws_bounded_call: "ws_bounded s \<Longrightarrow> ws_bounded (snd (ws_call c s))"
  by (cases c) (auto split: prod.splits poll.splits sum.splits dest: ws_bounded_polls)

section \<open>Properties\<close>

text \<open>
  C11. The phone's bytes reach the tunnel. After any interleaving of reads, writes, flushes and
  shutdowns, what the reads delivered is a prefix of the payload bytes that the raw bytes off
  the socket carry, decoded in one piece; and when a further read finds nothing to give,
  everything they carry has been delivered. Frame boundaries, control frames between
  fragments, the sizes of the reader's buffers and the cuts of the socket leave no trace.
\<close>

theorem ws_delivers_payload:
  assumes "ws_run cs (ws_new k) = Some (d, w, s)" and "taken k = []" and "sent k = []"
  shows "prefix d (payload_stream (taken (inner s)))
    \<and> (\<forall>n s' a. poll_read n s = (s', a) \<and> (a = Pending \<or> a = Ready (Inr []) \<and> 0 < n)
          \<longrightarrow> payload_stream (taken (inner s')) = d)"
proof -
  note inv = ws_run_new(1) [OF assms]
  have "payload_stream (taken (inner s')) = d"
    if "poll_read n s = (s', a)" "a = Pending \<or> a = Ready (Inr []) \<and> 0 < n" for n s' a
    using poll_read_refines [OF that(1) inv] poll_read_exhausts [OF that] that(2)
    by (auto intro: read_inv_complete)
  with inv show ?thesis by (blast dest: read_inv_prefix)
qed

text \<open>Two masked frames, the second split by the socket: a binary frame and a ping.\<close>

definition demo_sock :: sock where
  "demo_sock =
     \<lparr>rd = [RdData (client_frame True [1, 2, 3, 4] OP_BINARY [10, 20, 30]),
            RdData (take 3 (client_frame True [9, 9, 9, 9] OP_PING [7])), RdPending,
            RdData (drop 3 (client_frame True [9, 9, 9, 9] OP_PING [7])), RdPending],
      wr = [WrAccept 2, WrPending, WrAccept 100, WrAccept 100], ctl = [], taken = [], sent = []\<rparr>"

theorem ws_delivers_payload_witness:
  "\<exists>d w s s'. ws_run [Read 2, Read 2, Read 2, Write [5], Flush] (ws_new demo_sock) = Some (d, w, s)
    \<and> poll_read 2 s = (s', Pending) \<and> payload_stream (taken (inner s')) = d"
proof -
  have "case ws_run [Read 2, Read 2, Read 2, Write [5], Flush] (ws_new demo_sock) of None \<Rightarrow> False
      | Some (d, w, s) \<Rightarrow> snd (poll_read 2 s) = Pending"
    by code_simp
  then obtain d w s s' where
    run: "ws_run [Read 2, Read 2, Read 2, Write [5], Flush] (ws_new demo_sock) = Some (d, w, s)"
    and rd: "poll_read 2 s = (s', Pending)"
    by (cases "ws_run [Read 2, Read 2, Read 2, Write [5], Flush] (ws_new demo_sock)")
      (auto simp: prod_eq_iff)
  have "taken demo_sock = []" "sent demo_sock = []"
    by (simp_all add: demo_sock_def)
  with ws_delivers_payload [OF run] rd have "payload_stream (taken (inner s')) = d" by blast
  with run rd show ?thesis by blast
qed

text \<open>
  C29. Every frame a conforming client sends gets through: whatever FIN bits and masks it
  uses, once the bytes of its frames have been read off the socket and a read finds nothing
  more, the tunnel has received exactly the payloads of its data frames, in order.
\<close>

theorem ws_client_frames_arrive:
  assumes "ok_all (client_ok fin mk) (\<lambda>i _. Suc i) 0 fs"
    and "ws_run cs (ws_new k) = Some (d, w, s)" and "taken k = []" and "sent k = []"
    and "poll_read n s = (s', Pending)"
    and "taken (inner s') = enc_all (client_enc fin mk) (\<lambda>i _. Suc i) 0 fs"
  shows "d = data_of fs"
proof -
  have "payload_stream (taken (inner s')) = d"
    using poll_read_refines [OF assms(5) ws_run_new(1) [OF assms(2-4)]] poll_read_exhausts [OF assms(5)]
    by (auto intro: read_inv_complete)
  with assms(1,6) show ?thesis
    by (simp add: payload_stream_def frames_of_def ws_up.drain_enc_all)
qed

theorem ws_client_frames_arrive_witness:
  "\<exists>d w s s'. ws_run [Read 9, Read 9] (ws_new demo_sock) = Some (d, w, s)
    \<and> poll_read 9 s = (s', Pending) \<and> d = data_of [(OP_BINARY, [10, 20, 30]), (OP_PING, [7])]"
proof -
  let ?fs = "[(OP_BINARY, [10, 20, 30]), (OP_PING, [7])]"
  let ?mk = "\<lambda>i. if i = 0 then [1, 2, 3, 4] else [9, 9, 9, 9]"
  have runs: "case ws_run [Read 9, Read 9] (ws_new demo_sock) of None \<Rightarrow> False
      | Some (d, w, s) \<Rightarrow> (case poll_read 9 s of (s', a) \<Rightarrow> a = Pending
          \<and> taken (inner s') = enc_all (client_enc (\<lambda>_. True) ?mk) (\<lambda>i _. Suc i) 0 ?fs)"
    by code_simp
  then obtain d w s s' where run: "ws_run [Read 9, Read 9] (ws_new demo_sock) = Some (d, w, s)"
    and rd: "poll_read 9 s = (s', Pending)"
    and tk: "taken (inner s') = enc_all (client_enc (\<lambda>_. True) ?mk) (\<lambda>i _. Suc i) 0 ?fs"
    by (auto split: option.splits prod.splits)
  have "ok_all (client_ok (\<lambda>_. True) ?mk) (\<lambda>i _. Suc i) 0 ?fs"
    by code_simp
  from ws_client_frames_arrive [OF this run _ _ rd tk] run rd show ?thesis
    by (auto simp: demo_sock_def)
qed

text \<open>
  C12. The tunnel's bytes reach the phone. After any interleaving of calls, the bytes that left
  through the socket, cut anywhere, are parsed by the client without an error into frames
  whose payloads are a prefix of the bytes the writes accepted, and all of them once nothing
  is staged: pongs and the close frame never land inside a data frame, and a partial socket
  write never loses or repeats a byte.
\<close>

theorem ws_writes_arrive:
  assumes "ws_run ops (ws_new k) = Some (d, w, s)" and "taken k = []" and "sent k = []"
    and "concat cs = sent (inner s)"
  shows "\<exists>fs r. feed_all client_item () [] cs = (fs, None, (), r) \<and> prefix (data_of fs) w
    \<and> (outgoing s = [] \<longrightarrow> data_of fs = w \<and> r = [])"
  using ws_run_new(2) [OF assms(1-3)] assms(4) by (rule write_inv_received)

theorem ws_writes_arrive_witness:
  "\<exists>d w s fs. ws_run [Read 9, Write [5], Flush] (ws_new demo_sock) = Some (d, w, s)
    \<and> feed_all client_item () [] [sent (inner s)] = (fs, None, (), []) \<and> data_of fs = w"
proof -
  have "case ws_run [Read 9, Write [5], Flush] (ws_new demo_sock) of None \<Rightarrow> False
      | Some (d, w, s) \<Rightarrow> outgoing s = []"
    by code_simp
  then obtain d w s where
    run: "ws_run [Read 9, Write [5], Flush] (ws_new demo_sock) = Some (d, w, s)" and out: "outgoing s = []"
    by (cases "ws_run [Read 9, Write [5], Flush] (ws_new demo_sock)") auto
  with ws_writes_arrive [OF run, of "[sent (inner s)]"] show ?thesis
    by (auto simp: demo_sock_def simp del: feed_all.simps)
qed

text \<open>
  C30. A WebSocket never holds more than a fixed amount of memory. Whatever the client sends,
  however the socket answers and however the calls interleave, also after errors, the raw
  buffer stays below one maximal frame and one socket read, the payload buffer within one
  frame, and the staged output within one data frame (and the close frame): a client that
  pings without reading cannot grow it.
\<close>

theorem ws_memory_bounded:
  "ws_bounded (foldl (\<lambda>s c. snd (ws_call c s)) (ws_new k) cs)"
proof (induction cs rule: rev_induct)
  case Nil
  show ?case by (simp add: ws_bounded_def ws_new_def wire_consts)
next
  case (snoc c cs)
  then show ?case by (simp add: ws_bounded_call)
qed

text \<open>
  C31. What \<open>decode\<close> lets through: every frame it takes off the buffer was masked and no
  larger than \<open>MAX_FRAME\<close>, and every control frame was final and no larger than 125 bytes.
  Such a frame is refused as soon as its header is there, before its payload is buffered.
\<close>

theorem ws_parse_enforces_limits:
  "(ws_parse buf = Inr (Some (op, p, r)) \<longrightarrow>
      buf ! 1 AND 0x80 \<noteq> 0 \<and> length p \<le> MAX_FRAME
      \<and> (op AND 0x08 \<noteq> 0 \<longrightarrow> buf ! 0 AND 0x80 \<noteq> 0 \<and> length p \<le> MAX_CONTROL))
   \<and> (ws_parse buf = Inr None \<longrightarrow> length buf < MAX_FRAME + 14)
   \<and> (2 \<le> length buf \<and> control_violation (buf ! 0) (buf ! 1) \<longrightarrow>
        ws_parse buf = Inl (ws_bad ''oversized or fragmented control frame''))"
proof -
  have control: "buf ! 0 AND 0x80 \<noteq> 0 \<and> length p \<le> MAX_CONTROL"
    if f: "ws_parse buf = Inr (Some (op, p, r))" and c: "op AND 0x08 \<noteq> 0"
  proof -
    from f c have "buf ! 0 AND 0x80 \<noteq> 0" and s: "unat (buf ! 1 AND 0x7f) \<le> MAX_CONTROL"
      by (auto simp: ws_parse_Some control_violation_def Let_def)
    with f show ?thesis
      by (auto simp: ws_parse_Some ws_length_def wire_consts split: if_splits)
  qed
  show ?thesis
    using control ws_parse_None_length [of buf]
    by (auto simp: ws_parse_Some) (auto simp: ws_parse_def)
qed

theorem ws_parse_enforces_limits_witness:
  "ws_parse [0x09, 0x80] = Inl (ws_bad ''oversized or fragmented control frame'')"
  using ws_parse_enforces_limits [of "[0x09, 0x80]"] by (simp add: control_violation_def)

text \<open>
  A data frame behind a close frame is still decoded and handed to the reader.
\<close>

lemma data_after_close:
  "case poll_read 9 (ws_new demo_sock\<lparr>incoming :=
       client_frame True [0, 0, 0, 0] OP_CLOSE [] @ client_frame True [0, 0, 0, 0] OP_BINARY [42]\<rparr>)
   of (s, a) \<Rightarrow> closed s \<and> a = Ready (Inr [42])"
  by code_simp

end
