(* ===== verification/Splice.thy ===== *)
theory Splice
  imports Mux_Io Noise
begin

text \<open>
  The connection-level code of \<open>src/src/lib.rs\<close>: how \<open>run_edge\<close> and \<open>serve\<close> tell bridges from
  TLS clients and from strangers, and which bridge a client's preamble names.
\<close>

section \<open>Telling connections apart\<close>

text \<open>
  The first byte of a connection, peeked under \<open>PREAMBLE_TIMEOUT\<close>: \<open>None\<close> when none arrived.
\<close>

datatype first_route = ToEdge | ToServe | ToNobody

definition run_edge_route :: "u8 option \<Rightarrow> first_route" where
  "run_edge_route first =
     (case first of None \<Rightarrow> ToNobody | Some b \<Rightarrow> if b = 0x16 then ToEdge else ToServe)"

text \<open>
  \<open>serve\<close>: the preamble is read under the same deadline (\<open>None\<close> when it expires). What it
  answers is an error, nothing at all, or the adoption of a bridge with that preamble.
\<close>

datatype served = Refused io_error | Ignored | Adopt bytes

definition elapsed :: io_error where
  "elapsed = IoError TimedOut ''deadline has elapsed''"

definition serve :: "bytes result option \<Rightarrow> served" where
  "serve preamble =
     (case preamble of
        None \<Rightarrow> Refused elapsed
      | Some (Inl e) \<Rightarrow> Refused e
      | Some (Inr head) \<Rightarrow>
          if head ! 4 \<noteq> VERSION then Ignored
          else if [head ! 0, head ! 1, head ! 2, head ! 3] = MAGIC_BRIDGE then Adopt head
          else Ignored)"

section \<open>Which bridge\<close>

text \<open>The routing key in a preamble: \<open>head[5..HEAD_LEN]\<close>.\<close>

definition bridge_key :: "bytes \<Rightarrow> bytes" where
  "bridge_key head = take (HEAD_LEN - 5) (drop 5 head)"

section \<open>Properties\<close>



end
