(* ===== verification/Edge.thy ===== *)
theory Edge
  imports Ws_Bounds Splice
begin

text \<open>
  \<open>src/src/edge.rs\<close>: the client edge. TLS and HTTP are \<open>rustls\<close> and \<open>hyper\<close>; what the code sees
  of a request is its path and, per header, a value that is visible ASCII. A response is its
  status, headers and JSON value. The tunnel task reads the preamble out of the WebSocket.
\<close>

section \<open>Requests and responses\<close>

record request =
  req_path :: string
  req_header :: "string \<Rightarrow> string option"

datatype json = JBool bool | JStr string | JObj "(string \<times> json) list"

record response =
  status :: nat
  headers :: "(string \<times> string) list"
  body :: "json option"

definition json_response :: "nat \<Rightarrow> json \<Rightarrow> response" where
  "json_response st v = \<lparr>status = st, headers = [(''content-type'', ''application/json'')], body = Some v\<rparr>"

definition fail :: "nat \<Rightarrow> string \<Rightarrow> response" where
  "fail st msg = json_response st (JObj [(''error'', JStr msg)])"

text \<open>\<open>str::eq_ignore_ascii_case\<close>.\<close>

definition ascii_lower :: "char \<Rightarrow> char" where
  "ascii_lower c = (let n = of_char c :: nat in if 65 \<le> n \<and> n \<le> 90 then char_of (n + 32) else c)"

definition eq_ignore_ascii_case :: "string \<Rightarrow> string \<Rightarrow> bool" where
  "eq_ignore_ascii_case x y \<longleftrightarrow> map ascii_lower x = map ascii_lower y"

definition is_upgrade :: "request \<Rightarrow> bool" where
  "is_upgrade req =
     (case req_header req ''upgrade'' of
        Some v \<Rightarrow> eq_ignore_ascii_case v ''websocket''
      | None \<Rightarrow> False)"

text \<open>
  \<open>tunnel\<close>: the response, and whether a tunnel task was spawned. SHA-1 and Base64 are the
  arguments of \<open>accept_key\<close>.
\<close>

definition tunnel :: "(string \<Rightarrow> bytes) \<Rightarrow> (bytes \<Rightarrow> string) \<Rightarrow> request \<Rightarrow> response \<times> bool" where
  "tunnel sha1 b64 req =
     (case req_header req ''sec-websocket-key'' of
        None \<Rightarrow> (fail 400 ''missing Sec-WebSocket-Key'', False)
      | Some k \<Rightarrow>
          (\<lparr>status = 101,
            headers = [(''connection'', ''Upgrade''), (''upgrade'', ''websocket''),
                       (''sec-websocket-accept'', accept_key sha1 b64 k)],
            body = None\<rparr>, True))"

definition handle :: "(string \<Rightarrow> bytes) \<Rightarrow> (bytes \<Rightarrow> string) \<Rightarrow> request \<Rightarrow> response \<times> bool" where
  "handle sha1 b64 req =
     (if req_path req = ''/tunnel'' \<and> is_upgrade req then tunnel sha1 b64 req
      else if req_path req = ''/health'' then (json_response 200 (JObj [(''ok'', JBool True)]), False)
      else (fail 404 ''no such route'', False))"

section \<open>The tunnel task\<close>

text \<open>
  The task behind an answered upgrade: the upgrade may fail, and the preamble is read under a
  deadline. \<open>Some head\<close> is the call of \<open>serve_client\<close>.
\<close>

definition tunnel_task :: "bool \<Rightarrow> bytes result option \<Rightarrow> bytes option" where
  "tunnel_task upgraded preamble =
     (if \<not> upgraded then None
      else (case preamble of
              Some (Inr head) \<Rightarrow>
                if take 4 head \<noteq> MAGIC_CLIENT \<or> head ! 4 \<noteq> VERSION then None else Some head
            | _ \<Rightarrow> None))"

text \<open>
  \<open>read_exact\<close> on the WebSocket, one poll: it polls the stream for what is missing until it
  has \<open>n\<close> bytes, and keeps what it has when the stream is \<open>Pending\<close>.
\<close>

lemma poll_read_length:
  assumes "poll_read n s = (s', a)" and "a = Ready (Inr bs)"
  shows "length bs \<le> n"
  using assms by (induction rule: poll_read_induct) auto

function ws_read_exact :: "nat \<Rightarrow> ws_stream \<Rightarrow> ws_stream \<times> bytes \<times> unit result poll" where
  "ws_read_exact n s =
     (if n = 0 then (s, [], Ready (Inr ()))
      else (case poll_read n s of
              (s', Ready (Inr bs)) \<Rightarrow>
                if bs = [] then (s', [], Ready (Inl (IoError UnexpectedEof ''early eof'')))
                else (case ws_read_exact (n - length bs) s' of (s'', rest, r) \<Rightarrow> (s'', bs @ rest, r))
            | (s', Ready (Inl e)) \<Rightarrow> (s', [], Ready (Inl e))
            | (s', Pending) \<Rightarrow> (s', [], Pending)))"
  by pat_completeness auto
termination
  by (relation "measure fst") auto

declare ws_read_exact.simps [simp del]

lemma ws_read_exact_read:
  "ws_read_exact n s = (s', xs, r) \<Longrightarrow> read_inv d s \<Longrightarrow> r = Ready (Inr ()) \<or> r = Pending \<Longrightarrow>
   read_inv (d @ xs) s' \<and> length xs \<le> n \<and> (r = Ready (Inr ()) \<longrightarrow> length xs = n)"
proof (induction n s arbitrary: d xs rule: ws_read_exact.induct)
  case (1 n s)
  show ?case
  proof (cases "n = 0")
    case True
    with "1.prems" show ?thesis by (simp add: ws_read_exact.simps)
  next
    case False
    obtain s1 a where p: "poll_read n s = (s1, a)" by fastforce
    note refines = poll_read_refines [OF p "1.prems"(2)]
    consider (some) bs where "a = Ready (Inr bs)" "bs \<noteq> []" | (pending) "a = Pending"
      using "1.prems"(1,3) False p
      by (subst (asm) ws_read_exact.simps) (auto split: poll.splits sum.splits if_splits)
    then show ?thesis
    proof cases
      case some
      obtain rest where rest: "ws_read_exact (n - length bs) s1 = (s', rest, r)" and xs: "xs = bs @ rest"
        using "1.prems"(1) False p some by (subst (asm) ws_read_exact.simps) (auto split: prod.splits)
      have "read_inv (d @ bs) s1" using refines some by simp
      from "1.IH" [OF False p [symmetric] some(1) refl some(2) rest this "1.prems"(3)]
      show ?thesis using poll_read_length [OF p some(1)] by (auto simp: xs)
    next
      case pending
      with "1.prems"(1) False p have "s' = s1" "xs = []" "r = Pending"
        by (subst (asm) ws_read_exact.simps; simp)+
      with refines pending show ?thesis by simp
    qed
  qed
qed

lemma ws_read_exact_write:
  "ws_read_exact n s = (s', xs, r) \<Longrightarrow> write_inv w s \<Longrightarrow> write_inv w s'"
proof (induction n s arbitrary: xs rule: ws_read_exact.induct)
  case (1 n s)
  obtain s1 a where p: "poll_read n s = (s1, a)" by fastforce
  have w: "write_inv w s1" by (rule write_inv_poll_read [OF p "1.prems"(2)])
  consider "s' = s1" | "s' = s" | bs rest where "n \<noteq> 0" "a = Ready (Inr bs)" "bs \<noteq> []"
      "ws_read_exact (n - length bs) s1 = (s', rest, r)"
    using "1.prems"(1) p
    by (subst (asm) ws_read_exact.simps) (auto split: if_splits poll.splits sum.splits prod.splits)
  then show ?case
  proof cases
    case (3 bs rest)
    from "1.IH" [OF 3(1) p [symmetric] 3(2) refl 3(3,4) w] show ?thesis .
  qed (use w "1.prems"(2) in simp_all)
qed

text \<open>The preamble, and then any use of the stream.\<close>

lemma ws_preamble_inv:
  assumes "taken k = []" and "sent k = []"
    and "ws_read_exact HEAD_LEN (ws_new k) = (s, head, Ready (Inr ()))"
    and "ws_run cs s = Some (d, w, s')"
  shows "length head = HEAD_LEN \<and> read_inv (head @ d) s'"
proof -
  have "read_inv ([] @ head) s \<and> write_inv [] s \<and> length head = HEAD_LEN"
    using ws_read_exact_read [OF assms(3), of "[]"] ws_read_exact_write [OF assms(3), of "[]"] assms(1,2) by simp
  with ws_run_inv [OF assms(4)] show ?thesis by auto
qed

section \<open>Properties\<close>



text \<open>
  The preamble of a tunnel is the first 37 bytes of what the phone sends, however its
  WebSocket frames and the socket cut them, and nothing behind it is lost: after it has been
  read, the reads of any later use of the stream continue the phone's byte stream at the 38th
  byte.
\<close>

theorem preamble_from_websocket:
  assumes "taken k = []" and "sent k = []"
    and "ws_read_exact HEAD_LEN (ws_new k) = (s, head, Ready (Inr ()))"
    and "ws_run cs s = Some (d, w, s')"
  shows "length head = HEAD_LEN \<and> prefix (head @ d) (payload_stream (taken (inner s')))"
  using ws_preamble_inv [OF assms] by (simp add: read_inv_prefix)

text \<open>A phone whose preamble comes in two frames, cut in the middle of the second.\<close>

definition demo_phone :: sock where
  "demo_phone =
     \<lparr>rd = [RdData (client_frame True [1, 2, 3, 4] OP_BINARY (MAGIC_CLIENT @ [VERSION])
               @ take 9 (client_frame True [5, 6, 7, 8] OP_BINARY (replicate 33 7))),
            RdData (drop 9 (client_frame True [5, 6, 7, 8] OP_BINARY (replicate 33 7)))],
      wr = [], ctl = [], taken = [], sent = []\<rparr>"

theorem preamble_from_websocket_witness:
  "\<exists>s head d w s'. ws_read_exact HEAD_LEN (ws_new demo_phone) = (s, head, Ready (Inr ()))
    \<and> ws_run [Read 8] s = Some (d, w, s') \<and> d = [7]
    \<and> length head = HEAD_LEN \<and> prefix (head @ d) (payload_stream (taken (inner s')))"
proof -
  have "case ws_read_exact HEAD_LEN (ws_new demo_phone) of
      (s, head, r) \<Rightarrow> r = Ready (Inr ()) \<and> (case ws_run [Read 8] s of None \<Rightarrow> False | Some (d, w, s') \<Rightarrow> d = [7])"
    by code_simp
  then obtain s head d w s' where rd: "ws_read_exact HEAD_LEN (ws_new demo_phone) = (s, head, Ready (Inr ()))"
    and run: "ws_run [Read 8] s = Some (d, w, s')" and d: "d = [7]"
    by (auto simp del: ws_run.simps split: prod.splits option.splits)
  have "taken demo_phone = []" "sent demo_phone = []"
    by (simp_all add: demo_phone_def)
  from preamble_from_websocket [OF this rd run] rd run d show ?thesis by blast
qed

text \<open>
  Only a client preamble opens a tunnel: the task goes on to splice exactly when the
  upgrade succeeded and the preamble arrived in time with the client magic and the protocol
  version, and no preamble passes both as a client and as a bridge.
\<close>

theorem tunnel_admits_clients_only:
  assumes "length head = HEAD_LEN"
  shows "(tunnel_task upgraded preamble = Some head \<longleftrightarrow>
      upgraded \<and> preamble = Some (Inr head) \<and> take 5 head = MAGIC_CLIENT @ [VERSION])
    \<and> (take 5 head = MAGIC_CLIENT @ [VERSION] \<longrightarrow> serve (Some (Inr head)) = Ignored)"
proof -
  have "5 \<le> length head"
    using assms by (simp add: wire_consts)
  then obtain a b c d e t where "head = a # b # c # d # e # t"
    by (auto simp: eval_nat_numeral Suc_le_length_iff)
  then show ?thesis
    by (auto simp: tunnel_task_def serve_def MAGIC_CLIENT_def MAGIC_BRIDGE_def split: option.splits sum.splits)
qed

theorem tunnel_admits_clients_only_witness:
  "tunnel_task True (Some (Inr (MAGIC_CLIENT @ VERSION # replicate 32 7))) = Some (MAGIC_CLIENT @ VERSION # replicate 32 7)"
  using tunnel_admits_clients_only [of "MAGIC_CLIENT @ VERSION # replicate 32 7" True
      "Some (Inr (MAGIC_CLIENT @ VERSION # replicate 32 7))"]
  by (simp add: wire_consts MAGIC_CLIENT_def)

end
