(* ===== verification/Mux_Faults.thy ===== *)
theory Mux_Faults
  imports Mux_Props Noise
begin

text \<open>
  Two behaviours of the session that its comments do not promise: a peer can drive the credit
  counter into its overflow panic, and \<open>StreamTx::close\<close> leaves a sender that waits for
  credit waiting. Also the head of a frame, as the encoder writes it and the reader parses it.
\<close>

section \<open>Frame heads\<close>

lemma unat_u32_less: "unat (i :: u32) < 256 ^ 4"
proof -
  have "unat i < 2 ^ LENGTH(32)" by (rule unsigned_less)
  then show ?thesis by simp
qed

lemma length_4D: "length xs = 4 \<Longrightarrow> xs = [xs ! 0, xs ! 1, xs ! 2, xs ! 3]"
  by (simp add: list_eq_iff_nth_eq less_Suc_eq numeral_eq_Suc)

lemma to_be_4_nth: "[to_be 4 v ! 0, to_be 4 v ! 1, to_be 4 v ! 2, to_be 4 v ! 3] = to_be 4 v"
  using length_4D [of "to_be 4 v"] by simp

lemma parse_frame_bytes: "parse_frame (frame_bytes f) = Inr (frame_id f, frame_kind f, frame_payload f)"
proof -
  let ?h = "to_be 4 (unat (frame_id f))"
  have "from_be ?h = unat (frame_id f)"
    by (rule from_be_to_be) (rule unat_u32_less)
  then show ?thesis
    using to_be_4_nth [of "unat (frame_id f)"]
    by (simp add: parse_frame_def frame_bytes_def wire_consts nth_append to_be_2)
qed

section \<open>Grants without end\<close>

text \<open>The peer repeats one frame \<open>n\<close> times; \<open>None\<close> is the panic.\<close>

fun flood :: "('q, 'b, 'o) runtime \<Rightarrow> bytes \<Rightarrow> nat \<Rightarrow> ('q, 'b, 'o) mux_session \<Rightarrow> ('q, 'b, 'o) mux_session option" where
  "flood rt frm 0 s = Some s"
| "flood rt frm (Suc n) s =
     (case handle_frame rt frm s of
        (s', Panicked, _) \<Rightarrow> None
      | (s', _, _) \<Rightarrow> flood rt frm n s')"

lemma handle_grant:
  assumes "i \<noteq> 0" and "map_of (streams s) i = Some a"
  shows "handle_frame rt (frame_bytes (grant_frame i n)) s =
     (case sem_add (sem rt) (unat n) (credit (shared s ! a)) of
        Some q \<Rightarrow> (s\<lparr>shared := (shared s)[a := (shared s ! a)\<lparr>credit := q\<rparr>]\<rparr>, Continue, None)
      | None \<Rightarrow> (s, Panicked, None))"
proof -
  have "of_nat (from_be (to_be 4 (unat n))) = n"
    using from_be_to_be [OF unat_u32_less, of n] by simp
  then show ?thesis
    using assms
    by (simp add: handle_frame_def parse_frame_bytes grant_frame_def handle_window_def split: option.splits)
qed

lemma flood_cred:
  assumes "sem_laws (sem rt)" and "i \<noteq> 0" and "0 < unat g"
  shows "map_of (streams s) i = Some a \<Longrightarrow> a < length (shared s) \<Longrightarrow>
    flood rt (frame_bytes (grant_frame i g)) n s = Some s' \<Longrightarrow> n = 0 \<or> cred rt s a + n \<le> max_permits (sem rt)"
proof (induction n arbitrary: s)
  case 0
  then show ?case by simp
next
  case (Suc n)
  obtain q where q: "sem_add (sem rt) (unat g) (credit (shared s ! a)) = Some q"
    and rest: "flood rt (frame_bytes (grant_frame i g)) n (s\<lparr>shared := (shared s)[a := (shared s ! a)\<lparr>credit := q\<rparr>]\<rparr>) = Some s'"
    using Suc.prems by (auto simp: handle_grant [OF assms(2)] split: option.splits)
  note add = sem_add_laws(1) [OF assms(1) q]
  from Suc.IH [OF _ _ rest] Suc.prems(1,2) add assms(3) show ?case
    by (auto simp: cred_def)
qed

section \<open>A stream that has left the table\<close>

definition orphan :: "('q, 'b, 'o) mux_session \<Rightarrow> addr \<Rightarrow> bool" where
  "orphan s a \<longleftrightarrow> a < length (shared s) \<and> a \<notin> snd ` set (streams s)"

text \<open>Nothing but its own sender reaches the credit of such a stream.\<close>

definition same_credit :: "('q, 'b, 'o) mux_session \<Rightarrow> ('q, 'b, 'o) mux_session \<Rightarrow> addr \<Rightarrow> bool" where
  "same_credit s s' a \<longleftrightarrow> orphan s' a \<and> credit (shared s' ! a) = credit (shared s ! a)"

lemma same_credit_refl [simp]: "same_credit s s a \<longleftrightarrow> orphan s a"
  by (simp add: same_credit_def)

lemma same_credit_trans: "same_credit s s' a \<Longrightarrow> same_credit s' s'' a \<Longrightarrow> same_credit s s'' a"
  by (simp add: same_credit_def)

lemma same_credit_orphan: "same_credit s s' a \<Longrightarrow> orphan s' a"
  by (simp add: same_credit_def)

lemma same_credit_simple [simp]:
  "same_credit s (s'\<lparr>out := c\<rparr>) a = same_credit s s' a"
  "same_credit s (s'\<lparr>budget := q\<rparr>) a = same_credit s s' a"
  "same_credit s (s'\<lparr>next_id := i\<rparr>) a = same_credit s s' a" "same_credit s (s'\<lparr>on_open := h\<rparr>) a = same_credit s s' a"
  by (simp_all add: same_credit_def orphan_def)

lemma same_credit_inbox:
  "orphan s a \<Longrightarrow> same_credit s (s\<lparr>shared := (shared s)[b := (shared s ! b)\<lparr>inbox := c\<rparr>]\<rparr>) a"
  by (cases "b = a") (auto simp: same_credit_def orphan_def)

lemma orphan_other: "orphan s a \<Longrightarrow> map_of (streams s) i = Some b \<Longrightarrow> b \<noteq> a"
  by (auto simp: orphan_def dest: map_of_in_table)

lemma same_credit_other:
  "orphan s a \<Longrightarrow> map_of (streams s) i = Some b \<Longrightarrow> same_credit s (s\<lparr>shared := (shared s)[b := c]\<rparr>) a"
  using orphan_other [of s a i b] by (auto simp: same_credit_def orphan_def)

lemma same_credit_remove: "orphan s a \<Longrightarrow> same_credit s (remove_stream rt i s) a"
  using orphan_other [of s a i]
  by (auto simp: remove_stream_def drop_state_def same_credit_def orphan_def set_alist_delete
      split: option.splits)

lemma same_credit_drop:
  assumes "orphan s a"
  shows "same_credit s (drop_stream rt i s) a"
proof (cases "map_of (streams s) i")
  case (Some b)
  note q = same_credit_other [OF assms Some]
  from same_credit_trans [OF q same_credit_remove [OF same_credit_orphan [OF q]]] Some show ?thesis
    by (simp add: drop_stream_def)
qed (use assms in \<open>simp add: drop_stream_def\<close>)

lemma same_credit_drop_all: "orphan s a \<Longrightarrow> same_credit s (drop_all rt s) a"
proof -
  have "orphan s a \<Longrightarrow> same_credit s (fold (\<lambda>(i, a). drop_stream rt i) xs s) a" for xs s
  proof (induction xs arbitrary: s)
    case (Cons x xs)
    have q: "same_credit s (drop_stream rt (fst x) s) a"
      using Cons.prems by (rule same_credit_drop)
    from same_credit_trans [OF q Cons.IH [OF same_credit_orphan [OF q]]] show ?case
      by (simp add: case_prod_unfold)
  qed simp
  then show "orphan s a \<Longrightarrow> same_credit s (drop_all rt s) a" by (simp add: drop_all_def)
qed

lemma same_credit_insert:
  assumes "orphan s a" and "insert_stream rt i s = (s', b)"
  shows "same_credit s s' a \<and> a < b"
  using same_credit_remove [OF assms(1), of rt i] assms
  by (auto simp: insert_stream_def Let_def same_credit_def orphan_def nth_append set_alist_delete)

lemma same_credit_frame:
  assumes "orphan s a" and "handle_frame rt frm s = (s', nx, tx)"
  shows "same_credit s s' a"
proof -
  have op: "same_credit s s' a" if "handle_open rt i s = (s', nx, tx)" for i
  proof (cases "sem_acquire (sem rt) 1 (budget s)")
    case (Acquired q)
    obtain s1 b where ins: "insert_stream rt i (s\<lparr>budget := q\<rparr>) = (s1, b)" by fastforce
    have "orphan (s\<lparr>budget := q\<rparr>) a" using assms(1) by (simp add: orphan_def)
    from same_credit_insert [OF this ins] have "same_credit s s1 a" by (simp add: same_credit_def)
    with that Acquired ins show ?thesis
      by (auto simp: handle_open_def split: if_splits
          intro: same_credit_trans same_credit_inbox same_credit_orphan)
  qed (use that assms(1) in \<open>simp_all add: handle_open_def\<close>)
  have data: "same_credit s s' a" if "handle_data rt i body s = (s', nx)" for i body
    using that assms(1)
    by (auto simp: handle_data_def same_credit_inbox same_credit_drop split: option.splits sending.splits)
  have win: "same_credit s s' a" if "handle_window rt i n s = (s', nx)" for i n
    using that assms(1)
    by (auto simp: handle_window_def split: option.splits intro: same_credit_other)
  show ?thesis
    using assms same_credit_drop [OF assms(1)]
    by (auto simp: handle_frame_def split: sum.splits prod.splits if_splits intro: op data win)
qed

lemma same_credit_send: "orphan s a \<Longrightarrow> session_send rt f s = (s', r) \<Longrightarrow> same_credit s s' a"
  by (auto simp: session_send_def split: sending.splits)

lemma same_credit_announce:
  assumes "orphan s a" and "open_announce rt tx s = (s', r)"
  shows "same_credit s s' a"
proof -
  obtain s1 r1 where send: "session_send rt (control (tx_id tx) KIND_OPEN) s = (s1, r1)"
    by fastforce
  note q = same_credit_send [OF assms(1) send]
  from same_credit_trans [OF q same_credit_remove [OF same_credit_orphan [OF q]]] q assms(2) send
  show ?thesis by (auto simp: open_announce_def split: poll.splits sum.splits)
qed

text \<open>
  One step of any task leaves the gate of such a stream open, and its credit where it was or,
  if its own sender paid for a frame, lower.
\<close>

definition stranded :: "('q, 'b, 'o) runtime \<Rightarrow> ('q, 'b, 'o) mux_session \<Rightarrow> addr \<Rightarrow> nat \<Rightarrow> bool" where
  "stranded rt s a n \<longleftrightarrow> orphan s a \<and> \<not> gate_closed rt s a \<and> cred rt s a \<le> n"

lemma stranded_same: "stranded rt s a n \<Longrightarrow> same_credit s s' a \<Longrightarrow> stranded rt s' a n"
  by (simp add: stranded_def same_credit_def gate_closed_def cred_def)

lemma stranded_pay:
  assumes "sem_laws (sem rt)" and "stranded rt s a n" and "tx_step rt tx (data, None) s = Step (s', fut)"
  shows "stranded rt s' a n"
proof -
  let ?k = "min (length data) MAX_PAYLOAD" and ?st = "shared s ! tx_addr tx"
  obtain q where q: "sem_acquire (sem rt) ?k (credit ?st) = Acquired q"
    and s': "s' = s\<lparr>shared := (shared s)[tx_addr tx := ?st\<lparr>credit := q\<rparr>]\<rparr>"
    using assms(3) by (auto simp: tx_step_def Let_def unat_take_u32 split: if_splits acquired.splits)
  from sem_acquire_laws(1) [OF assms(1) q] assms(2) show ?thesis
    by (cases "tx_addr tx = a") (auto simp: s' stranded_def orphan_def gate_closed_def cred_def)
qed

lemma stranded_step:
  assumes laws: "sem_laws (sem rt)" and st: "stranded rt (ses w) a n" and "mux_step rt w l w'"
  shows "stranded rt (ses w') a n"
proof -
  have o: "orphan (ses w) a" using st by (simp add: stranded_def)
  note same = stranded_same [OF st]
  from assms(3) show ?thesis
  proof cases
    case (reserve xs ys s)
    then show ?thesis
      by (auto intro!: same simp: open_reserve_def o split: acquired.splits)
  next
    case (number xs ys s i)
    then show ?thesis by (auto intro!: same simp: open_number_def o)
  next
    case (register xs i ys s tx)
    then show ?thesis
      by (auto intro!: same simp: open_insert_def split: prod.splits dest: same_credit_insert [OF o])
  next
    case (announce xs tx ys s r)
    then show ?thesis by (auto intro!: same intro: same_credit_announce [OF o])
  next
    case (pay xs tx data ys s fut)
    then show ?thesis by (auto intro: stranded_pay [OF laws st])
  next
    case (push xs tx data f ys s fut)
    then show ?thesis
      using tx_step_push [of rt tx data f "ses w" s "fst fut" "snd fut"]
      by (auto intro!: same intro: same_credit_send [OF o])
  next
    case (frame frm s nx tx)
    then show ?thesis by (auto intro!: same intro: same_credit_frame [OF o])
  next
    case (reader_send f s r)
    then show ?thesis by (auto intro!: same intro: same_credit_send [OF o])
  next
    case reader_ends
    then show ?thesis by (auto intro!: same same_credit_drop_all o)
  next
    case (writer s f)
    then show ?thesis by (auto intro!: same simp: writer_take_def o split: received.splits)
  next
    case (control_frame f s r)
    then show ?thesis by (auto intro!: same intro: same_credit_send [OF o])
  next
    case (close tx s f)
    then show ?thesis by (auto intro!: same same_credit_remove o simp: tx_close_def)
  next
    case (close_now i)
    then show ?thesis
      by (auto intro!: same same_credit_drop o simp: close_stream_def Let_def split: sending.splits)
  next
    case (receive b s r)
    then show ?thesis
      by (auto intro!: same simp: rx_recv_def o split: received.splits intro: same_credit_inbox [OF o])
  next
    case (rx_drops b)
    then show ?thesis by (auto intro!: same same_credit_inbox o)
  next
    case shut_down
    then show ?thesis by (auto intro!: same same_credit_drop_all o simp: shutdown_def Let_def)
  qed (use st same o in \<open>auto simp: register_handler_def\<close>)
qed

lemma stranded_steps:
  assumes "sem_laws (sem rt)" and "(\<lambda>w w'. \<exists>l. mux_step rt w l w')\<^sup>*\<^sup>* w w'" and "stranded rt (ses w) a n"
  shows "stranded rt (ses w') a n"
  using assms(2,3) by induction (auto intro: stranded_step [OF assms(1)])

lemma stranded_waits:
  assumes "sem_laws (sem rt)" and "stranded rt s (tx_addr tx) n" and "n < min (length data) MAX_PAYLOAD"
  shows "tx_step rt tx (data, None) s = Stop Pending"
proof -
  let ?k = "min (length data) MAX_PAYLOAD" and ?q = "credit (shared s ! tx_addr tx)"
  have "sem_acquire (sem rt) ?k ?q = NoPermits"
    using assms(2,3) sem_acquire_laws [OF assms(1), of ?k ?q]
    by (cases "sem_acquire (sem rt) ?k ?q") (auto simp: stranded_def gate_closed_def cred_def)
  with assms(3) show ?thesis by (auto simp: tx_step_def Let_def unat_take_u32)
qed

lemma tx_close_strands:
  assumes "sem_laws (sem rt)" and "table_ok rt s" and "map_of (streams s) (tx_id tx) = Some (tx_addr tx)"
    and "\<not> gate_closed rt s (tx_addr tx)"
  shows "stranded rt (fst (tx_close rt tx s)) (tx_addr tx) (cred rt s (tx_addr tx))"
proof -
  have "tx_addr tx < length (shared s)"
    using assms(2) map_of_in_table [OF assms(3)] by (auto simp: table_ok_def)
  moreover have "tx_addr tx \<notin> snd ` set (AList.delete (tx_id tx) (streams s))"
    using assms(2,3) by (simp add: table_ok_def snd_notin_delete)
  ultimately show ?thesis
    using assms(3,4)
    by (auto simp: stranded_def orphan_def tx_close_def remove_stream_def drop_state_def gate_closed_def cred_def)
qed

section \<open>Properties\<close>

text \<open>
  C38. A bridge can make the reader panic. On any link with a stream in its table, the same
  WINDOW frame repeated often enough drives the stream's semaphore past \<open>MAX_PERMITS\<close>, where
  \<open>add_permits\<close> panics: nothing bounds the credit a peer may grant.
\<close>

theorem grants_overflow:
  assumes "runtime_laws rt" and "mux_run rt max_streams handler ls w"
    and "map_of (streams (ses w)) i = Some a" and "i \<noteq> 0" and "0 < unat g"
  shows "flood rt (frame_bytes (grant_frame i g)) (Suc (max_permits (sem rt))) (ses w) = None"
proof (rule ccontr)
  note laws = mux_run_facts(1) [OF assms(1,2)] and ok = mux_run_facts(3) [OF assms(1,2)]
  have a: "a < length (shared (ses w))"
    using ok map_of_in_table [OF assms(3)] by (auto simp: table_ok_def)
  assume "flood rt (frame_bytes (grant_frame i g)) (Suc (max_permits (sem rt))) (ses w) \<noteq> None"
  then obtain s' where "flood rt (frame_bytes (grant_frame i g)) (Suc (max_permits (sem rt))) (ses w) = Some s'"
    by blast
  from flood_cred [OF laws assms(4,5,3) a this] show False by simp
qed

theorem grants_overflow_witness:
  "flood demo_rt (frame_bytes (grant_frame 1 4294967295)) (Suc (max_permits (sem demo_rt))) demo_open_session = None"
proof -
  have "map_of (streams demo_open_session) 1 = Some 0"
    by (simp add: demo_open_session_def)
  with grants_overflow [OF demo_rt_laws demo_opened, of 1 0 4294967295] show ?thesis
    by (simp del: flood.simps)
qed

text \<open>
  C39. \<open>StreamTx::close\<close> does not wake a sender. A sender of the stream that waits for credit
  when \<open>close\<close> takes the stream out of the table waits for ever: whatever any task does
  afterwards, shutting the whole link down included, its next poll is \<open>Pending\<close> again.
\<close>

theorem close_strands_sender:
  assumes "runtime_laws rt" and "mux_run rt max_streams handler ls w"
    and "map_of (streams (ses w)) (tx_id tx) = Some (tx_addr tx)"
    and "\<not> gate_closed rt (ses w) (tx_addr tx)"
    and "cred rt (ses w) (tx_addr tx) < min (length data) MAX_PAYLOAD"
    and "(\<lambda>w w'. \<exists>l. mux_step rt w l w')\<^sup>*\<^sup>* (w\<lparr>ses := fst (tx_close rt tx (ses w))\<rparr>) w'"
  shows "tx_poll rt tx (data, None) (ses w') = (ses w', (data, None), Pending)"
proof -
  note laws = mux_run_facts(1) [OF assms(1,2)]
  have "stranded rt (fst (tx_close rt tx (ses w))) (tx_addr tx) (cred rt (ses w) (tx_addr tx))"
    by (rule tx_close_strands [OF laws mux_run_facts(3) [OF assms(1,2)] assms(3,4)])
  then have "stranded rt (ses w') (tx_addr tx) (cred rt (ses w) (tx_addr tx))"
    using stranded_steps [OF laws assms(6)] by simp
  from stranded_waits [OF laws this assms(5)] show ?thesis by (simp add: tx_poll.simps)
qed

text \<open>A link whose one stream has used up its window.\<close>

abbreviation (input) spent :: "nat \<Rightarrow> (nat \<times> bool, bytes list_chan, frame list_chan) mux_session" where
  "spent k \<equiv> demo_open_session\<lparr>shared := [\<lparr>inbox = ([], 1024, True, True), credit = (262144 - k * 16384, False)\<rparr>]\<rparr>"

lemma demo_spent: "k \<le> 16 \<Longrightarrow> \<exists>ls. mux_run demo_rt 1 False ls (idle (spent k))"
proof (induction k)
  case 0
  have "idle (spent 0) = idle demo_open_session"
    by (simp add: demo_open_session_def)
  then show ?case using demo_opened by auto
next
  case (Suc k)
  then obtain ls where run: "mux_run demo_rt 1 False ls (idle (spent k))" by auto
  let ?tx = "\<lparr>tx_id = 1, tx_addr = 0\<rparr>" and ?d = "replicate 16384 (0 :: u8)"
  let ?f = "\<lparr>frame_id = 1, frame_kind = KIND_DATA, frame_payload = ?d\<rparr>"
  have "mux_run demo_rt 1 False (ls @ [Tau]) ((idle (spent k))\<lparr>sends := [(?tx, ?d, None)]\<rparr>)"
    using mux_run.stepped [OF run mux_step.begin_send [of _ "[]" "[]" ?tx demo_rt ?d]] by (simp add: demo_open_session_def)
  moreover have "tx_step demo_rt ?tx (?d, None) (spent k) = Step (spent (Suc k), ([], Some ?f))"
    using Suc.prems by (simp add: tx_step_def Let_def demo_eval)
  ultimately have "mux_run demo_rt 1 False (ls @ [Tau, Tau]) ((idle (spent (Suc k)))\<lparr>sends := [(?tx, [], Some ?f)]\<rparr>)"
    using mux_run.stepped [OF _ mux_step.pay [of _ "[]" ?tx ?d "[]" demo_rt "spent (Suc k)" "([], Some ?f)"]]
    by fastforce
  from mux_run.stepped [OF this mux_step.abandon [of _ "[]" ?tx "[]" ?f "[]"]] show ?case by auto
qed

theorem close_strands_sender_witness:
  "tx_poll demo_rt \<lparr>tx_id = 1, tx_addr = 0\<rparr> ([5], None) (shutdown demo_rt (fst (tx_close demo_rt \<lparr>tx_id = 1, tx_addr = 0\<rparr> (spent 16))))
     = (shutdown demo_rt (fst (tx_close demo_rt \<lparr>tx_id = 1, tx_addr = 0\<rparr> (spent 16))), ([5], None), Pending)"
proof -
  let ?tx = "\<lparr>tx_id = 1, tx_addr = 0\<rparr>" and ?w = "idle (spent 16)"
  obtain ls where run: "mux_run demo_rt 1 False ls ?w" using demo_spent [of 16] by auto
  let ?w' = "(?w\<lparr>ses := fst (tx_close demo_rt ?tx (ses ?w))\<rparr>)\<lparr>ses := shutdown demo_rt (fst (tx_close demo_rt ?tx (ses ?w))), reader := Gone\<rparr>"
  have "mux_step demo_rt (?w\<lparr>ses := fst (tx_close demo_rt ?tx (ses ?w))\<rparr>) Tau ?w'"
    using mux_step.shut_down [of demo_rt "?w\<lparr>ses := fst (tx_close demo_rt ?tx (ses ?w))\<rparr>"] by simp
  then have "(\<lambda>w w'. \<exists>l. mux_step demo_rt w l w')\<^sup>*\<^sup>* (?w\<lparr>ses := fst (tx_close demo_rt ?tx (ses ?w))\<rparr>) ?w'"
    by blast
  from close_strands_sender [OF demo_rt_laws run _ _ _ this, of "[5]"] show ?thesis
    by (simp add: gate_closed_def cred_def demo_eval)
qed

end
