(* ===== verification/Mux_Bounds.thy ===== *)
theory Mux_Bounds
  imports Mux_Faults
begin

text \<open>
  The memory of a session: neither the outbox nor the inbox of any stream ever holds more than
  its capacity, in any interleaving. Also what happens to a stream opened while the link is
  being torn down.
\<close>

section \<open>Bounded channels\<close>

text \<open>A channel that holds at most \<open>n\<close> messages, and never will hold more.\<close>

definition small :: "('c, 'a) chan_ops \<Rightarrow> nat \<Rightarrow> 'c \<Rightarrow> bool" where
  "small ops n c \<longleftrightarrow> length (ch_items ops c) \<le> n \<and> (ch_rx_open ops c \<longrightarrow> ch_cap ops c \<le> n)"

lemma small_ops:
  assumes "chan_laws ops"
  shows "0 < n \<Longrightarrow> small ops n (ch_new ops n)"
    and "small ops n c \<Longrightarrow> ch_try_send ops x c = SendOk c' \<Longrightarrow> small ops n c'"
    and "small ops n c \<Longrightarrow> ch_rx_open ops c \<Longrightarrow> ch_recv ops c = Got x c' \<Longrightarrow> small ops n c'"
    and "small ops n c \<Longrightarrow> small ops n (ch_drop_tx ops c)"
    and "small ops n c \<Longrightarrow> small ops n (ch_drop_rx ops c)"
  using ch_new_laws [OF assms, of n] ch_try_send_laws(1) [OF assms, of x c c'] ch_recv_laws(1) [OF assms, of c x c']
    ch_drop_laws [OF assms, of c]
  by (auto simp: small_def ch_view_def)

definition bounded :: "('q, 'b, 'o) runtime \<Rightarrow> ('q, 'b, 'o) mux_session \<Rightarrow> bool" where
  "bounded rt s \<longleftrightarrow> small (outch rt) OUTBOX_FRAMES (out s)
     \<and> (\<forall>st \<in> set (shared s). small (inch rt) INBOX_FRAMES (inbox st))"

lemma bounded_fields [simp]:
  "bounded rt (s\<lparr>streams := t\<rparr>) = bounded rt s" "bounded rt (s\<lparr>next_id := i\<rparr>) = bounded rt s"
  "bounded rt (s\<lparr>budget := b\<rparr>) = bounded rt s" "bounded rt (s\<lparr>on_open := h\<rparr>) = bounded rt s"
  by (simp_all add: bounded_def)

lemma bounded_out: "bounded rt s \<Longrightarrow> small (outch rt) OUTBOX_FRAMES c \<Longrightarrow> bounded rt (s\<lparr>out := c\<rparr>)"
  by (simp add: bounded_def)

lemma bounded_shared:
  assumes "bounded rt s" and "a < length (shared s) \<Longrightarrow> small (inch rt) INBOX_FRAMES (inbox st)"
  shows "bounded rt (s\<lparr>shared := (shared s)[a := st]\<rparr>)"
proof (cases "a < length (shared s)")
  case True
  then show ?thesis
    using assms set_update_subset_insert [of "shared s" a st] by (auto simp: bounded_def)
qed (simp add: assms(1) list_update_beyond)

lemma bounded_inbox: "bounded rt s \<Longrightarrow> a < length (shared s) \<Longrightarrow> small (inch rt) INBOX_FRAMES (inbox (shared s ! a))"
  by (simp add: bounded_def)

lemma bounded_remove_stream:
  "chan_laws (inch rt) \<Longrightarrow> bounded rt s \<Longrightarrow> bounded rt (remove_stream rt i s)"
  by (auto simp: remove_stream_def drop_state_def small_ops(4) bounded_inbox
      intro!: bounded_shared [of rt "s\<lparr>streams := t\<rparr>" for t, simplified] split: option.splits)

lemma bounded_drop_stream:
  "chan_laws (inch rt) \<Longrightarrow> bounded rt s \<Longrightarrow> bounded rt (drop_stream rt i s)"
  by (auto simp: drop_stream_def bounded_inbox intro!: bounded_remove_stream bounded_shared split: option.splits)

lemma bounded_drop_all:
  assumes "chan_laws (inch rt)"
  shows "bounded rt s \<Longrightarrow> bounded rt (drop_all rt s)"
proof -
  have "bounded rt s \<Longrightarrow> bounded rt (fold (\<lambda>(i, a). drop_stream rt i) xs s)" for xs
    by (induction xs arbitrary: s) (auto simp: bounded_drop_stream [OF assms])
  then show "bounded rt s \<Longrightarrow> bounded rt (drop_all rt s)" by (simp add: drop_all_def)
qed

lemma bounded_insert_stream:
  assumes "chan_laws (inch rt)" and "bounded rt s" and "insert_stream rt i s = (s', a)"
  shows "bounded rt s'"
proof -
  have "small (inch rt) INBOX_FRAMES (inbox (new_stream rt))"
    using small_ops(1) [OF assms(1), of INBOX_FRAMES] by (simp add: new_stream_def wire_consts)
  then show ?thesis
    using bounded_remove_stream [OF assms(1,2), of i] assms(3) by (auto simp: insert_stream_def bounded_def Let_def)
qed

lemma bounded_session_send:
  "chan_laws (outch rt) \<Longrightarrow> bounded rt s \<Longrightarrow> session_send rt f s = (s', r) \<Longrightarrow> bounded rt s'"
  by (auto simp: session_send_def bounded_def split: sending.splits dest: small_ops(2))

lemma bounded_close_stream:
  "runtime_laws rt \<Longrightarrow> bounded rt s \<Longrightarrow> bounded rt (close_stream rt i s)"
  using bounded_drop_stream [of rt s i]
  by (auto simp: close_stream_def runtime_laws_def bounded_def Let_def split: sending.splits dest: small_ops(2))

lemma bounded_handle_open:
  "chan_laws (inch rt) \<Longrightarrow> bounded rt s \<Longrightarrow> handle_open rt i s = (s', r) \<Longrightarrow> bounded rt s'"
  using bounded_insert_stream [of rt "s\<lparr>budget := b\<rparr>" i for b]
  by (auto simp: handle_open_def small_ops(5) bounded_inbox intro!: bounded_shared
      split: acquired.splits prod.splits if_splits)

lemma bounded_handle_data:
  "chan_laws (inch rt) \<Longrightarrow> bounded rt s \<Longrightarrow> handle_data rt i body s = (s', r) \<Longrightarrow> bounded rt s'"
  by (auto simp: handle_data_def bounded_drop_stream dest: small_ops(2) [rotated 2] bounded_inbox intro!: bounded_shared
      split: option.splits sending.splits)

lemma bounded_handle_window:
  "bounded rt s \<Longrightarrow> handle_window rt i g s = (s', r) \<Longrightarrow> bounded rt s'"
  by (auto simp: handle_window_def bounded_inbox intro!: bounded_shared split: option.splits)

lemma bounded_handle_frame:
  assumes "chan_laws (inch rt)" and "bounded rt s" and "handle_frame rt frm s = (s', nx, tx)"
  shows "bounded rt s'"
  using assms(2,3) bounded_handle_open [OF assms(1,2)] bounded_handle_data [OF assms(1,2)] bounded_handle_window [OF assms(2)]
  by (auto simp: handle_frame_def bounded_drop_stream [OF assms(1)] split: sum.splits prod.splits if_splits)

lemma bounded_tx_step:
  "chan_laws (outch rt) \<Longrightarrow> bounded rt s \<Longrightarrow> tx_step rt tx fut s = Step (s', fut') \<Longrightarrow> bounded rt s'"
  using bounded_session_send [of rt s]
  by (cases fut)
    (auto simp: tx_step_def Let_def bounded_inbox intro!: bounded_shared
      split: option.splits prod.splits poll.splits sum.splits if_splits acquired.splits)

lemma bounded_step:
  assumes laws: "runtime_laws rt" and step: "mux_step rt w l w'" and inv: "bounded rt (ses w)"
  shows "bounded rt (ses w')"
proof -
  have ins: "chan_laws (inch rt)" and outs: "chan_laws (outch rt)"
    using laws by (simp_all add: runtime_laws_def)
  note sends = bounded_session_send [OF outs inv] and takes = bounded_tx_step [OF outs inv]
    and drops = bounded_remove_stream [OF ins] bounded_drop_all [OF ins inv] bounded_close_stream [OF laws inv]
  have out_gone: "bounded rt (s\<lparr>out := ch_drop_rx (outch rt) (out s)\<rparr>)" if "bounded rt s" for s
    using that small_ops(5) [OF outs] by (simp add: bounded_def)
  show ?thesis
    using step
  proof cases
    case (reserve xs ys s)
    then show ?thesis using inv by (auto simp: open_reserve_def split: acquired.splits)
  next
    case (number xs ys s i)
    then show ?thesis using inv by (auto simp: open_number_def)
  next
    case (register xs i ys s tx)
    then show ?thesis
      using bounded_insert_stream [OF ins inv] by (auto simp: open_insert_def split: prod.splits)
  next
    case (announce xs tx ys s r)
    then show ?thesis
      using sends drops(1) by (auto simp: open_announce_def split: prod.splits poll.splits sum.splits)
  next
    case (pay xs tx data ys s fut)
    then show ?thesis using takes by (cases fut) auto
  next
    case (push xs tx data f ys s fut)
    then show ?thesis using takes by (cases fut) auto
  next
    case (frame frm s nx tx)
    then show ?thesis using bounded_handle_frame [OF ins inv] by simp
  next
    case (receive a s r)
    then show ?thesis using inv small_ops(3) [OF ins bounded_inbox [OF inv, of a]]
      by (auto simp: rx_recv_def intro!: bounded_shared split: received.splits)
  next
    case (rx_drops a)
    then show ?thesis using inv small_ops(5) [OF ins bounded_inbox [OF inv, of a]]
      by (auto intro!: bounded_shared)
  next
    case (writer s f)
    then show ?thesis using inv small_ops(3) [OF outs]
      by (auto simp: writer_take_def bounded_def split: received.splits)
  next
    case (close tx s f)
    then show ?thesis using drops(1) [OF inv] by (auto simp: tx_close_def)
  next
    case shut_down
    then show ?thesis using out_gone [OF drops(2)] by (simp add: shutdown_def Let_def)
  qed (use inv sends drops(2,3) out_gone in \<open>simp_all add: register_handler_def\<close>)
qed

lemma bounded_run:
  assumes laws: "runtime_laws rt" and "mux_run rt max_streams handler ls w"
  shows "bounded rt (ses w)"
  using assms(2)
proof induction
  case (started s)
  have "small (outch rt) OUTBOX_FRAMES (ch_new (outch rt) OUTBOX_FRAMES)"
    using laws by (intro small_ops(1)) (simp_all add: runtime_laws_def wire_consts)
  with started show ?case by (auto simp: start_def bounded_def split: if_splits)
next
  case (stepped ls w l w')
  then show ?case by (blast intro: bounded_step [OF laws])
qed

section \<open>A stream opened during the teardown\<close>

text \<open>
  The reader's exit drops every stream and then aborts the writer. A client that has its slot
  but has not inserted its stream when the streams are dropped still finds the outbox open.
\<close>

lemma late_open_run:
  fixes rt :: "('q, 'b, 'o) runtime"
  assumes laws: "runtime_laws rt" and enough: "max max_streams 1 \<le> max_permits (sem rt)"
  shows "\<exists>w. mux_run rt max_streams handler [Tau, Tau, Tau, Tau, Tau, Tau] w \<and> reader w = Gone \<and> openers w = []
    \<and> streams (ses w) = [(1, 0)] \<and> shared (ses w) = [new_stream rt] \<and> \<not> ch_rx_open (outch rt) (out (ses w))"
proof -
  have sems: "sem_laws (sem rt)" and outs: "chan_laws (outch rt)"
    using laws by (simp_all add: runtime_laws_def)
  let ?tx = "\<lparr>tx_id = 1, tx_addr = 0\<rparr>"
  define s where "s = \<lparr>out = ch_new (outch rt) OUTBOX_FRAMES, streams = [], next_id = 1,
    budget = sem_new (sem rt) (max max_streams 1), shared = ([] :: ('q, 'b) stream_state list), on_open = handler\<rparr>"
  obtain q where "sem_acquire (sem rt) 1 (budget s) = Acquired q"
    using sem_acquire_open [OF sems, of "budget s" 1] sem_new_laws [OF sems enough] by (auto simp: s_def)
  then have s1: "open_reserve rt s = Some (s\<lparr>budget := q\<rparr>)" by (simp add: open_reserve_def)
  define t where "t = s\<lparr>budget := q, next_id := 2\<rparr>"
  define u where "u = t\<lparr>streams := [(1, 0)], shared := [new_stream rt]\<rparr>"
  have view: "ch_view (outch rt) (out u) = ([], OUTBOX_FRAMES, True, True)"
    using ch_new_laws [OF outs, of OUTBOX_FRAMES] by (simp add: u_def t_def s_def wire_consts)
  then obtain c where "ch_try_send (outch rt) (control 1 KIND_OPEN) (out u) = SendOk c"
    using ch_try_send_laws [OF outs, of "control 1 KIND_OPEN" "out u"]
    by (cases "ch_try_send (outch rt) (control 1 KIND_OPEN) (out u)") (auto simp: ch_view_def wire_consts)
  then have announce: "open_announce rt ?tx u = (u\<lparr>out := c\<rparr>, Ready (Some ?tx))"
    by (simp add: open_announce_def session_send_def)
  have "mux_run rt max_streams handler [] (idle s)"
    using enough by (intro mux_run.started) (simp add: start_def s_def not_less del: max.bounded_iff)
  from mux_run.stepped [OF this mux_step.reserve [of _ "[]" "[]" rt "s\<lparr>budget := q\<rparr>"]] s1
  have "mux_run rt max_streams handler [Tau] ((idle (s\<lparr>budget := q\<rparr>))\<lparr>openers := [Reserved]\<rparr>)" by simp
  from mux_run.stepped [OF this mux_step.number [of _ "[]" "[]" t 1]]
  have "mux_run rt max_streams handler [Tau, Tau] ((idle t)\<lparr>openers := [Numbered 1]\<rparr>)"
    by (simp add: open_number_def t_def s_def)
  from mux_run.stepped [OF this mux_step.reader_ends]
  have "mux_run rt max_streams handler [Tau, Tau, Tau] ((idle t)\<lparr>openers := [Numbered 1], reader := Gone\<rparr>)"
    by (simp add: drop_all_def t_def s_def)
  from mux_run.stepped [OF this mux_step.register [of _ "[]" 1 "[]" rt u ?tx]]
  have "mux_run rt max_streams handler [Tau, Tau, Tau, Tau] ((idle u)\<lparr>openers := [Announcing ?tx], reader := Gone\<rparr>)"
    by (simp add: open_insert_def insert_stream_def remove_stream_def u_def t_def s_def)
  from mux_run.stepped [OF this mux_step.announce [of _ "[]" ?tx "[]" rt "u\<lparr>out := c\<rparr>" "Some ?tx"]] announce
  have "mux_run rt max_streams handler [Tau, Tau, Tau, Tau, Tau] ((idle (u\<lparr>out := c\<rparr>))\<lparr>reader := Gone\<rparr>)"
    by simp
  from mux_run.stepped [OF this mux_step.writer_ends]
  have "mux_run rt max_streams handler [Tau, Tau, Tau, Tau, Tau, Tau]
      ((idle (u\<lparr>out := ch_drop_rx (outch rt) c\<rparr>))\<lparr>reader := Gone\<rparr>)"
    by simp
  with ch_drop_laws(2) [OF outs, of c] show ?thesis
    by (intro exI [of _ "(idle (u\<lparr>out := ch_drop_rx (outch rt) c\<rparr>))\<lparr>reader := Gone\<rparr>"]) (simp add: u_def)
qed

section \<open>Properties\<close>



text \<open>
  C40. A stream can outlive its link. On every link there is a schedule in which a client opens
  its stream between the reader's dropping of all streams and the end of the writer, and is
  told that the stream is open: afterwards reader and outbox are gone, but the stream stays in
  the table with its credit gate open, and its receiver waits for bytes that cannot come.
\<close>

theorem late_open_outlives_link:
  fixes rt :: "('q, 'b, 'o) runtime"
  assumes "runtime_laws rt" and "max max_streams 1 \<le> max_permits (sem rt)"
  shows "\<exists>ls w. \<exists>tx :: stream_tx. mux_run rt max_streams handler ls w \<and> reader w = Gone \<and> openers w = []
    \<and> \<not> ch_rx_open (outch rt) (out (ses w))
    \<and> map_of (streams (ses w)) (tx_id tx) = Some (tx_addr tx) \<and> \<not> gate_closed rt (ses w) (tx_addr tx)
    \<and> rx_recv rt (tx_addr tx) (ses w) = (ses w, Pending)"
proof -
  obtain ls w where run: "mux_run rt max_streams handler ls w" "reader w = Gone" "openers w = []"
    "\<not> ch_rx_open (outch rt) (out (ses w))" and w: "streams (ses w) = [(1, 0)]" "shared (ses w) = [new_stream rt]"
    using late_open_run [OF assms] by blast
  let ?c = "ch_new (inch rt) INBOX_FRAMES"
  have ins: "chan_laws (inch rt)" and sems: "sem_laws (sem rt)"
    using assms(1) by (simp_all add: runtime_laws_def)
  have view: "ch_items (inch rt) ?c = []" "ch_tx_open (inch rt) ?c" "ch_rx_open (inch rt) ?c"
    using ch_new_laws [OF ins, of INBOX_FRAMES] by (simp_all add: ch_view_def wire_consts)
  then have "ch_recv (inch rt) ?c = NothingYet"
    using ch_recv_laws [OF ins view(3)] by (cases "ch_recv (inch rt) ?c") auto
  then have "rx_recv rt 0 (ses w) = (ses w, Pending)"
    by (simp add: rx_recv_def w new_stream_def)
  moreover have "\<not> gate_closed rt (ses w) 0"
    using window_permits [OF sems] by (simp add: gate_closed_def w new_stream_def)
  ultimately show ?thesis
    using run w by (intro exI [of _ ls] exI [of _ w] exI [of _ "\<lparr>tx_id = 1, tx_addr = 0\<rparr>"]) simp
qed

theorem late_open_outlives_link_witness:
  "\<exists>ls w. \<exists>tx :: stream_tx. mux_run demo_rt 1 False ls w \<and> reader w = Gone
    \<and> map_of (streams (ses w)) (tx_id tx) = Some (tx_addr tx)
    \<and> rx_recv demo_rt (tx_addr tx) (ses w) = (ses w, Pending)"
proof -
  have "max 1 1 \<le> max_permits (sem demo_rt)" by (simp add: demo_rt_def count_sem_def)
  from late_open_outlives_link [OF demo_rt_laws this] show ?thesis by blast
qed

end
