(* ===== verification/Mux_Inbox.thy ===== *)
theory Mux_Inbox
  imports Mux_Bounds
begin

text \<open>
  What arrives on one stream. From the moment a stream is open, under every interleaving of all
  tasks, the chunks its receiver has taken and those waiting in its inbox are the bodies of the
  data frames the reader has handled for its id, in order; once the stream has left the table
  they stay a prefix of them.
\<close>

section \<open>Traces\<close>

inductive mux_trace ::
    "('q, 'b, 'o) runtime \<Rightarrow> ('q, 'b, 'o) world \<Rightarrow> label list \<Rightarrow> ('q, 'b, 'o) world \<Rightarrow> bool" for rt w where
  here: "mux_trace rt w [] w"
| onwards: "mux_trace rt w ls w' \<Longrightarrow> mux_step rt w' l w'' \<Longrightarrow> mux_trace rt w (ls @ [l]) w''"

lemma mux_trace_run:
  assumes "mux_trace rt w ls w'" and "mux_run rt max_streams handler ks w"
  shows "mux_run rt max_streams handler (ks @ ls) w'"
  using assms by induction (auto intro: mux_run.stepped simp flip: append_assoc)

text \<open>The frames the reader handled, and the chunks taken off the inbox at an address.\<close>

definition frames_in :: "label list \<Rightarrow> bytes list" where
  "frames_in ls = concat (map (\<lambda>l. case l of Handled m g \<Rightarrow> [m] | _ \<Rightarrow> []) ls)"

definition taken_at :: "addr \<Rightarrow> label list \<Rightarrow> bytes list" where
  "taken_at a ls = concat (map (\<lambda>l. case l of Took b x \<Rightarrow> if b = a then [x] else [] | _ \<Rightarrow> []) ls)"

text \<open>The bodies of the data frames for one id.\<close>

definition bodies :: "u32 \<Rightarrow> bytes list \<Rightarrow> bytes list" where
  "bodies i ms =
     concat (map (\<lambda>m. case parse_frame m of
                        Inr (j, kind, x) \<Rightarrow> if j = i \<and> kind = KIND_DATA then [x] else []
                      | Inl _ \<Rightarrow> []) ms)"

lemma trace_simps [simp]:
  "frames_in [] = []" "frames_in (ls @ ks) = frames_in ls @ frames_in ks"
  "taken_at a [] = []" "taken_at a (ls @ ks) = taken_at a ls @ taken_at a ks"
  "bodies i [] = []" "bodies i (ms @ ns) = bodies i ms @ bodies i ns"
  by (simp_all add: frames_in_def taken_at_def bodies_def)

lemma trace_single [simp]:
  "frames_in [Tau] = []" "frames_in [Data b n] = []" "frames_in [Lost b n] = []" "frames_in [Handled m g] = [m]"
  "frames_in [Unheard b] = []" "frames_in [take_label b r] = []"
  "taken_at a [Tau] = []" "taken_at a [Data b n] = []" "taken_at a [Lost b n] = []" "taken_at a [Handled m g] = []"
  "taken_at a [Unheard b] = []"
  "taken_at a [take_label b r] = (case r of Ready (Some x) \<Rightarrow> if b = a then [x] else [] | _ \<Rightarrow> [])"
  by (auto simp: frames_in_def taken_at_def take_label_def split: poll.splits option.splits)

section \<open>Operations that leave an inbox alone\<close>

definition items :: "('q, 'b, 'o) runtime \<Rightarrow> ('q, 'b, 'o) mux_session \<Rightarrow> addr \<Rightarrow> bytes list" where
  "items rt s a = ch_items (inch rt) (inbox (shared s ! a))"

definition hears :: "('q, 'b, 'o) runtime \<Rightarrow> ('q, 'b, 'o) mux_session \<Rightarrow> addr \<Rightarrow> bool" where
  "hears rt s a = ch_rx_open (inch rt) (inbox (shared s ! a))"

text \<open>The inbox at \<open>a\<close> is as it was, and belongs to no stream that did not have it before.\<close>

definition keeps :: "('q, 'b, 'o) runtime \<Rightarrow> addr \<Rightarrow> ('q, 'b, 'o) mux_session \<Rightarrow> ('q, 'b, 'o) mux_session \<Rightarrow> bool" where
  "keeps rt a s s' \<longleftrightarrow>
     length (shared s) \<le> length (shared s') \<and> items rt s' a = items rt s a \<and> hears rt s' a = hears rt s a
     \<and> (\<forall>j. (j, a) \<in> set (streams s') \<longrightarrow> (j, a) \<in> set (streams s))"

lemma keeps_refl [simp]: "keeps rt a s s"
  by (simp add: keeps_def)

lemma keeps_trans: "keeps rt a s s' \<Longrightarrow> keeps rt a s' s'' \<Longrightarrow> keeps rt a s s''"
  by (auto simp: keeps_def)

lemma keeps_fields [simp]:
  "keeps rt a s (s'\<lparr>out := c\<rparr>) = keeps rt a s s'" "keeps rt a s (s'\<lparr>budget := b\<rparr>) = keeps rt a s s'"
  "keeps rt a s (s'\<lparr>next_id := i\<rparr>) = keeps rt a s s'" "keeps rt a s (s'\<lparr>on_open := h\<rparr>) = keeps rt a s s'" "keeps rt a (s\<lparr>budget := b\<rparr>) s' = keeps rt a s s'"
  by (simp_all add: keeps_def items_def hears_def)

lemma keeps_shared:
  assumes "b = a \<Longrightarrow> a < length (shared s) \<Longrightarrow>
    ch_items (inch rt) (inbox st) = items rt s a \<and> ch_rx_open (inch rt) (inbox st) = hears rt s a"
  shows "keeps rt a s (s\<lparr>shared := (shared s)[b := st]\<rparr>)"
  using assms by (cases "b = a"; cases "b < length (shared s)")
    (auto simp: keeps_def items_def hears_def list_update_beyond)

lemma keeps_remove:
  assumes "chan_laws (inch rt)"
  shows "keeps rt a s (remove_stream rt i s)"
proof (cases "map_of (streams s) i")
  case (Some b)
  let ?t = "s\<lparr>streams := AList.delete i (streams s)\<rparr>"
  let ?u = "?t\<lparr>shared := (shared ?t)[b := (shared ?t ! b)\<lparr>inbox := ch_drop_tx (inch rt) (inbox (shared ?t ! b))\<rparr>]\<rparr>"
  have "keeps rt a s ?t" by (auto simp: keeps_def items_def hears_def set_alist_delete)
  moreover have "keeps rt a ?t ?u"
    using ch_drop_laws(1) [OF assms] by (intro keeps_shared) (auto simp: items_def hears_def ch_view_def)
  ultimately have "keeps rt a s ?u" by (rule keeps_trans)
  with Some show ?thesis by (simp add: remove_stream_def drop_state_def)
qed (simp add: remove_stream_def)

lemma keeps_drop:
  assumes "chan_laws (inch rt)"
  shows "keeps rt a s (drop_stream rt i s)"
proof (cases "map_of (streams s) i")
  case (Some b)
  show ?thesis
    unfolding drop_stream_def Some option.case
    by (rule keeps_trans [OF keeps_shared keeps_remove [OF assms]]) (simp add: items_def hears_def)
qed (simp add: drop_stream_def)

lemma keeps_drop_all:
  assumes "chan_laws (inch rt)"
  shows "keeps rt a s (drop_all rt s)"
proof -
  have "keeps rt a s (fold (\<lambda>(i, b). drop_stream rt i) xs s)" for xs
    by (induction xs arbitrary: s) (auto intro: keeps_trans [OF keeps_drop [OF assms]])
  then show ?thesis by (simp add: drop_all_def)
qed

lemma keeps_insert:
  assumes "chan_laws (inch rt)" and "a < length (shared s)" and "insert_stream rt i s = (s', b)"
  shows "keeps rt a s s' \<and> a < b"
proof -
  let ?t = "remove_stream rt i s"
  have t: "keeps rt a s ?t" by (rule keeps_remove [OF assms(1)])
  then have "a < length (shared ?t)" using assms(2) by (simp add: keeps_def)
  then have "keeps rt a ?t s'" and "a < b"
    using assms(3) by (auto simp: insert_stream_def Let_def keeps_def items_def hears_def nth_append)
  with t show ?thesis by (blast intro: keeps_trans)
qed

lemma keeps_send: "session_send rt f s = (s', r) \<Longrightarrow> keeps rt a s s'"
  by (auto simp: session_send_def split: sending.splits)

lemma keeps_tx_step: "tx_step rt tx fut s = Step (s', fut') \<Longrightarrow> keeps rt a s s'"
  by (cases fut)
    (auto simp: tx_step_def Let_def items_def hears_def intro!: keeps_shared dest: keeps_send
      split: option.splits prod.splits poll.splits sum.splits if_splits acquired.splits)

lemma keeps_handle_open:
  assumes "chan_laws (inch rt)" and "a < length (shared s)" and "handle_open rt i s = (s', r)"
  shows "keeps rt a s s'"
proof (cases "sem_acquire (sem rt) 1 (budget s)")
  case (Acquired q)
  obtain s1 b where ins: "insert_stream rt i (s\<lparr>budget := q\<rparr>) = (s1, b)" by fastforce
  have "keeps rt a (s\<lparr>budget := q\<rparr>) s1 \<and> a < b"
    using keeps_insert [OF assms(1) _ ins] assms(2) by simp
  then have "keeps rt a s s1" and "a \<noteq> b" by simp_all
  with Acquired ins assms(3) show ?thesis
    by (auto simp: handle_open_def split: if_splits intro!: keeps_trans [OF _ keeps_shared])
qed (use assms(3) in \<open>auto simp: handle_open_def\<close>)

lemma keeps_handle_window: "handle_window rt i g s = (s', r) \<Longrightarrow> keeps rt a s s'"
  by (auto simp: handle_window_def items_def hears_def intro!: keeps_shared split: option.splits)

lemma keeps_handle_data:
  assumes "chan_laws (inch rt)" and "map_of (streams s) i \<noteq> Some a" and "handle_data rt i x s = (s', r)"
  shows "keeps rt a s s'"
  using assms keeps_drop [OF assms(1)]
  by (auto simp: handle_data_def intro!: keeps_shared split: option.splits sending.splits)

lemma keeps_handle_frame:
  assumes "chan_laws (inch rt)" and "a < length (shared s)"
    and other: "\<And>j x. parse_frame m = Inr (j, KIND_DATA, x) \<Longrightarrow> map_of (streams s) j \<noteq> Some a"
    and run: "handle_frame rt m s = (s', nx, tx)"
  shows "keeps rt a s s'"
proof (cases "parse_frame m")
  case (Inr h)
  obtain j kind x where h: "h = (j, kind, x)" by (cases h)
  show ?thesis
  proof (cases "kind = KIND_DATA \<and> j \<noteq> 0")
    case True
    then have "handle_data rt j x s = (s', nx)"
      using run Inr h by (simp add: handle_frame_def wire_consts split: prod.splits)
    with keeps_handle_data [OF assms(1)] other [of j x] True Inr h show ?thesis by simp
  next
    case False
    with run Inr h keeps_handle_open [OF assms(1,2), of j s' "(nx, tx)"] keeps_drop [OF assms(1), of a s j]
      keeps_handle_window [of rt j "of_nat (from_be x)" s s' nx a]
    show ?thesis by (auto simp: handle_frame_def split: if_splits prod.splits)
  qed
qed (use run in \<open>simp add: handle_frame_def\<close>)

section \<open>In order\<close>

text \<open>
  The stream \<open>i\<close> at \<open>a\<close>, after its receiver took \<open>ts\<close> and the reader handled \<open>ms\<close>.
\<close>

definition arrives :: "('q, 'b, 'o) runtime \<Rightarrow> u32 \<Rightarrow> addr \<Rightarrow> bytes list \<Rightarrow> bytes list \<Rightarrow> ('q, 'b, 'o) mux_session \<Rightarrow> bool" where
  "arrives rt i a ms ts s \<longleftrightarrow>
     a < length (shared s) \<and> hears rt s a
     \<and> (if map_of (streams s) i = Some a then ts @ items rt s a = bodies i ms
        else a \<notin> snd ` set (streams s) \<and> prefix (ts @ items rt s a) (bodies i ms))"

lemma arrives_keeps:
  assumes "arrives rt i a ms ts s" and "keeps rt a s s'" and "table_ok rt s" and "table_ok rt s'"
  shows "arrives rt i a ms ts s'"
proof -
  have owner: "j = i" if "(j, a) \<in> set (streams s')" "map_of (streams s) i = Some a" for j
  proof -
    have "(j, a) \<in> set (streams s)" using that(1) assms(2) by (simp add: keeps_def)
    then have "map_of (streams s) j = Some a" using assms(3) by (simp add: table_ok_def)
    with addresses_distinct [OF assms(3) that(2), of j a] show ?thesis by blast
  qed
  have same: "a < length (shared s')" "hears rt s' a" "items rt s' a = items rt s a"
    using assms(1,2) by (auto simp: arrives_def keeps_def)
  have in_table: "map_of (streams s') i = Some a \<longleftrightarrow> (i, a) \<in> set (streams s')"
    using assms(4) by (simp add: table_ok_def map_of_eq_Some_iff)
  show ?thesis
  proof (cases "map_of (streams s) i = Some a")
    case True
    then have "a \<in> snd ` set (streams s') \<Longrightarrow> (i, a) \<in> set (streams s')" using owner by force
    with True assms(1) same in_table show ?thesis by (auto simp: arrives_def)
  next
    case False
    then have "a \<notin> snd ` set (streams s')" using assms(1,2) by (force simp: arrives_def keeps_def)
    with False assms(1) same in_table show ?thesis by (force simp: arrives_def)
  qed
qed

lemma arrives_more:
  "arrives rt i a ms ts s \<Longrightarrow> map_of (streams s) i \<noteq> Some a \<or> bodies i ns = [] \<Longrightarrow> arrives rt i a (ms @ ns) ts s"
  by (auto simp: arrives_def)

text \<open>The reader handles a data frame of the stream itself.\<close>

lemma arrives_own_data:
  assumes laws: "chan_laws (inch rt)" and inv: "arrives rt i a ms ts s" and tab: "table_ok rt s" "table_ok rt s'"
    and own: "map_of (streams s) i = Some a" and run: "handle_data rt i x s = (s', r)" and body: "bodies i [m] = [x]"
  shows "arrives rt i a (ms @ [m]) ts s'"
proof (cases "ch_try_send (inch rt) x (inbox (shared s ! a))")
  case (SendOk c)
  then have "s' = s\<lparr>shared := (shared s)[a := (shared s ! a)\<lparr>inbox := c\<rparr>]\<rparr>"
    and "ch_view (inch rt) c = (items rt s a @ [x], ch_cap (inch rt) (inbox (shared s ! a)), ch_tx_open (inch rt) (inbox (shared s ! a)), True)"
    using run own ch_try_send_laws(1) [OF laws SendOk] by (simp_all add: handle_data_def items_def)
  with inv own body show ?thesis by (simp add: arrives_def items_def hears_def ch_view_def)
next
  case SendFull
  then have "s' = drop_stream rt i s" using run own by (simp add: handle_data_def)
  then have "arrives rt i a ms ts s'" "map_of (streams s') i \<noteq> Some a"
    using arrives_keeps [OF inv keeps_drop [OF laws] tab(1)] tab(2) by (simp_all add: map_of_delete_other)
  then show ?thesis by (simp add: arrives_more)
next
  case SendClosed
  then have "\<not> hears rt s a" using ch_try_send_laws(3) [OF laws] by (simp add: hears_def)
  then show ?thesis using inv by (simp add: arrives_def)
qed

lemma arrives_handle_frame:
  assumes laws: "chan_laws (inch rt)" and inv: "arrives rt i a ms ts s" and tab: "table_ok rt s" "table_ok rt s'"
    and i: "i \<noteq> 0" and run: "handle_frame rt m s = (s', nx, tx)"
  shows "arrives rt i a (ms @ [m]) ts s'"
proof (cases "bodies i [m]")
  case Nil
  have a: "a < length (shared s)" using inv by (simp add: arrives_def)
  have data: "map_of (streams s) j \<noteq> Some a" if "parse_frame m = Inr (j, KIND_DATA, x)" for j x
  proof
    assume j: "map_of (streams s) j = Some a"
    then have "map_of (streams s) i = Some a"
      using inv map_of_in_table [OF j] by (auto simp: arrives_def split: if_splits)
    then have "j = i" using addresses_distinct [OF tab(1) j] by blast
    then show False using that Nil by (simp add: bodies_def)
  qed
  have "keeps rt a s s'"
    by (rule keeps_handle_frame [OF laws a data run])
  from arrives_keeps [OF inv this tab] arrives_more Nil show ?thesis by blast
next
  case (Cons x xs)
  then have m: "parse_frame m = Inr (i, KIND_DATA, x)" and b: "bodies i [m] = [x]"
    by (auto simp: bodies_def split: sum.splits prod.splits if_splits)
  then have run: "handle_data rt i x s = (s', nx)"
    using run i by (simp add: handle_frame_def wire_consts split: prod.splits)
  show ?thesis
  proof (cases "map_of (streams s) i = Some a")
    case True
    then show ?thesis by (rule arrives_own_data [OF laws inv tab _ run b])
  next
    case False
    then have "arrives rt i a (ms @ [m]) ts s" using arrives_more [OF inv] by simp
    then show ?thesis using arrives_keeps keeps_handle_data [OF laws False run] tab by blast
  qed
qed

lemma arrives_recv:
  assumes laws: "chan_laws (inch rt)" and inv: "arrives rt i a ms ts s" and run: "rx_recv rt a s = (s', r)"
  shows "arrives rt i a ms (ts @ taken_at a [take_label a r]) s'"
proof -
  have "hears rt s a" using inv by (simp add: arrives_def)
  then have rx: "ch_rx_open (inch rt) (inbox (shared s ! a))" by (simp add: hears_def)
  show ?thesis
  proof (cases "ch_recv (inch rt) (inbox (shared s ! a))")
    case (Got x c)
    then have "s' = s\<lparr>shared := (shared s)[a := (shared s ! a)\<lparr>inbox := c\<rparr>]\<rparr>" "r = Ready (Some x)"
      using run by (simp_all add: rx_recv_def)
    with ch_recv_laws(1) [OF laws rx Got] inv show ?thesis
      by (simp add: arrives_def items_def hears_def split: if_splits)
  qed (use run inv in \<open>auto simp: rx_recv_def\<close>)
qed

text \<open>Every step but a handled frame and the receiver's own leaves the inbox alone.\<close>

lemma keeps_step:
  assumes laws: "chan_laws (inch rt)" and step: "mux_step rt w l w'" and a: "a < length (shared (ses w))"
    and other: "frames_in [l] = []" "taken_at a [l] = []" "l \<noteq> Unheard a"
  shows "keeps rt a (ses w) (ses w')"
  using step
proof cases
  case (reserve xs ys s)
  then show ?thesis by (auto simp: open_reserve_def split: acquired.splits)
next
  case (number xs ys s i)
  then show ?thesis by (auto simp: open_number_def)
next
  case (register xs i ys s tx)
  then show ?thesis using keeps_insert [OF laws a] by (auto simp: open_insert_def split: prod.splits)
next
  case (announce xs tx ys s r)
  then show ?thesis
    by (auto simp: open_announce_def split: prod.splits poll.splits sum.splits
        dest: keeps_send intro: keeps_trans [OF _ keeps_remove [OF laws]])
next
  case (receive b s r)
  then show ?thesis using other(2)
    by (auto simp: rx_recv_def intro!: keeps_shared split: received.splits)
next
  case (rx_drops b)
  then show ?thesis using other(3) by (auto intro!: keeps_shared)
next
  case (close_now i)
  then show ?thesis using keeps_drop [OF laws]
    by (auto simp: close_stream_def Let_def split: sending.splits)
next
  case (pay xs tx data ys s fut)
  then show ?thesis by (cases fut) (auto dest: keeps_tx_step)
next
  case (push xs tx data f ys s fut)
  then show ?thesis by (cases fut) (auto dest: keeps_tx_step)
qed (use other keeps_send keeps_remove [OF laws] keeps_drop_all [OF laws] in
    \<open>auto simp: writer_take_def tx_close_def shutdown_def register_handler_def Let_def split: received.splits\<close>)

lemma arrives_step:
  assumes laws: "chan_laws (inch rt)" and step: "mux_step rt w l w'" and inv: "arrives rt i a ms ts (ses w)"
    and tab: "table_ok rt (ses w)" "table_ok rt (ses w')" and "i \<noteq> 0" and "l \<noteq> Unheard a"
  shows "arrives rt i a (ms @ frames_in [l]) (ts @ taken_at a [l]) (ses w')"
proof -
  consider (handled) m g where "l = Handled m g" | (took) x where "l = Took a x"
    | (other) "frames_in [l] = []" "taken_at a [l] = []"
    by (cases l; cases "\<exists>x. l = Took a x") (auto simp: frames_in_def taken_at_def)
  then show ?thesis
  proof cases
    case (handled m g)
    with step obtain nx tx where "handle_frame rt m (ses w) = (ses w', nx, tx)"
      by (auto elim: mux_step.cases simp: take_label_def split: poll.splits option.splits)
    from arrives_handle_frame [OF laws inv tab assms(6) this] handled show ?thesis by simp
  next
    case (took x)
    with step obtain r where r: "rx_recv rt a (ses w) = (ses w', r)" "l = take_label a r"
      by (auto elim!: mux_step.cases simp: take_label_def split: poll.splits option.splits)
    from arrives_recv [OF laws inv r(1)] r(2) show ?thesis by simp
  next
    case other
    have "a < length (shared (ses w))" using inv by (simp add: arrives_def)
    from keeps_step [OF laws step this other(1,2) assms(7)] arrives_keeps [OF inv _ tab] other show ?thesis by simp
  qed
qed

lemma arrives_trace:
  assumes laws: "runtime_laws rt" and run: "mux_run rt max_streams handler ks w" and i: "i \<noteq> 0"
    and "mux_trace rt w ls w'" and "arrives rt i a ms ts (ses w)" and "Unheard a \<notin> set ls"
  shows "arrives rt i a (ms @ frames_in ls) (ts @ taken_at a ls) (ses w')"
  using assms(4-6)
proof induction
  case (onwards ls w' l w'')
  have "mux_run rt max_streams handler (ks @ ls) w'" by (rule mux_trace_run [OF onwards(1) run])
  moreover from this onwards(2) have "mux_run rt max_streams handler ((ks @ ls) @ [l]) w''" by (rule mux_run.stepped)
  ultimately have "table_ok rt (ses w')" "table_ok rt (ses w'')" using mux_run_facts(3) [OF laws] by blast+
  moreover have "chan_laws (inch rt)" using laws by (simp add: runtime_laws_def)
  moreover have "arrives rt i a (ms @ frames_in ls) (ts @ taken_at a ls) (ses w')" "l \<noteq> Unheard a"
    using onwards by auto
  ultimately show ?case
    using arrives_step [OF _ onwards(2), of i a "ms @ frames_in ls" "ts @ taken_at a ls"] i by simp
qed simp

end
