(* ===== verification/Tunnel.thy ===== *)
theory Tunnel
  imports Edge Mux_Inbox
begin

text \<open>
  One client tunnel as the tasks that run it: the task spawned by \<open>Edge::tunnel\<close> reads the
  preamble and calls \<open>serve_client\<close>, which looks the bridge up, opens a mux stream, forwards the
  preamble, spawns the uplink task, runs the downlink, waits for either to end, and closes the
  stream. The state says at which \<open>await\<close> (or access to shared state) each of them stands; one
  turn takes one of them to the next, on the session of the bridge the preamble names.
\<close>

section \<open>State\<close>

text \<open>
  The uplink task: not spawned, at \<open>read_buf\<close>, in a \<open>send\<close>, ended. Nothing stops it but itself:
  when \<open>serve_client\<close> returns it goes on detached.
\<close>

datatype up_pc = UpIdle | UpReading | UpSending send_fut | UpEnded

text \<open>
  The downlink: at \<open>recv\<close>, in \<open>write_all\<close> of a chunk with some of it left, in \<open>grant\<close>, in
  \<open>shutdown\<close>, ended.
\<close>

datatype down_pc = DownRecv | DownWriting bytes bytes | DownGranting | DownShutting | DownEnded

text \<open>
  The tunnel task: reading the preamble, at the table lookup, before and inside
  \<open>try_open_stream\<close>, forwarding the preamble, at the \<open>select!\<close>, before \<open>close\<close> and in its
  \<open>send\<close>, returned.
\<close>

datatype main_pc =
    Preamble | Routing | Calling | Opening opener | Forwarding send_fut | Selecting
  | Closing | ClosingSend frame | Returned "unit result"

text \<open>
  The last five fields are a log: the bytes the uplink read, the frames queued for the stream,
  the chunks received, the grants sent, and how many frames the link had handled when the
  stream was inserted.
\<close>

record tunnel =
  t_pc :: main_pc
  t_ws :: ws_stream
  t_head :: bytes
  t_half :: "stream_tx option"
  t_up :: up_pc
  t_down :: down_pc
  t_pending :: u32
  t_read :: bytes
  t_queued :: "frame list"
  t_chunks :: "bytes list"
  t_grants :: "u32 list"
  t_since :: nat

text \<open>The task after \<open>WsStream::new\<close>.\<close>

definition tunnel_new :: "sock \<Rightarrow> tunnel" where
  "tunnel_new k = \<lparr>t_pc = Preamble, t_ws = ws_new k, t_head = [], t_half = None, t_up = UpIdle, t_down = DownRecv,
     t_pending = 0, t_read = [], t_queued = [], t_chunks = [], t_grants = [], t_since = 0\<rparr>"

section \<open>Turns of the tunnel task\<close>

text \<open>
  A poll of \<open>read_exact\<close> on the preamble under \<open>PREAMBLE_TIMEOUT\<close>, with the check of magic and
  version when it is complete.
\<close>

definition preamble_turn :: "bool \<Rightarrow> tunnel \<Rightarrow> tunnel" where
  "preamble_turn expired t =
     (if expired then t\<lparr>t_pc := Returned (Inr ())\<rparr>
      else (case ws_read_exact (HEAD_LEN - length (t_head t)) (t_ws t) of
              (ws, bs, Pending) \<Rightarrow> t\<lparr>t_ws := ws, t_head := t_head t @ bs\<rparr>
            | (ws, bs, Ready (Inl e)) \<Rightarrow> t\<lparr>t_ws := ws, t_head := t_head t @ bs, t_pc := Returned (Inr ())\<rparr>
            | (ws, bs, Ready (Inr _)) \<Rightarrow>
                t\<lparr>t_ws := ws, t_head := t_head t @ bs,
                  t_pc := (case tunnel_task True (Some (Inr (t_head t @ bs))) of
                             None \<Rightarrow> Returned (Inr ())
                           | Some head \<Rightarrow> Routing)\<rparr>))"

text \<open>
  The lookup \<open>table.get(&key)\<close> for the link registered under \<open>k\<close>: \<open>hit\<close> says whether the table
  holds this link under its key at that moment. A tunnel that names another key goes to another
  link or nowhere; on this one it is over.
\<close>

definition route_turn :: "bytes \<Rightarrow> bool \<Rightarrow> tunnel \<Rightarrow> tunnel" where
  "route_turn k hit t =
     (if hit \<and> bridge_key (t_head t) = k then t\<lparr>t_pc := Calling\<rparr> else t\<lparr>t_pc := Returned (Inr ())\<rparr>)"

text \<open>The drop of a \<open>StreamRx\<close>.\<close>

definition drop_rx :: "('q, 'b, 'o) runtime \<Rightarrow> addr \<Rightarrow> ('q, 'b, 'o) mux_session \<Rightarrow> ('q, 'b, 'o) mux_session" where
  "drop_rx rt a s = s\<lparr>shared := (shared s)[a := (shared s ! a)\<lparr>
     inbox := ch_drop_rx (inch rt) (inbox (shared s ! a))\<rparr>]\<rparr>"

text \<open>
  \<open>try_open_stream().await\<close>, one stage at a time. \<open>n\<close> is the number of frames the link has
  handled, for the log.
\<close>

definition call_turn :: "('q, 'b, 'o) runtime \<Rightarrow> ('q, 'b, 'o) mux_session \<Rightarrow> tunnel \<Rightarrow> ('q, 'b, 'o) mux_session \<times> tunnel" where
  "call_turn rt s t =
     (case open_reserve rt s of
        None \<Rightarrow> (s, t\<lparr>t_pc := Returned (Inr ())\<rparr>)
      | Some s' \<Rightarrow> (s', t\<lparr>t_pc := Opening Reserved\<rparr>))"

definition open_turn :: "('q, 'b, 'o) runtime \<Rightarrow> nat \<Rightarrow> opener \<Rightarrow> ('q, 'b, 'o) mux_session \<Rightarrow> tunnel
    \<Rightarrow> ('q, 'b, 'o) mux_session \<times> tunnel" where
  "open_turn rt n p s t =
     (case p of
        Reserved \<Rightarrow> (case open_number s of (s', i) \<Rightarrow> (s', t\<lparr>t_pc := Opening (Numbered i)\<rparr>))
      | Numbered i \<Rightarrow>
          (case open_insert rt i s of (s', tx) \<Rightarrow>
             (s', t\<lparr>t_pc := Opening (Announcing tx), t_half := Some tx, t_since := n\<rparr>))
      | Announcing tx \<Rightarrow>
          (case open_announce rt tx s of
             (s', Pending) \<Rightarrow> (s', t)
           | (s', Ready None) \<Rightarrow> (drop_rx rt (tx_addr tx) s', t\<lparr>t_pc := Returned (Inr ())\<rparr>)
           | (s', Ready (Some tx')) \<Rightarrow> (s', t\<lparr>t_pc := Forwarding (t_head t, None)\<rparr>)))"

text \<open>The frames a step has put into the outbox.\<close>

definition new_in_outbox :: "('q, 'b, 'o) runtime \<Rightarrow> ('q, 'b, 'o) mux_session \<Rightarrow> ('q, 'b, 'o) mux_session \<Rightarrow> frame list" where
  "new_in_outbox rt s s' = drop (length (queue_of rt s)) (queue_of rt s')"

text \<open>
  \<open>tx.send(head).await?\<close>: a failure returns from \<open>serve_client\<close> at once. Otherwise the uplink is
  spawned, and the downlink starts as \<open>tunnel_new\<close> set it up.
\<close>

definition forward_turn :: "('q, 'b, 'o) runtime \<Rightarrow> stream_tx \<Rightarrow> send_fut \<Rightarrow> ('q, 'b, 'o) mux_session \<Rightarrow> tunnel
    \<Rightarrow> ('q, 'b, 'o) mux_session \<times> tunnel" where
  "forward_turn rt tx fut s t =
     (case tx_step rt tx fut s of
        Step (s', fut') \<Rightarrow> (s', t\<lparr>t_pc := Forwarding fut', t_queued := t_queued t @ new_in_outbox rt s s'\<rparr>)
      | Stop Pending \<Rightarrow> (s, t)
      | Stop (Ready (Inr _)) \<Rightarrow> (s, t\<lparr>t_pc := Selecting, t_up := UpReading\<rparr>)
      | Stop (Ready (Inl e)) \<Rightarrow> (drop_rx rt (tx_addr tx) s, t\<lparr>t_pc := Returned (Inl e)\<rparr>))"

text \<open>The \<open>select!\<close>: it is over when the uplink task or the downlink is.\<close>

definition select_turn :: "tunnel \<Rightarrow> tunnel option" where
  "select_turn t = (if t_up t = UpEnded \<or> t_down t = DownEnded then Some (t\<lparr>t_pc := Closing\<rparr>) else None)"

text \<open>\<open>tx.close().await\<close>, and the return, which drops the receiving half.\<close>

definition close_turn :: "('q, 'b, 'o) runtime \<Rightarrow> stream_tx \<Rightarrow> ('q, 'b, 'o) mux_session \<Rightarrow> tunnel
    \<Rightarrow> ('q, 'b, 'o) mux_session \<times> tunnel" where
  "close_turn rt tx s t = (case tx_close rt tx s of (s', f) \<Rightarrow> (s', t\<lparr>t_pc := ClosingSend f\<rparr>))"

definition return_turn :: "('q, 'b, 'o) runtime \<Rightarrow> stream_tx \<Rightarrow> frame \<Rightarrow> ('q, 'b, 'o) mux_session \<Rightarrow> tunnel
    \<Rightarrow> ('q, 'b, 'o) mux_session \<times> tunnel" where
  "return_turn rt tx f s t =
     (case session_send rt f s of
        (s', Pending) \<Rightarrow> (s', t)
      | (s', Ready _) \<Rightarrow> (drop_rx rt (tx_addr tx) s', t\<lparr>t_pc := Returned (Inr ())\<rparr>))"

section \<open>Turns of the uplink and the downlink\<close>

text \<open>
  \<open>read_buf\<close> reads into the spare room of its buffer, which \<open>reserve\<close> keeps at \<open>MAX_PAYLOAD\<close> or
  more. An empty read, a failed read and a failed send end the loop.
\<close>

definition up_read_turn :: "nat \<Rightarrow> tunnel \<Rightarrow> tunnel" where
  "up_read_turn spare t =
     (case poll_read (MAX_PAYLOAD + spare) (t_ws t) of
        (ws, Pending) \<Rightarrow> t\<lparr>t_ws := ws\<rparr>
      | (ws, Ready (Inl e)) \<Rightarrow> t\<lparr>t_ws := ws, t_up := UpEnded\<rparr>
      | (ws, Ready (Inr bs)) \<Rightarrow>
          if bs = [] then t\<lparr>t_ws := ws, t_up := UpEnded\<rparr>
          else t\<lparr>t_ws := ws, t_up := UpSending (bs, None), t_read := t_read t @ bs\<rparr>)"

definition up_send_turn :: "('q, 'b, 'o) runtime \<Rightarrow> stream_tx \<Rightarrow> send_fut \<Rightarrow> ('q, 'b, 'o) mux_session \<Rightarrow> tunnel
    \<Rightarrow> ('q, 'b, 'o) mux_session \<times> tunnel" where
  "up_send_turn rt tx fut s t =
     (case tx_step rt tx fut s of
        Step (s', fut') \<Rightarrow> (s', t\<lparr>t_up := UpSending fut', t_queued := t_queued t @ new_in_outbox rt s s'\<rparr>)
      | Stop Pending \<Rightarrow> (s, t)
      | Stop (Ready (Inr _)) \<Rightarrow> (s, t\<lparr>t_up := UpReading\<rparr>)
      | Stop (Ready (Inl e)) \<Rightarrow> (s, t\<lparr>t_up := UpEnded\<rparr>))"

text \<open>
  \<open>write_all\<close> polls the stream with what is left; a write of no bytes is an error. A chunk
  written in full is added to \<open>pending\<close>, a \<open>u32\<close> that wraps in release builds.
\<close>

definition down_recv_turn :: "('q, 'b, 'o) runtime \<Rightarrow> stream_tx \<Rightarrow> ('q, 'b, 'o) mux_session \<Rightarrow> tunnel
    \<Rightarrow> ('q, 'b, 'o) mux_session \<times> tunnel" where
  "down_recv_turn rt tx s t =
     (case rx_recv rt (tx_addr tx) s of
        (s', Pending) \<Rightarrow> (s', t)
      | (s', Ready (Some chunk)) \<Rightarrow> (s', t\<lparr>t_down := DownWriting chunk chunk, t_chunks := t_chunks t @ [chunk]\<rparr>)
      | (s', Ready None) \<Rightarrow> (s', t\<lparr>t_down := DownShutting\<rparr>))"

definition down_write_turn :: "bytes \<Rightarrow> bytes \<Rightarrow> tunnel \<Rightarrow> tunnel" where
  "down_write_turn chunk rest t =
     (if rest = []
      then let pending = t_pending t + of_nat (length chunk)
           in t\<lparr>t_pending := pending, t_down := (if pending \<ge> GRANT_THRESHOLD then DownGranting else DownRecv)\<rparr>
      else (case poll_write rest (t_ws t) of
              (ws, Pending) \<Rightarrow> t\<lparr>t_ws := ws\<rparr>
            | (ws, Ready (Inl e)) \<Rightarrow> t\<lparr>t_ws := ws, t_down := DownShutting\<rparr>
            | (ws, Ready (Inr n)) \<Rightarrow>
                if n = 0 then t\<lparr>t_ws := ws, t_down := DownShutting\<rparr>
                else t\<lparr>t_ws := ws, t_down := DownWriting chunk (drop n rest)\<rparr>))"

definition down_grant_turn :: "('q, 'b, 'o) runtime \<Rightarrow> stream_tx \<Rightarrow> ('q, 'b, 'o) mux_session \<Rightarrow> tunnel
    \<Rightarrow> ('q, 'b, 'o) mux_session \<times> tunnel" where
  "down_grant_turn rt tx s t =
     (case tx_grant rt tx (t_pending t) s of
        (s', Pending) \<Rightarrow> (s', t)
      | (s', Ready (Inl e)) \<Rightarrow> (s', t\<lparr>t_down := DownShutting\<rparr>)
      | (s', Ready (Inr _)) \<Rightarrow>
          (s', t\<lparr>t_down := DownRecv, t_pending := 0, t_grants := t_grants t @ [t_pending t]\<rparr>))"

definition down_shut_turn :: "tunnel \<Rightarrow> tunnel" where
  "down_shut_turn t =
     (case poll_shutdown (t_ws t) of
        (ws, Pending) \<Rightarrow> t\<lparr>t_ws := ws\<rparr>
      | (ws, Ready _) \<Rightarrow> t\<lparr>t_ws := ws, t_down := DownEnded\<rparr>)"

section \<open>All turns\<close>

text \<open>
  Who moves: the deadline of the preamble, the lookup with its outcome, the tunnel task, the
  uplink with the room it reads into, the downlink. The downlink is polled by the \<open>select!\<close> only.
\<close>

datatype turn = Deadline | Lookup bool | Main | Uplink nat | Downlink

definition main_turn :: "('q, 'b, 'o) runtime \<Rightarrow> nat \<Rightarrow> ('q, 'b, 'o) mux_session \<Rightarrow> tunnel
    \<Rightarrow> (('q, 'b, 'o) mux_session \<times> tunnel) option" where
  "main_turn rt n s t =
     (case (t_pc t, t_half t) of
        (Preamble, _) \<Rightarrow> Some (s, preamble_turn False t)
      | (Calling, _) \<Rightarrow> Some (call_turn rt s t)
      | (Opening p, _) \<Rightarrow> Some (open_turn rt n p s t)
      | (Forwarding fut, Some tx) \<Rightarrow> Some (forward_turn rt tx fut s t)
      | (Selecting, _) \<Rightarrow> map_option (Pair s) (select_turn t)
      | (Closing, Some tx) \<Rightarrow> Some (close_turn rt tx s t)
      | (ClosingSend f, Some tx) \<Rightarrow> Some (return_turn rt tx f s t)
      | _ \<Rightarrow> None)"

definition up_turn :: "('q, 'b, 'o) runtime \<Rightarrow> nat \<Rightarrow> ('q, 'b, 'o) mux_session \<Rightarrow> tunnel
    \<Rightarrow> (('q, 'b, 'o) mux_session \<times> tunnel) option" where
  "up_turn rt spare s t =
     (case (t_up t, t_half t) of
        (UpReading, _) \<Rightarrow> Some (s, up_read_turn spare t)
      | (UpSending fut, Some tx) \<Rightarrow> Some (up_send_turn rt tx fut s t)
      | _ \<Rightarrow> None)"

definition down_turn :: "('q, 'b, 'o) runtime \<Rightarrow> ('q, 'b, 'o) mux_session \<Rightarrow> tunnel
    \<Rightarrow> (('q, 'b, 'o) mux_session \<times> tunnel) option" where
  "down_turn rt s t =
     (case (t_down t, t_half t) of
        (DownRecv, Some tx) \<Rightarrow> Some (down_recv_turn rt tx s t)
      | (DownWriting chunk rest, _) \<Rightarrow> Some (s, down_write_turn chunk rest t)
      | (DownGranting, Some tx) \<Rightarrow> Some (down_grant_turn rt tx s t)
      | (DownShutting, _) \<Rightarrow> Some (s, down_shut_turn t)
      | _ \<Rightarrow> None)"

definition tunnel_turn :: "('q, 'b, 'o) runtime \<Rightarrow> bytes \<Rightarrow> nat \<Rightarrow> turn \<Rightarrow> ('q, 'b, 'o) mux_session \<Rightarrow> tunnel
    \<Rightarrow> (('q, 'b, 'o) mux_session \<times> tunnel) option" where
  "tunnel_turn rt k n u s t =
     (case u of
        Deadline \<Rightarrow> if t_pc t = Preamble then Some (s, preamble_turn True t) else None
      | Lookup hit \<Rightarrow> if t_pc t = Routing then Some (s, route_turn k hit t) else None
      | Main \<Rightarrow> main_turn rt n s t
      | Uplink spare \<Rightarrow> up_turn rt spare s t
      | Downlink \<Rightarrow> if t_pc t = Selecting then down_turn rt s t else None)"

section \<open>Case distinctions\<close>

lemma up_read_turn_cases:
  assumes "t_up t = UpReading"
  obtains (wait) ws where "poll_read (MAX_PAYLOAD + spare) (t_ws t) = (ws, Pending)" "up_read_turn spare t = t\<lparr>t_ws := ws\<rparr>"
  | (ended) ws y where "poll_read (MAX_PAYLOAD + spare) (t_ws t) = (ws, y)" "y = Ready (Inr []) \<or> (\<exists>e. y = Ready (Inl e))"
      "up_read_turn spare t = t\<lparr>t_ws := ws, t_up := UpEnded\<rparr>"
  | (got) ws bs where "poll_read (MAX_PAYLOAD + spare) (t_ws t) = (ws, Ready (Inr bs))" "bs \<noteq> []"
      "up_read_turn spare t = t\<lparr>t_ws := ws, t_up := UpSending (bs, None), t_read := t_read t @ bs\<rparr>"
proof -
  obtain ws y where p: "poll_read (MAX_PAYLOAD + spare) (t_ws t) = (ws, y)" by fastforce
  show thesis
  proof (cases y)
    case Pending
    with p that(1) show thesis by (simp add: up_read_turn_def)
  next
    case (Ready r)
    with p that(2,3) show thesis by (cases r) (auto simp: up_read_turn_def split: if_splits)
  qed
qed

text \<open>Which turn it was, and where.\<close>

lemma tunnel_turn_cases:
  assumes "tunnel_turn rt k n u s t = Some (s', t')"
  obtains (preamble) expired where "t_pc t = Preamble" "s' = s" "t' = preamble_turn expired t"
  | (route) hit where "t_pc t = Routing" "s' = s" "t' = route_turn k hit t"
  | (call) "t_pc t = Calling" "call_turn rt s t = (s', t')"
  | (opens) p where "t_pc t = Opening p" "open_turn rt n p s t = (s', t')"
  | (forward) fut tx where "t_pc t = Forwarding fut" "t_half t = Some tx" "forward_turn rt tx fut s t = (s', t')"
  | (select) "t_pc t = Selecting" "s' = s" "select_turn t = Some t'"
  | (close) tx where "t_pc t = Closing" "t_half t = Some tx" "close_turn rt tx s t = (s', t')"
  | (return) f tx where "t_pc t = ClosingSend f" "t_half t = Some tx" "return_turn rt tx f s t = (s', t')"
  | (up_read) spare where "t_up t = UpReading" "s' = s" "t' = up_read_turn spare t"
  | (up_send) fut tx where "t_up t = UpSending fut" "t_half t = Some tx" "up_send_turn rt tx fut s t = (s', t')"
  | (down_recv) tx where "t_pc t = Selecting" "t_down t = DownRecv" "t_half t = Some tx" "down_recv_turn rt tx s t = (s', t')"
  | (down_write) chunk rest where "t_pc t = Selecting" "t_down t = DownWriting chunk rest" "s' = s" "t' = down_write_turn chunk rest t"
  | (down_grant) tx where "t_pc t = Selecting" "t_down t = DownGranting" "t_half t = Some tx" "down_grant_turn rt tx s t = (s', t')"
  | (down_shut) "t_pc t = Selecting" "t_down t = DownShutting" "s' = s" "t' = down_shut_turn t"
proof (cases u)
  case Main
  with assms have "main_turn rt n s t = Some (s', t')" by (simp add: tunnel_turn_def)
  with preamble call opens forward select close return show thesis
    by (auto simp: main_turn_def split: main_pc.splits option.splits)
next
  case (Uplink spare)
  with assms have "up_turn rt spare s t = Some (s', t')" by (simp add: tunnel_turn_def)
  with up_read up_send show thesis by (auto simp: up_turn_def split: up_pc.splits option.splits)
next
  case Downlink
  with assms have "t_pc t = Selecting" "down_turn rt s t = Some (s', t')" by (auto simp: tunnel_turn_def split: if_splits)
  with down_recv down_write down_grant down_shut show thesis
    by (auto simp: down_turn_def split: down_pc.splits option.splits)
qed (use assms preamble route in \<open>auto simp: tunnel_turn_def split: if_splits\<close>)

lemmas turn_defs = preamble_turn_def route_turn_def call_turn_def forward_turn_def select_turn_def
  close_turn_def return_turn_def up_read_turn_def up_send_turn_def down_recv_turn_def down_write_turn_def
  down_grant_turn_def down_shut_turn_def

end
