(* ===== verification/Link.thy ===== *)
theory Link
  imports Tunnel
begin

text \<open>
  One bridge link with all the client tunnels on it: the session, its reader and writer, and any
  number of tunnels, each at its own place. An action is one turn of one task. Every run of a
  link is a run of the session under \<open>mux_step\<close>, so what holds in every interleaving of the
  session's tasks holds here.
\<close>

section \<open>The link\<close>

text \<open>
  The last two fields are a log: the frames the reader has handled, and those the writer has
  taken off the outbox.
\<close>

record ('q, 'b, 'o) link =
  l_ses :: "('q, 'b, 'o) mux_session"
  l_reader :: reader_pc
  l_tunnels :: "tunnel list"
  l_heard :: "bytes list"
  l_wire :: "frame list"

datatype act =
    Connect sock | Turn nat turn | ReadNext arrival | ReaderSends | ReaderEnds | WriterTakes | WriterEnds | ShutDown

fun messages_of :: "arrival \<Rightarrow> bytes list" where
  "messages_of (Decoded frm) = [frm]"
| "messages_of _ = []"

text \<open>
  One action, if it is enabled. A frame that makes the reader panic aborts the process. No
  handler for the peer's streams is registered in production.
\<close>

definition link_do :: "('q, 'b, 'o) runtime \<Rightarrow> bytes \<Rightarrow> act \<Rightarrow> ('q, 'b, 'o) link \<Rightarrow> ('q, 'b, 'o) link option" where
  "link_do rt k x w =
     (case x of
        Connect sk \<Rightarrow>
          if taken sk = [] \<and> sent sk = [] then Some (w\<lparr>l_tunnels := l_tunnels w @ [tunnel_new sk]\<rparr>) else None
      | Turn j u \<Rightarrow>
          if j < length (l_tunnels w)
          then map_option (\<lambda>(s, t). w\<lparr>l_ses := s, l_tunnels := (l_tunnels w)[j := t]\<rparr>)
                 (tunnel_turn rt k (length (l_heard w)) u (l_ses w) (l_tunnels w ! j))
          else None
      | ReadNext nxt \<Rightarrow>
          if l_reader w = Reading
          then (case read_round rt nxt (l_ses w) of
                  Inl r \<Rightarrow> Some (w\<lparr>l_reader := Ending\<rparr>)
                | Inr (s, nx, tx) \<Rightarrow>
                    if nx = Panicked then None
                    else Some (w\<lparr>l_ses := s, l_reader := after nx, l_heard := l_heard w @ messages_of nxt\<rparr>))
          else None
      | ReaderSends \<Rightarrow>
          (case l_reader w of
             Sending f \<Rightarrow>
               (case session_send rt f (l_ses w) of
                  (s, Pending) \<Rightarrow> None
                | (s, Ready r) \<Rightarrow> Some (w\<lparr>l_ses := s, l_reader := (if isl r then Ending else Reading)\<rparr>))
           | _ \<Rightarrow> None)
      | ReaderEnds \<Rightarrow>
          if l_reader w = Ending then Some (w\<lparr>l_ses := drop_all rt (l_ses w), l_reader := Gone\<rparr>) else None
      | WriterTakes \<Rightarrow>
          if ch_rx_open (outch rt) (out (l_ses w))
          then map_option (\<lambda>(s, f). w\<lparr>l_ses := s, l_wire := l_wire w @ [f]\<rparr>) (writer_take rt (l_ses w))
          else None
      | WriterEnds \<Rightarrow> Some (w\<lparr>l_ses := (l_ses w)\<lparr>out := ch_drop_rx (outch rt) (out (l_ses w))\<rparr>\<rparr>)
      | ShutDown \<Rightarrow> Some (w\<lparr>l_ses := shutdown rt (l_ses w), l_reader := Gone\<rparr>))"

definition link_start :: "('q, 'b, 'o) runtime \<Rightarrow> nat \<Rightarrow> ('q, 'b, 'o) link option" where
  "link_start rt n = map_option (\<lambda>s. \<lparr>l_ses = s, l_reader = Reading, l_tunnels = [], l_heard = [], l_wire = []\<rparr>)
     (start rt n False)"

text \<open>A schedule, for evaluation, and the states any schedule reaches.\<close>

fun link_exec :: "('q, 'b, 'o) runtime \<Rightarrow> bytes \<Rightarrow> act list \<Rightarrow> ('q, 'b, 'o) link \<Rightarrow> ('q, 'b, 'o) link option" where
  "link_exec rt k [] w = Some w"
| "link_exec rt k (x # xs) w = (case link_do rt k x w of None \<Rightarrow> None | Some w' \<Rightarrow> link_exec rt k xs w')"

inductive link_run :: "('q, 'b, 'o) runtime \<Rightarrow> bytes \<Rightarrow> nat \<Rightarrow> ('q, 'b, 'o) link \<Rightarrow> bool" for rt k n where
  begun: "link_start rt n = Some w \<Longrightarrow> link_run rt k n w"
| acted: "link_run rt k n w \<Longrightarrow> link_do rt k x w = Some w' \<Longrightarrow> link_run rt k n w'"

lemma link_turnE:
  assumes "link_do rt k (Turn j u) w = Some w'"
  obtains s' t' where "j < length (l_tunnels w)"
    and "tunnel_turn rt k (length (l_heard w)) u (l_ses w) (l_tunnels w ! j) = Some (s', t')"
    and "w' = w\<lparr>l_ses := s', l_tunnels := (l_tunnels w)[j := t']\<rparr>"
  using assms by (auto simp: link_do_def split: if_splits)

lemma link_readE:
  assumes "link_do rt k (ReadNext nxt) w = Some w'"
  obtains (stops) r where "l_reader w = Reading" "read_round rt nxt (l_ses w) = Inl r" "w' = w\<lparr>l_reader := Ending\<rparr>"
  | (frame) frm s nx tx where "l_reader w = Reading" "nxt = Decoded frm" "handle_frame rt frm (l_ses w) = (s, nx, tx)"
      "nx \<noteq> Panicked" "w' = w\<lparr>l_ses := s, l_reader := after nx, l_heard := l_heard w @ [frm]\<rparr>"
  using assms by (cases nxt) (auto simp: link_do_def read_round_def split: if_splits prod.splits)

lemma link_exec_run: "link_run rt k n w \<Longrightarrow> link_exec rt k xs w = Some w' \<Longrightarrow> link_run rt k n w'"
  by (induction xs arbitrary: w) (auto split: option.splits intro: link_run.acted)

section \<open>A link is a session\<close>

text \<open>What of a tunnel the session's step relation sees: a client opening a stream, a send.\<close>

definition t_openers :: "tunnel \<Rightarrow> opener list" where
  "t_openers t = (case t_pc t of Opening p \<Rightarrow> [p] | _ \<Rightarrow> [])"

fun pc_fut :: "main_pc \<Rightarrow> send_fut list" where
  "pc_fut (Forwarding fut) = [fut]"
| "pc_fut pc = []"

fun up_fut :: "up_pc \<Rightarrow> send_fut list" where
  "up_fut (UpSending fut) = [fut]"
| "up_fut pc = []"

definition t_sends :: "tunnel \<Rightarrow> (stream_tx \<times> send_fut) list" where
  "t_sends t =
     (case t_half t of None \<Rightarrow> [] | Some tx \<Rightarrow> map (Pair tx) (pc_fut (t_pc t) @ up_fut (t_up t)))"

definition world_of :: "('q, 'b, 'o) link \<Rightarrow> ('q, 'b, 'o) world" where
  "world_of w = \<lparr>ses = l_ses w, openers = concat (map t_openers (l_tunnels w)),
     sends = concat (map t_sends (l_tunnels w)), reader = l_reader w\<rparr>"

text \<open>The shape of a tunnel: what it holds at which place.\<close>

definition t_wf :: "tunnel \<Rightarrow> bool" where
  "t_wf t =
     (case t_pc t of
        Opening p \<Rightarrow>
          (case p of Announcing tx \<Rightarrow> t_half t = Some tx | _ \<Rightarrow> t_half t = None) \<and> t_up t = UpIdle
      | Forwarding fut \<Rightarrow> t_half t \<noteq> None \<and> t_up t = UpIdle
      | Selecting \<Rightarrow> t_half t \<noteq> None \<and> t_up t \<noteq> UpIdle
      | Closing \<Rightarrow> t_half t \<noteq> None \<and> t_up t \<noteq> UpIdle
      | ClosingSend f \<Rightarrow> (\<exists>tx. t_half t = Some tx \<and> f = control (tx_id tx) KIND_CLOSE) \<and> t_up t \<noteq> UpIdle
      | Returned r \<Rightarrow> t_half t = None \<longrightarrow> t_up t = UpIdle
      | _ \<Rightarrow> t_half t = None \<and> t_up t = UpIdle)"

text \<open>The address of the receiving half while the tunnel holds it.\<close>

definition t_rx :: "tunnel \<Rightarrow> addr option" where
  "t_rx t = (case t_pc t of Returned r \<Rightarrow> None | _ \<Rightarrow> map_option tx_addr (t_half t))"

definition t_placed :: "('q, 'b, 'o) runtime \<Rightarrow> ('q, 'b, 'o) mux_session \<Rightarrow> tunnel \<Rightarrow> bool" where
  "t_placed rt s t \<longleftrightarrow> t_wf t \<and> (\<forall>tx. t_half t = Some tx \<longrightarrow> tx_addr tx < length (shared s))
     \<and> (\<forall>a. t_rx t = Some a \<longrightarrow> hears rt s a)"

subsection \<open>Turns that do not touch the session\<close>

text \<open>
  What the labels of a tunnel's turn say: no frame was handled, only its own inbox was taken
  from, and its receiver is not dropped before the tunnel returns.
\<close>

definition mine :: "tunnel \<Rightarrow> tunnel \<Rightarrow> label list \<Rightarrow> bool" where
  "mine t t' ls \<longleftrightarrow>
     frames_in ls = []
     \<and> (\<forall>a. map_option tx_addr (t_half t') \<noteq> Some a \<longrightarrow> taken_at a ls = [] \<and> Unheard a \<notin> set ls)
     \<and> (\<forall>a. t_rx t' = Some a \<longrightarrow> Unheard a \<notin> set ls)
     \<and> t_chunks t' = t_chunks t @ (case t_half t' of None \<Rightarrow> [] | Some tx \<Rightarrow> taken_at (tx_addr tx) ls)"

text \<open>A world in which the part of one tunnel is singled out.\<close>

abbreviation around :: "('q, 'b, 'o) mux_session \<Rightarrow> reader_pc \<Rightarrow> opener list \<Rightarrow> opener list \<Rightarrow> opener list
    \<Rightarrow> (stream_tx \<times> send_fut) list \<Rightarrow> (stream_tx \<times> send_fut) list \<Rightarrow> (stream_tx \<times> send_fut) list \<Rightarrow> ('q, 'b, 'o) world" where
  "around s r os x os' ss y ss' \<equiv> \<lparr>ses = s, openers = os @ x @ os', sends = ss @ y @ ss', reader = r\<rparr>"

definition matched :: "('q, 'b, 'o) runtime \<Rightarrow> ('q, 'b, 'o) mux_session \<Rightarrow> tunnel \<Rightarrow> ('q, 'b, 'o) mux_session \<times> tunnel \<Rightarrow> bool" where
  "matched rt s t p \<longleftrightarrow> (case p of (s', t') \<Rightarrow>
     \<exists>ls. mine t t' ls \<and> (\<forall>r os os' ss ss'.
       mux_trace rt (around s r os (t_openers t) os' ss (t_sends t) ss') ls
         (around s' r os (t_openers t') os' ss (t_sends t') ss')))"

lemma matchedI:
  assumes "mine t t' ls" and "\<And>r os os' ss ss'. mux_trace rt (around s r os (t_openers t) os' ss (t_sends t) ss') ls
         (around s' r os (t_openers t') os' ss (t_sends t') ss')"
  shows "matched rt s t (s', t')"
  using assms unfolding matched_def by blast

lemma around_steps:
  "open_reserve rt s = Some s' \<Longrightarrow> mux_step rt (around s r os [] os' ss y ss') Tau (around s' r os [Reserved] os' ss y ss')"
  "open_number s = (s', i) \<Longrightarrow> mux_step rt (around s r os [Reserved] os' ss y ss') Tau (around s' r os [Numbered i] os' ss y ss')"
  "open_insert rt i s = (s', tx) \<Longrightarrow>
     mux_step rt (around s r os [Numbered i] os' ss y ss') Tau (around s' r os [Announcing tx] os' ss y ss')"
  "open_announce rt tx s = (s', Ready x) \<Longrightarrow>
     mux_step rt (around s r os [Announcing tx] os' ss y ss') Tau (around s' r os [] os' ss y ss')"
  "tx_addr tx < length (shared s) \<Longrightarrow>
     mux_step rt (around s r os z os' ss [] ss') Tau (around s r os z os' ss [(tx, data, None)] ss')"
  "tx_step rt tx (data, None) s = Step (s', fut) \<Longrightarrow>
     mux_step rt (around s r os z os' ss [(tx, data, None)] ss') Tau (around s' r os z os' ss [(tx, fut)] ss')"
  "tx_step rt tx (data, Some f) s = Step (s', fut) \<Longrightarrow>
     mux_step rt (around s r os z os' ss [(tx, data, Some f)] ss') (Data (tx_addr tx) (length (frame_payload f)))
       (around s' r os z os' ss [(tx, fut)] ss')"
  "mux_step rt (around s r os z os' ss [(tx, data, None)] ss') Tau (around s r os z os' ss [] ss')"
  "mux_step rt (around s r os z os' ss [(tx, data, Some f)] ss') (Lost (tx_addr tx) (length (frame_payload f)))
     (around s r os z os' ss [] ss')"
  using mux_step.reserve [of "around s r os [] os' ss y ss'" os os' rt s']
    mux_step.number [of "around s r os [Reserved] os' ss y ss'" os os' s' i rt]
    mux_step.register [of "around s r os [Numbered i] os' ss y ss'" os i os' rt s' tx]
    mux_step.announce [of "around s r os [Announcing tx] os' ss y ss'" os tx os' rt s' x]
    mux_step.begin_send [of "around s r os z os' ss [] ss'" ss ss' tx rt data]
    mux_step.pay [of "around s r os z os' ss [(tx, data, None)] ss'" ss tx data ss' rt s' fut]
    mux_step.push [of "around s r os z os' ss [(tx, data, Some f)] ss'" ss tx data f ss' rt s' fut]
    mux_step.finish [of "around s r os z os' ss [(tx, data, None)] ss'" ss tx data ss' rt]
    mux_step.abandon [of "around s r os z os' ss [(tx, data, Some f)] ss'" ss tx data f ss' rt]
  by simp_all

lemma session_steps:
  "frame_kind f \<noteq> KIND_DATA \<Longrightarrow> session_send rt f (ses w) = (s', x) \<Longrightarrow> mux_step rt w Tau (w\<lparr>ses := s'\<rparr>)"
  "tx_close rt tx (ses w) = (s', f) \<Longrightarrow> mux_step rt w Tau (w\<lparr>ses := s'\<rparr>)"
  "hears rt (ses w) a \<Longrightarrow> rx_recv rt a (ses w) = (s', y) \<Longrightarrow> mux_step rt w (take_label a y) (w\<lparr>ses := s'\<rparr>)"
  "mux_step rt w (Unheard a) (w\<lparr>ses := drop_rx rt a (ses w)\<rparr>)"
  unfolding drop_rx_def hears_def by (blast intro: mux_step.intros)+

lemma trace_one: "mux_step rt w l w' \<Longrightarrow> mux_trace rt w [l] w'"
  using mux_trace.onwards [OF mux_trace.here] by fastforce

lemma trace_two: "mux_step rt w l w1 \<Longrightarrow> mux_step rt w1 l' w2 \<Longrightarrow> mux_trace rt w [l, l'] w2"
  using mux_trace.onwards [OF trace_one] by fastforce

lemma matched_none:
  assumes "t_openers t' = t_openers t" and "t_sends t' = t_sends t" and "t_chunks t' = t_chunks t"
  shows "matched rt s t (s, t')"
  using assms by (intro matchedI [where ls = "[]"]) (simp_all add: mine_def mux_trace.here split: option.splits)

lemmas t_views = t_openers_def t_sends_def

lemma matched_preamble: "t_wf t \<Longrightarrow> t_pc t = Preamble \<Longrightarrow> matched rt s t (s, preamble_turn x t)"
  by (intro matched_none)
    (auto simp: preamble_turn_def t_views t_wf_def split: prod.splits poll.splits sum.splits option.splits)

lemma matched_route: "t_wf t \<Longrightarrow> t_pc t = Routing \<Longrightarrow> matched rt s t (s, route_turn k hit t)"
  by (intro matched_none) (auto simp: route_turn_def t_views t_wf_def)

lemma matched_select: "t_pc t = Selecting \<Longrightarrow> select_turn t = Some t' \<Longrightarrow> matched rt s t (s, t')"
  by (intro matched_none) (auto simp: select_turn_def t_views split: if_splits option.splits)

lemma matched_down_write: "matched rt s t (s, down_write_turn chunk rest t)"
  by (intro matched_none)
    (auto simp: down_write_turn_def t_views Let_def split: prod.splits poll.splits sum.splits option.splits main_pc.splits)

lemma matched_down_shut: "matched rt s t (s, down_shut_turn t)"
  by (intro matched_none)
    (auto simp: down_shut_turn_def t_views split: prod.splits poll.splits option.splits main_pc.splits)

subsection \<open>Turns that are steps of the session\<close>

lemma mine_silent:
  assumes "set ls \<subseteq> {Tau} \<union> range (case_prod Data) \<union> range (case_prod Lost)" and "t_chunks t' = t_chunks t"
  shows "mine t t' ls"
proof -
  have "frames_in ls = []" "taken_at a ls = []" for a
    using assms(1) by (induction ls) (auto simp: frames_in_def taken_at_def)
  with assms show ?thesis by (auto simp: mine_def split: option.splits)
qed

text \<open>The last step of a tunnel drops its receiver.\<close>

lemma mine_drops:
  assumes "mine t t' ls" and "t_half t' = Some tx" and "t_rx t' = None"
  shows "mine t t' (ls @ [Unheard (tx_addr tx)])"
  using assms by (auto simp: mine_def)

lemma matched_step:
  assumes "\<And>r os os' ss ss'. mux_step rt (around s r os (t_openers t) os' ss (t_sends t) ss') l
         (around s' r os (t_openers t') os' ss (t_sends t') ss')"
    and "mine t t' [l]"
  shows "matched rt s t (s', t')"
  using assms(2) by (rule matchedI) (rule trace_one [OF assms(1)])

lemma matched_steps:
  assumes "\<And>r os os' ss ss'. mux_step rt (around s r os (t_openers t) os' ss (t_sends t) ss') l
         (around s1 r os x os' ss y ss')"
    and "\<And>r os os' ss ss'. mux_step rt (around s1 r os x os' ss y ss') l'
         (around s' r os (t_openers t') os' ss (t_sends t') ss')"
    and "mine t t' [l, l']"
  shows "matched rt s t (s', t')"
  using assms(3) by (rule matchedI) (rule trace_two [OF assms(1,2)])

lemma matched_call:
  assumes "t_wf t" and "t_pc t = Calling"
  shows "matched rt s t (call_turn rt s t)"
proof (cases "open_reserve rt s")
  case None
  then show ?thesis using matched_none [of "t\<lparr>t_pc := Returned (Inr ())\<rparr>" t rt s] assms
    by (simp add: call_turn_def t_views t_wf_def)
next
  case (Some s')
  let ?t = "t\<lparr>t_pc := Opening Reserved\<rparr>"
  have v: "t_openers t = []" "t_openers ?t = [Reserved]" "t_sends ?t = t_sends t"
    using assms by (simp_all add: t_views t_wf_def)
  have "matched rt s t (s', ?t)"
    by (rule matched_step, unfold v, rule around_steps(1) [OF Some]) (simp add: mine_silent)
  then show ?thesis by (simp add: call_turn_def Some)
qed

lemma mux_step_drops:
  "mux_step rt (around s r os x os' ss y ss') (Unheard a) (around (drop_rx rt a s) r os x os' ss y ss')"
  using session_steps(4) [of rt "around s r os x os' ss y ss'" a] by simp

lemma matched_open:
  assumes wf: "t_placed rt s t" and pc: "t_pc t = Opening p"
  shows "matched rt s t (open_turn rt n p s t)"
proof (cases p)
  case Reserved
  obtain s' i where num: "open_number s = (s', i)" by fastforce
  let ?t = "t\<lparr>t_pc := Opening (Numbered i)\<rparr>"
  have v: "t_openers t = [Reserved]" "t_openers ?t = [Numbered i]" "t_sends ?t = t_sends t"
    using pc Reserved wf by (simp_all add: t_views t_placed_def t_wf_def)
  have "matched rt s t (s', ?t)"
    by (rule matched_step, unfold v, rule around_steps(2) [OF num]) (simp add: mine_silent)
  then show ?thesis by (simp add: open_turn_def Reserved num)
next
  case (Numbered i)
  obtain s' tx where ins: "open_insert rt i s = (s', tx)" by fastforce
  let ?t = "t\<lparr>t_pc := Opening (Announcing tx), t_half := Some tx, t_since := n\<rparr>"
  have v: "t_openers t = [Numbered i]" "t_openers ?t = [Announcing tx]" "t_sends ?t = t_sends t"
    using pc Numbered wf by (simp_all add: t_views t_placed_def t_wf_def)
  have "matched rt s t (s', ?t)"
    by (rule matched_step, unfold v, rule around_steps(3) [OF ins]) (simp add: mine_silent)
  then show ?thesis by (simp add: open_turn_def Numbered ins)
next
  case (Announcing tx)
  have half: "t_half t = Some tx" "t_up t = UpIdle" "tx_addr tx < length (shared s)"
    using wf pc Announcing by (auto simp: t_placed_def t_wf_def)
  obtain s' y where ann: "open_announce rt tx s = (s', y)" by fastforce
  note step = around_steps(4) [of rt tx s s']
  have v: "t_openers t = [Announcing tx]" "t_sends t = []"
    using pc Announcing half by (simp_all add: t_views)
  consider "y = Pending" | "y = Ready None" | tx' where "y = Ready (Some tx')" by (cases y) (auto elim: option.exhaust)
  then show ?thesis
  proof cases
    case 1
    then have "s' = s" using ann by (auto simp: open_announce_def session_send_def split: sending.splits prod.splits poll.splits sum.splits)
    then show ?thesis using 1 ann matched_none [of t t] by (simp add: open_turn_def Announcing)
  next
    case 2
    let ?t = "t\<lparr>t_pc := Returned (Inr ())\<rparr>"
    have u: "t_openers ?t = []" "t_sends ?t = []" using half by (simp_all add: t_views)
    have "mine t ?t ([Tau] @ [Unheard (tx_addr tx)])"
      by (rule mine_drops) (simp_all add: mine_silent half t_rx_def)
    then have "matched rt s t (drop_rx rt (tx_addr tx) s', ?t)"
      by (intro matched_steps, unfold v u) (rule step [OF ann [unfolded 2]], rule mux_step_drops, simp)
    then show ?thesis using 2 ann by (simp add: open_turn_def Announcing)
  next
    case (3 tx')
    let ?t = "t\<lparr>t_pc := Forwarding (t_head t, None)\<rparr>"
    have u: "t_openers ?t = []" "t_sends ?t = [(tx, t_head t, None)]" using half by (simp_all add: t_views)
    have "shared s' = shared s"
      using ann 3 by (auto simp: open_announce_def session_send_def split: sending.splits prod.splits poll.splits sum.splits)
    then have addr: "tx_addr tx < length (shared s')" using half by simp
    have "matched rt s t (s', ?t)"
      by (rule matched_steps, unfold v u, rule step [OF ann [unfolded 3]], rule around_steps(5) [OF addr])
        (simp add: mine_silent)
    then show ?thesis using 3 ann by (simp add: open_turn_def Announcing)
  qed
qed

lemma progress_cases:
  fixes p :: "('a \<times> 'b) progress"
  obtains s fut where "p = Step (s, fut)" | "p = Stop Pending" | "p = Stop (Ready (Inr ()))" | e where "p = Stop (Ready (Inl e))"
proof (cases p)
  case (Stop r)
  with that show ?thesis by (cases r) (auto elim: sumE)
qed (use that in force)

text \<open>A step of a send, and its end.\<close>

definition paid_label :: "(addr \<Rightarrow> nat \<Rightarrow> label) \<Rightarrow> stream_tx \<Rightarrow> send_fut \<Rightarrow> label" where
  "paid_label c tx fut = (case snd fut of None \<Rightarrow> Tau | Some f \<Rightarrow> c (tx_addr tx) (length (frame_payload f)))"

lemma around_tx_step:
  assumes "tx_step rt tx fut s = Step (s', fut')"
  shows "mux_step rt (around s r os z os' ss [(tx, fut)] ss') (paid_label Data tx fut)
    (around s' r os z os' ss [(tx, fut')] ss')"
proof (cases "snd fut")
  case None
  with assms around_steps(6) [of rt tx "fst fut" s s' fut', where r = r and os = os and z = z and os' = os' and ss = ss and ss' = ss'] show ?thesis
    by (cases fut) (simp add: paid_label_def)
next
  case (Some f)
  with assms around_steps(7) [of rt tx "fst fut" f s s' fut', where r = r and os = os and z = z and os' = os' and ss = ss and ss' = ss'] show ?thesis
    by (cases fut) (simp add: paid_label_def)
qed

lemma around_tx_stop:
  "mux_step rt (around s r os z os' ss [(tx, fut)] ss') (paid_label Lost tx fut) (around s r os z os' ss [] ss')"
proof (cases "snd fut")
  case None
  with around_steps(8) [where tx = tx and data = "fst fut" and s = s and r = r and os = os and z = z and os' = os' and ss = ss and ss' = ss'] show ?thesis
    by (cases fut) (simp add: paid_label_def)
next
  case (Some f)
  with around_steps(9) [where tx = tx and data = "fst fut" and f = f and s = s and r = r and os = os and z = z and os' = os' and ss = ss and ss' = ss'] show ?thesis
    by (cases fut) (simp add: paid_label_def)
qed

lemma mine_paid:
  "t_chunks t' = t_chunks t \<Longrightarrow> mine t t' [paid_label Data tx fut]"
  "t_chunks t' = t_chunks t \<Longrightarrow> mine t t' [paid_label Lost tx fut]"
  by (auto simp: paid_label_def image_iff intro!: mine_silent split: option.splits)

lemma matched_tx_step:
  assumes step: "tx_step rt tx fut s = Step (s', fut')" and v: "t_openers t' = t_openers t"
      "t_sends t = [(tx, fut)]" "t_sends t' = [(tx, fut')]" and "t_chunks t' = t_chunks t"
  shows "matched rt s t (s', t')"
  by (rule matched_step, unfold v, rule around_tx_step [OF step], rule mine_paid [OF assms(5)])

lemma matched_tx_stop:
  assumes v: "t_openers t' = t_openers t" "t_sends t = [(tx, fut)]" "t_sends t' = []" and "t_chunks t' = t_chunks t"
  shows "matched rt s t (s, t')"
  by (rule matched_step, unfold v, rule around_tx_stop, rule mine_paid [OF assms(4)])

lemma matched_forward:
  assumes wf: "t_wf t" and pc: "t_pc t = Forwarding fut" and half: "t_half t = Some tx"
  shows "matched rt s t (forward_turn rt tx fut s t)"
proof -
  have v: "t_openers t = []" "t_sends t = [(tx, fut)]"
    using wf pc half by (simp_all add: t_views t_wf_def)
  have up: "t_up t = UpIdle" using wf pc by (simp add: t_wf_def)
  show ?thesis
  proof (cases "tx_step rt tx fut s" rule: progress_cases)
    case (1 s' fut')
    then show ?thesis
      using matched_tx_step [OF 1, of "t\<lparr>t_pc := Forwarding fut', t_queued := t_queued t @ new_in_outbox rt s s'\<rparr>" t] v half up
      by (simp add: forward_turn_def t_views)
  next
    case 2
    then show ?thesis using matched_none [of t t] by (simp add: forward_turn_def)
  next
    case 3
    then show ?thesis
      using matched_tx_stop [of "t\<lparr>t_pc := Selecting, t_up := UpReading\<rparr>" t tx fut] v half
      by (simp add: forward_turn_def t_views)
  next
    case (4 e)
    let ?t = "t\<lparr>t_pc := Returned (Inl e)\<rparr>"
    have u: "t_openers ?t = []" "t_sends ?t = []" using half up by (simp_all add: t_views)
    have "mine t ?t ([paid_label Lost tx fut] @ [Unheard (tx_addr tx)])"
      by (rule mine_drops) (simp_all add: mine_paid half t_rx_def)
    then have "matched rt s t (drop_rx rt (tx_addr tx) s, ?t)"
      by (intro matched_steps, unfold v u) (rule around_tx_stop, rule mux_step_drops, simp)
    then show ?thesis using 4 by (simp add: forward_turn_def)
  qed
qed

lemma control_kind [simp]: "frame_kind (control i kind) = kind"
  by (simp add: control_def)

lemma matched_session:
  assumes "\<And>w :: ('q, 'b, 'o) world. ses w = s \<Longrightarrow> mux_step rt w l (w\<lparr>ses := s'\<rparr>)"
    and v: "t_openers t' = t_openers t" "t_sends t' = t_sends t" and "mine t t' [l]"
  shows "matched rt s t (s', t')"
proof (rule matched_step)
  show "mux_step rt (around s r os (t_openers t) os' ss (t_sends t) ss') l
      (around s' r os (t_openers t') os' ss (t_sends t') ss')" for r os os' ss ss'
    using assms(1) [of "around s r os (t_openers t) os' ss (t_sends t) ss'"] by (simp add: v)
qed (rule assms(4))

lemma matched_close:
  assumes "t_half t = Some tx" and "t_pc t = Closing"
  shows "matched rt s t (close_turn rt tx s t)"
proof -
  obtain s' f where cl: "tx_close rt tx s = (s', f)" by fastforce
  have "matched rt s t (s', t\<lparr>t_pc := ClosingSend f\<rparr>)"
    using assms session_steps(2) [of rt tx _ s' f] cl
    by (intro matched_session [where l = Tau]) (simp_all add: t_views mine_silent)
  then show ?thesis by (simp add: close_turn_def cl)
qed

lemma session_send_waits: "session_send rt f s = (s', Pending) \<Longrightarrow> s' = s"
  by (auto simp: session_send_def split: sending.splits)

lemma matched_return:
  assumes half: "t_half t = Some tx" and pc: "t_pc t = ClosingSend f" and kind: "frame_kind f \<noteq> KIND_DATA"
  shows "matched rt s t (return_turn rt tx f s t)"
proof -
  obtain s' x where send: "session_send rt f s = (s', x)" by fastforce
  show ?thesis
  proof (cases x)
    case Pending
    then show ?thesis using send session_send_waits [of rt f s s'] matched_none [of t t] by (simp add: return_turn_def)
  next
    case (Ready y)
    let ?t = "t\<lparr>t_pc := Returned (Inr ())\<rparr>"
    have v: "t_openers ?t = t_openers t" "t_sends ?t = t_sends t" using pc by (simp_all add: t_views split: option.splits)
    have step: "mux_step rt (around s r os x' os' ss y' ss') Tau (around s' r os x' os' ss y' ss')" for r os x' os' ss y' ss'
      using session_steps(1) [OF kind, of rt "around s r os x' os' ss y' ss'"] send by simp
    have "mine t ?t ([Tau] @ [Unheard (tx_addr tx)])"
      by (rule mine_drops) (simp_all add: mine_silent half t_rx_def)
    then have "matched rt s t (drop_rx rt (tx_addr tx) s', ?t)"
      by (intro matched_steps, unfold v) (rule step, rule mux_step_drops, simp)
    then show ?thesis using send Ready by (simp add: return_turn_def)
  qed
qed

lemma matched_up_read:
  assumes half: "t_half t = Some tx" and up: "t_up t = UpReading" and "tx_addr tx < length (shared s)"
    and pc: "pc_fut (t_pc t) = []"
  shows "matched rt s t (s, up_read_turn spare t)"
proof -
  have v: "t_sends t = []" using half up pc by (simp add: t_views)
  from up show ?thesis
  proof (cases rule: up_read_turn_cases [where t = t and spare = spare])
    case (got ws bs)
    let ?t = "t\<lparr>t_ws := ws, t_up := UpSending (bs, None), t_read := t_read t @ bs\<rparr>"
    have u: "t_openers ?t = t_openers t" "t_sends ?t = [(tx, bs, None)]" using half pc by (simp_all add: t_views)
    have "matched rt s t (s, ?t)"
      by (rule matched_step, unfold u v, rule around_steps(5) [OF assms(3)]) (simp add: mine_silent)
    then show ?thesis by (simp add: got)
  qed (use half up pc in \<open>auto intro!: matched_none simp: t_views\<close>)
qed

lemma matched_up_send:
  assumes half: "t_half t = Some tx" and up: "t_up t = UpSending fut" and pc: "pc_fut (t_pc t) = []"
  shows "matched rt s t (up_send_turn rt tx fut s t)"
proof -
  have v: "t_sends t = [(tx, fut)]" using half up pc by (simp add: t_views)
  show ?thesis
  proof (cases "tx_step rt tx fut s" rule: progress_cases)
    case (1 s' fut')
    then show ?thesis
      using matched_tx_step [OF 1, of "t\<lparr>t_up := UpSending fut', t_queued := t_queued t @ new_in_outbox rt s s'\<rparr>" t] v half pc
      by (simp add: up_send_turn_def t_views)
  next
    case 2
    then show ?thesis using matched_none [of t t] by (simp add: up_send_turn_def)
  next
    case 3
    then show ?thesis using matched_tx_stop [of "t\<lparr>t_up := UpReading\<rparr>" t tx fut] v half pc
      by (simp add: up_send_turn_def t_views)
  next
    case (4 e)
    then show ?thesis using matched_tx_stop [of "t\<lparr>t_up := UpEnded\<rparr>" t tx fut] v half pc
      by (simp add: up_send_turn_def t_views)
  qed
qed

lemma matched_down_recv:
  assumes half: "t_half t = Some tx" and "hears rt s (tx_addr tx)"
  shows "matched rt s t (down_recv_turn rt tx s t)"
proof -
  obtain s' y where recv: "rx_recv rt (tx_addr tx) s = (s', y)" by fastforce
  obtain s1 t' where turn: "down_recv_turn rt tx s t = (s1, t')" by fastforce
  then have "s1 = s'" and v: "t_openers t' = t_openers t" "t_sends t' = t_sends t"
    and t': "t_half t' = Some tx" "t_chunks t' = t_chunks t @ taken_at (tx_addr tx) [take_label (tx_addr tx) y]"
    using recv half
    by (auto simp: down_recv_turn_def t_views split: poll.splits option.splits main_pc.splits)
  moreover have "mine t t' [take_label (tx_addr tx) y]"
    using t' by (auto simp: mine_def take_label_def frames_in_def taken_at_def split: poll.splits option.splits)
  ultimately have "matched rt s t (s', t')"
    using session_steps(3) [of rt _ "tx_addr tx" s' y] assms(2) recv
    by (intro matched_session [where l = "take_label (tx_addr tx) y"]) auto
  with turn \<open>s1 = s'\<close> show ?thesis by simp
qed

lemma matched_down_grant: "matched rt s t (down_grant_turn rt tx s t)"
proof -
  obtain s' y where send: "tx_grant rt tx (t_pending t) s = (s', y)" by fastforce
  obtain s1 t' where turn: "down_grant_turn rt tx s t = (s1, t')" by fastforce
  then have "s1 = s'" and v: "t_openers t' = t_openers t" "t_sends t' = t_sends t" "t_chunks t' = t_chunks t"
    using send by (auto simp: down_grant_turn_def t_views split: poll.splits sum.splits option.splits main_pc.splits)
  moreover have "frame_kind (grant_frame (tx_id tx) (t_pending t)) \<noteq> KIND_DATA"
    by (simp add: grant_frame_def wire_consts)
  ultimately have "matched rt s t (s', t')"
    using session_steps(1) [of "grant_frame (tx_id tx) (t_pending t)" rt _ s' y] send
    by (intro matched_session [where l = Tau]) (simp_all add: mine_silent tx_grant_def)
  with turn \<open>s1 = s'\<close> show ?thesis by simp
qed

lemma turn_matched:
  assumes run: "tunnel_turn rt k n u s t = Some p" and ok: "t_placed rt s t"
  shows "matched rt s t p"
proof -
  have wf: "t_wf t" using ok by (simp add: t_placed_def)
  show ?thesis
  proof (cases u)
    case Deadline
    with run wf show ?thesis by (auto simp: tunnel_turn_def matched_preamble split: if_splits)
  next
    case (Lookup hit)
    with run wf show ?thesis by (auto simp: tunnel_turn_def matched_route split: if_splits)
  next
    case Main
    with run have run: "main_turn rt n s t = Some p" by (simp add: tunnel_turn_def)
    have "frame_kind f \<noteq> KIND_DATA" if "t_pc t = ClosingSend f" for f
      using wf that by (auto simp: t_wf_def wire_consts)
    then show ?thesis
      using run wf matched_open [OF ok]
      by (auto simp: main_turn_def matched_preamble matched_call matched_forward matched_select matched_close
          matched_return split: main_pc.splits option.splits)
  next
    case (Uplink spare)
    with run have run: "up_turn rt spare s t = Some p" by (simp add: tunnel_turn_def)
    then have "t_up t \<noteq> UpIdle" by (auto simp: up_turn_def)
    then obtain tx where half: "t_half t = Some tx" "tx_addr tx < length (shared s)" and pc: "pc_fut (t_pc t) = []"
      using ok by (auto simp: t_placed_def t_wf_def split: main_pc.splits opener.splits)
    then show ?thesis
      using run matched_up_read [OF half(1) _ half(2) pc] matched_up_send [OF half(1) _ pc]
      by (auto simp: up_turn_def split: up_pc.splits)
  next
    case Downlink
    with run have run: "down_turn rt s t = Some p" and pc: "t_pc t = Selecting"
      by (auto simp: tunnel_turn_def split: if_splits)
    then have "hears rt s (tx_addr tx)" if "t_half t = Some tx" for tx
      using ok that by (simp add: t_placed_def t_rx_def)
    then show ?thesis
      using run by (auto simp: down_turn_def matched_down_recv matched_down_write matched_down_grant matched_down_shut
          split: down_pc.splits option.splits)
  qed
qed

subsection \<open>Actions are traces\<close>

lemma concat_update:
  assumes "j < length ts"
  shows "concat (map f ts) = concat (map f (take j ts)) @ f (ts ! j) @ concat (map f (drop (Suc j) ts))"
    and "concat (map f (ts[j := t])) = concat (map f (take j ts)) @ f t @ concat (map f (drop (Suc j) ts))"
proof -
  have "concat (map f ts) = concat (map f (take j ts @ ts ! j # drop (Suc j) ts))"
    using assms by (simp flip: id_take_nth_drop)
  then show "concat (map f ts) = concat (map f (take j ts)) @ f (ts ! j) @ concat (map f (drop (Suc j) ts))" by simp
qed (use assms in \<open>simp add: upd_conv_take_nth_drop\<close>)

lemma link_turn_trace:
  assumes run: "link_do rt k (Turn j u) w = Some w'" and ok: "t_placed rt (l_ses w) (l_tunnels w ! j)"
  obtains ls where "mux_trace rt (world_of w) ls (world_of w')" and "mine (l_tunnels w ! j) (l_tunnels w' ! j) ls"
proof -
  let ?ts = "l_tunnels w" and ?t = "l_tunnels w ! j"
  obtain s' t' where j: "j < length ?ts" and turn: "tunnel_turn rt k (length (l_heard w)) u (l_ses w) ?t = Some (s', t')"
    and w': "w' = w\<lparr>l_ses := s', l_tunnels := ?ts[j := t']\<rparr>"
    using run by (rule link_turnE)
  obtain ls where ls: "mine ?t t' ls" and trace: "\<And>r os os' ss ss'.
      mux_trace rt (around (l_ses w) r os (t_openers ?t) os' ss (t_sends ?t) ss') ls
        (around s' r os (t_openers t') os' ss (t_sends t') ss')"
    using turn_matched [OF turn ok] by (auto simp: matched_def)
  have "mux_trace rt (world_of w) ls (world_of w')"
    using trace [of "concat (map t_openers (take j ?ts))" "concat (map t_openers (drop (Suc j) ?ts))"
        "concat (map t_sends (take j ?ts))" "concat (map t_sends (drop (Suc j) ?ts))" "l_reader w"] j
    by (simp add: world_of_def w' concat_update [OF j, of t_openers] concat_update [OF j, of t_sends])
  with ls j show thesis by (intro that) (simp_all add: w')
qed

text \<open>An action that is not a turn.\<close>

lemma link_act_trace:
  assumes "link_do rt k x w = Some w'" and "\<nexists>j u. x = Turn j u"
  shows "\<exists>ls. mux_trace rt (world_of w) ls (world_of w') \<and> l_heard w' = l_heard w @ frames_in ls
    \<and> (\<forall>a. taken_at a ls = [] \<and> Unheard a \<notin> set ls) \<and> (\<exists>ts. l_tunnels w' = l_tunnels w @ map tunnel_new ts)"
proof (cases "\<exists>sk. x = Connect sk")
  case True
  then obtain sk where "w' = w\<lparr>l_tunnels := l_tunnels w @ [tunnel_new sk]\<rparr>"
    using assms(1) by (auto simp: link_do_def split: if_splits)
  moreover from this have "world_of w' = world_of w"
    by (simp add: world_of_def t_views tunnel_new_def)
  ultimately show ?thesis
    by (intro exI [of _ "[]"]) (auto intro: mux_trace.here exI [of _ "[sk]"])
next
  case False
  have "\<exists>l. mux_step rt (world_of w) l (world_of w') \<and> l_heard w' = l_heard w @ frames_in [l]
      \<and> (\<forall>a. taken_at a [l] = [] \<and> l \<noteq> Unheard a) \<and> l_tunnels w' = l_tunnels w"
  proof (cases x)
    case (ReadNext nxt)
    with assms(1) consider (stops) r where "l_reader w = Reading" "read_round rt nxt (l_ses w) = Inl r" "w' = w\<lparr>l_reader := Ending\<rparr>"
      | (frame) frm s nx tx where "l_reader w = Reading" "handle_frame rt frm (l_ses w) = (s, nx, tx)" "nx \<noteq> Panicked"
          "w' = w\<lparr>l_ses := s, l_reader := after nx, l_heard := l_heard w @ [frm]\<rparr>"
      by (auto elim: link_readE)
    then show ?thesis
    proof cases
      case stops
      with mux_step.reader_stops [of "world_of w" rt nxt r] show ?thesis
        by (intro exI [of _ Tau]) (simp add: world_of_def)
    next
      case frame
      with mux_step.frame [of "world_of w" rt frm s nx tx] show ?thesis
        by (intro exI [of _ "Handled frm (frame_grant (l_ses w) frm)"]) (simp add: world_of_def)
    qed
  next
    case ReaderSends
    then obtain f s r where "l_reader w = Sending f" "session_send rt f (l_ses w) = (s, Ready r)"
      "w' = w\<lparr>l_ses := s, l_reader := (if isl r then Ending else Reading)\<rparr>"
      using assms(1) by (auto simp: link_do_def split: reader_pc.splits prod.splits poll.splits)
    with mux_step.reader_send [of "world_of w" f rt s r] show ?thesis
      by (intro exI [of _ Tau]) (simp add: world_of_def)
  next
    case ReaderEnds
    with assms(1) mux_step.reader_ends [of "world_of w" rt] show ?thesis
      by (intro exI [of _ Tau]) (auto simp: link_do_def world_of_def split: if_splits)
  next
    case WriterTakes
    with assms(1) mux_step.writer [of rt "world_of w"] show ?thesis
      by (intro exI [of _ Tau]) (auto simp: link_do_def world_of_def split: if_splits)
  next
    case WriterEnds
    with assms(1) mux_step.writer_ends [of rt "world_of w"] show ?thesis
      by (intro exI [of _ Tau]) (auto simp: link_do_def world_of_def)
  next
    case ShutDown
    with assms(1) mux_step.shut_down [of rt "world_of w"] show ?thesis
      by (intro exI [of _ Tau]) (auto simp: link_do_def world_of_def)
  qed (use assms(2) False in auto)
  then obtain l where "mux_step rt (world_of w) l (world_of w')" "l_heard w' = l_heard w @ frames_in [l]"
    "\<forall>a. taken_at a [l] = [] \<and> l \<noteq> Unheard a" "l_tunnels w' = l_tunnels w" by blast
  then show ?thesis
    by (intro exI [of _ "[l]"]) (auto intro: trace_one exI [of _ "[]"])
qed

end
