(* ===== verification/Writer.thy ===== *)
theory Writer
  imports Noise Link
begin

text \<open>
  The writer task of \<open>MuxSession::start\<close>: it takes frames off the outbox in batches
  (\<open>recv_many\<close>), feeds them to the \<open>FramedWrite\<close> with the link's encoder, and flushes once per
  batch. \<open>FramedWrite\<close> (\<open>tokio_util\<close>) encodes into a buffer, which \<open>feed\<close> first writes out when it
  has reached the boundary for backpressure, here a parameter. The socket takes as much of a
  write as it likes, or fails; any failure ends the task.
\<close>

section \<open>The task\<close>

definition WRITE_BATCH :: nat where
  "WRITE_BATCH = 32"

text \<open>\<open>recv_many\<close> on the outbox: what is there, up to the limit.\<close>

fun recv_many :: "('q, 'b, 'o) runtime \<Rightarrow> nat \<Rightarrow> ('q, 'b, 'o) mux_session \<Rightarrow> ('q, 'b, 'o) mux_session \<times> frame list" where
  "recv_many rt 0 s = (s, [])"
| "recv_many rt (Suc n) s =
     (case writer_take rt s of
        None \<Rightarrow> (s, [])
      | Some (s', f) \<Rightarrow> (case recv_many rt n s' of (s'', fs) \<Rightarrow> (s'', f # fs)))"

text \<open>
  Where the task is: at \<open>recv_many\<close>, feeding the rest of a batch, writing the buffer out before
  the next \<open>feed\<close>, in \<open>flush\<close>, ended.
\<close>

datatype writer_pc = Receiving | Feeding "frame list" | Draining "frame list" | Flushing | WriterDone

record writer =
  w_pc :: writer_pc
  w_enc :: noise_encoder
  w_buf :: bytes
  w_sock :: bytes

definition writer_new :: writer where
  "writer_new = \<lparr>w_pc = Receiving, w_enc = snd codecs, w_buf = [], w_sock = []\<rparr>"

text \<open>
  What the task waits for: a batch, the last sender gone, a write of the socket (bytes taken or an
  error), nothing, or its abortion.
\<close>

datatype writer_io = Batch "frame list" | OutboxClosed | Wrote "nat result" | Proceed | Aborted

text \<open>A write of no bytes is an error of \<open>FramedWrite\<close>.\<close>

definition write_out :: "nat result \<Rightarrow> writer \<Rightarrow> writer" where
  "write_out r v =
     (case r of
        Inl e \<Rightarrow> v\<lparr>w_pc := WriterDone\<rparr>
      | Inr n \<Rightarrow>
          if n = 0 then v\<lparr>w_pc := WriterDone\<rparr>
          else v\<lparr>w_sock := w_sock v @ take n (w_buf v), w_buf := drop n (w_buf v)\<rparr>)"

definition feed_one :: "snow_op \<Rightarrow> frame \<Rightarrow> frame list \<Rightarrow> writer \<Rightarrow> writer" where
  "feed_one wm f fs v =
     (case noise_encode wm (w_enc v) f (w_buf v) of
        Inl e \<Rightarrow> v\<lparr>w_pc := WriterDone\<rparr>
      | Inr (e, buf) \<Rightarrow> v\<lparr>w_pc := Feeding fs, w_enc := e, w_buf := buf\<rparr>)"

definition writer_turn :: "snow_op \<Rightarrow> nat \<Rightarrow> writer_io \<Rightarrow> writer \<Rightarrow> writer option" where
  "writer_turn wm boundary io v =
     (case (w_pc v, io) of
        (WriterDone, _) \<Rightarrow> None
      | (_, Aborted) \<Rightarrow> Some (v\<lparr>w_pc := WriterDone\<rparr>)
      | (Receiving, OutboxClosed) \<Rightarrow> Some (v\<lparr>w_pc := WriterDone\<rparr>)
      | (Receiving, Batch fs) \<Rightarrow>
          if fs \<noteq> [] \<and> length fs \<le> WRITE_BATCH then Some (v\<lparr>w_pc := Feeding fs\<rparr>) else None
      | (Feeding [], Proceed) \<Rightarrow> Some (v\<lparr>w_pc := Flushing\<rparr>)
      | (Feeding (f # fs), Proceed) \<Rightarrow>
          if boundary \<le> length (w_buf v) \<and> w_buf v \<noteq> [] then Some (v\<lparr>w_pc := Draining (f # fs)\<rparr>)
          else Some (feed_one wm f fs v)
      | (Draining fs, Wrote r) \<Rightarrow> if w_buf v \<noteq> [] then Some (write_out r v) else None
      | (Draining fs, Proceed) \<Rightarrow> if w_buf v = [] then Some (v\<lparr>w_pc := Feeding fs\<rparr>) else None
      | (Flushing, Wrote r) \<Rightarrow> if w_buf v \<noteq> [] then Some (write_out r v) else None
      | (Flushing, Proceed) \<Rightarrow> if w_buf v = [] then Some (v\<lparr>w_pc := Receiving\<rparr>) else None
      | _ \<Rightarrow> None)"

fun batch_of :: "writer_io \<Rightarrow> frame list" where
  "batch_of (Batch fs) = fs"
| "batch_of _ = []"

text \<open>The states of the task, with the frames it has received.\<close>

inductive writer_run :: "snow_op \<Rightarrow> nat \<Rightarrow> frame list \<Rightarrow> writer \<Rightarrow> bool" for wm boundary where
  fresh: "writer_run wm boundary [] writer_new"
| turned: "writer_run wm boundary fs v \<Longrightarrow> writer_turn wm boundary io v = Some v' \<Longrightarrow>
    writer_run wm boundary (fs @ batch_of io) v'"

section \<open>Batches are a detail\<close>

text \<open>A batch is so many frames taken one by one.\<close>

lemma recv_many_takes:
  assumes "chan_laws (outch rt)" and "ch_rx_open (outch rt) (out (l_ses w))" and "recv_many rt n (l_ses w) = (s, fs)"
  shows "link_exec rt k (replicate (length fs) WriterTakes) w = Some (w\<lparr>l_ses := s, l_wire := l_wire w @ fs\<rparr>)"
  using assms(2,3)
proof (induction n arbitrary: w s fs)
  case 0
  then show ?case by simp
next
  case (Suc n)
  show ?case
  proof (cases "writer_take rt (l_ses w)")
    case None
    with Suc.prems show ?thesis by simp
  next
    case (Some p)
    then obtain f s1 where p: "writer_take rt (l_ses w) = Some (s1, f)" by (cases p) auto
    let ?w = "w\<lparr>l_ses := s1, l_wire := l_wire w @ [f]\<rparr>"
    obtain gs where gs: "recv_many rt n (l_ses ?w) = (s, gs)" "fs = f # gs"
      using Suc.prems(2) p by (auto split: prod.splits)
    have "ch_rx_open (outch rt) (out (l_ses ?w))"
      using p ch_recv_laws(1) [OF assms(1) Suc.prems(1)] by (auto simp: writer_take_def split: received.splits)
    from Suc.IH [OF this gs(1)] show ?thesis using Suc.prems(1) p gs(2) by (simp add: link_do_def)
  qed
qed

lemma noise_encode_behind:
  "noise_encode wm e f dst = Inr (e', dst') \<Longrightarrow> noise_encode wm e f (xs @ dst) = Inr (e', xs @ dst')"
  by (auto simp: noise_encode_def Let_def split: sum.splits if_splits)

lemma feed_frames_snoc:
  "feed_frames wm e (fs @ [f]) dst =
     (case feed_frames wm e fs dst of Inl err \<Rightarrow> Inl err | Inr (e', dst') \<Rightarrow> noise_encode wm e' f dst')"
  by (induction fs arbitrary: e dst) (auto split: sum.splits)

definition writer_inv :: "snow_op \<Rightarrow> frame list \<Rightarrow> writer \<Rightarrow> bool" where
  "writer_inv wm fs v \<longleftrightarrow>
     (\<exists>gs. feed_frames wm (snd codecs) gs [] = Inr (w_enc v, w_sock v @ w_buf v)
        \<and> (case w_pc v of
             Receiving \<Rightarrow> gs = fs \<and> w_buf v = []
           | Feeding hs \<Rightarrow> fs = gs @ hs
           | Draining hs \<Rightarrow> fs = gs @ hs
           | Flushing \<Rightarrow> gs = fs
           | WriterDone \<Rightarrow> prefix gs fs))"

lemma writer_inv_feed:
  assumes "feed_frames wm (snd codecs) gs [] = Inr (w_enc v, w_sock v @ w_buf v)" and "fs = gs @ f # hs"
  shows "writer_inv wm fs (feed_one wm f hs v)"
proof (cases "noise_encode wm (w_enc v) f (w_buf v)")
  case (Inl e)
  with assms show ?thesis by (auto simp: writer_inv_def feed_one_def)
next
  case (Inr y)
  then obtain e buf where y: "noise_encode wm (w_enc v) f (w_buf v) = Inr (e, buf)" by (cases y) auto
  have "feed_frames wm (snd codecs) (gs @ [f]) [] = Inr (e, w_sock v @ buf)"
    using assms(1) noise_encode_behind [OF y] by (simp add: feed_frames_snoc)
  with y assms(2) show ?thesis
    unfolding writer_inv_def by (intro exI [of _ "gs @ [f]"]) (simp add: feed_one_def)
qed

lemma writer_inv_turn:
  assumes inv: "writer_inv wm fs v" and turn: "writer_turn wm boundary io v = Some v'"
  shows "writer_inv wm (fs @ batch_of io) v'"
proof -
  obtain gs where gs: "feed_frames wm (snd codecs) gs [] = Inr (w_enc v, w_sock v @ w_buf v)"
    and pc: "case w_pc v of Receiving \<Rightarrow> gs = fs \<and> w_buf v = [] | Feeding hs \<Rightarrow> fs = gs @ hs
      | Draining hs \<Rightarrow> fs = gs @ hs | Flushing \<Rightarrow> gs = fs | WriterDone \<Rightarrow> prefix gs fs"
    using inv by (auto simp: writer_inv_def)
  note defs = writer_turn_def write_out_def writer_inv_def
  show ?thesis
  proof (cases "w_pc v")
    case (Feeding hs)
    then show ?thesis
    proof (cases "\<exists>f fs'. hs = f # fs' \<and> io = Proceed \<and> v' = feed_one wm f fs' v")
      case True
      with Feeding pc show ?thesis by (auto intro: writer_inv_feed [OF gs])
    next
      case False
      with Feeding turn gs pc show ?thesis by (auto simp: defs split: list.splits writer_io.splits if_splits)
    qed
  qed (use turn gs pc in \<open>auto simp: defs split: writer_io.splits sum.splits if_splits\<close>)
qed

lemma writer_run_inv: "writer_run wm boundary fs v \<Longrightarrow> writer_inv wm fs v"
  by (induction rule: writer_run.induct) (simp add: writer_inv_def writer_new_def, blast intro: writer_inv_turn)

lemma writer_run_fed:
  assumes "writer_run wm boundary fs v"
  shows "\<exists>gs. prefix gs fs \<and> feed_frames wm (snd codecs) gs [] = Inr (w_enc v, w_sock v @ w_buf v)
    \<and> (w_pc v = Receiving \<longrightarrow> gs = fs \<and> w_buf v = [])"
  using writer_run_inv [OF assms] by (cases "w_pc v") (auto simp: writer_inv_def, (metis prefixI)+)

text \<open>What the peer decodes of the bytes written so far.\<close>

lemma writer_received:
  assumes "noise_session wm rm" and "writer_run wm boundary fs v" and "concat cs = w_sock v"
  shows "\<exists>ms d r. feed_all (noise_decode rm) (fst codecs) [] cs = (ms, None, d, r)
    \<and> prefix ms (map frame_bytes fs) \<and> (w_pc v = Receiving \<longrightarrow> ms = map frame_bytes fs)"
proof -
  obtain gs where gs: "feed_frames wm (snd codecs) gs [] = Inr (w_enc v, w_sock v @ w_buf v)" "prefix gs fs"
    and idle: "w_pc v = Receiving \<longrightarrow> gs = fs \<and> w_buf v = []"
    using writer_run_fed [OF assms(2)] by blast
  have "peer_of (snd codecs) = fst codecs" by (simp add: codecs_def)
  with feed_frames_Inr [OF assms(1) gs(1)] assms(3)
  have "ok_all (seals wm rm) next_decoder (fst codecs) (map frame_bytes gs)"
    and "concat cs @ w_buf v = enc_all (sealed_bytes wm) next_decoder (fst codecs) (map frame_bytes gs)" by auto
  from noise_link.transport_prefix [OF this] obtain ms d r where
    "feed_all (noise_decode rm) (fst codecs) [] cs = (ms, None, d, r)" "prefix ms (map frame_bytes gs)"
    "w_buf v = [] \<longrightarrow> ms = map frame_bytes gs" by blast
  moreover have "prefix (map frame_bytes gs) (map frame_bytes fs)" using gs(2) by (auto simp: prefix_def)
  ultimately show ?thesis using idle prefix_order.trans by blast
qed

section \<open>A socket that takes everything\<close>

lemma writer_quiet:
  "writer_run wm boundary fs v \<Longrightarrow> writer_turn wm boundary io v = Some v' \<Longrightarrow> batch_of io = [] \<Longrightarrow> writer_run wm boundary fs v'"
  using writer_run.turned [of wm boundary fs v io v'] by simp

lemma writer_empties:
  assumes "writer_run wm boundary fs v" and "w_pc v = Flushing \<or> (\<exists>hs. w_pc v = Draining hs)"
  shows "\<exists>v'. writer_run wm boundary fs v' \<and> w_pc v' = w_pc v \<and> w_enc v' = w_enc v \<and> w_buf v' = []"
proof (cases "w_buf v = []")
  case False
  let ?io = "Wrote (Inr (length (w_buf v)))"
  have "writer_turn wm boundary ?io v = Some (v\<lparr>w_sock := w_sock v @ w_buf v, w_buf := []\<rparr>)"
    using assms(2) False by (auto simp: writer_turn_def write_out_def)
  from writer_quiet [OF assms(1) this] show ?thesis by fastforce
qed (use assms(1) in blast)

lemma writer_feeds:
  assumes "noise_accepts wm"
  shows "writer_run wm boundary fs v \<Longrightarrow> w_pc v = Feeding hs \<Longrightarrow> \<forall>f \<in> set hs. length (frame_payload f) \<le> MAX_PAYLOAD \<Longrightarrow>
    unat (enc_nonce (w_enc v)) + length hs < 2 ^ 64 \<Longrightarrow> \<exists>v'. writer_run wm boundary fs v' \<and> w_pc v' = Receiving"
proof (induction hs arbitrary: v)
  case Nil
  have "writer_run wm boundary fs (v\<lparr>w_pc := Flushing\<rparr>)"
    by (rule writer_quiet [OF Nil(1), of Proceed]) (use Nil(2) in \<open>simp_all add: writer_turn_def\<close>)
  from writer_empties [OF this] obtain u where u: "writer_run wm boundary fs u" "w_pc u = Flushing" "w_buf u = []" by auto
  have "writer_run wm boundary fs (u\<lparr>w_pc := Receiving\<rparr>)"
    by (rule writer_quiet [OF u(1), of Proceed]) (use u(2,3) in \<open>simp_all add: writer_turn_def\<close>)
  then show ?case by fastforce
next
  case (Cons f hs)
  have "\<exists>u. writer_run wm boundary fs u \<and> w_pc u = Feeding (f # hs) \<and> w_enc u = w_enc v \<and> \<not> (boundary \<le> length (w_buf u) \<and> w_buf u \<noteq> [])"
  proof (cases "boundary \<le> length (w_buf v) \<and> w_buf v \<noteq> []")
    case True
    have "writer_run wm boundary fs (v\<lparr>w_pc := Draining (f # hs)\<rparr>)"
      by (rule writer_quiet [OF Cons.prems(1), of Proceed]) (use Cons.prems(2) True in \<open>simp_all add: writer_turn_def\<close>)
    from writer_empties [OF this] obtain u where u: "writer_run wm boundary fs u" "w_pc u = Draining (f # hs)" "w_enc u = w_enc v" "w_buf u = []"
      by auto
    have "writer_run wm boundary fs (u\<lparr>w_pc := Feeding (f # hs)\<rparr>)"
      by (rule writer_quiet [OF u(1), of Proceed]) (use u(2,4) in \<open>simp_all add: writer_turn_def\<close>)
    with u(3,4) show ?thesis by (intro exI [of _ "u\<lparr>w_pc := Feeding (f # hs)\<rparr>"]) simp
  qed (use Cons.prems in blast)
  then obtain u where u: "writer_run wm boundary fs u" "w_pc u = Feeding (f # hs)" "w_enc u = w_enc v"
    "\<not> (boundary \<le> length (w_buf u) \<and> w_buf u \<noteq> [])" by blast
  obtain e buf where e: "noise_encode wm (w_enc u) f (w_buf u) = Inr (e, buf)"
    using feed_frames_succeeds [OF assms, of "[f]" "w_enc u" "w_buf u"] Cons.prems(3,4) u(3) by (auto split: sum.splits)
  then have nonce: "enc_nonce e = enc_nonce (w_enc v) + 1" using u(3) by (auto simp: noise_encode_def Let_def split: if_splits sum.splits)
  have "writer_run wm boundary fs (u\<lparr>w_pc := Feeding hs, w_enc := e, w_buf := buf\<rparr>)"
    by (rule writer_quiet [OF u(1), of Proceed]) (use u(2,4) e in \<open>auto simp: writer_turn_def feed_one_def\<close>)
  moreover have "unat (enc_nonce e) + length hs < 2 ^ 64"
    using Cons.prems(4) by (simp add: nonce unat_word_ariths)
  ultimately show ?case using Cons.IH Cons.prems(3) by auto
qed

text \<open>A batch gets through when the socket accepts what it is given.\<close>

lemma writer_completes:
  assumes "noise_accepts wm" and "fs \<noteq> []" and "length fs \<le> WRITE_BATCH" and "\<forall>f \<in> set fs. length (frame_payload f) \<le> MAX_PAYLOAD"
  shows "\<exists>v. writer_run wm boundary fs v \<and> w_pc v = Receiving"
proof -
  have "writer_run wm boundary ([] @ batch_of (Batch fs)) (writer_new\<lparr>w_pc := Feeding fs\<rparr>)"
    by (rule writer_run.turned [OF writer_run.fresh]) (use assms(2,3) in \<open>simp add: writer_turn_def writer_new_def\<close>)
  with writer_feeds [OF assms(1), of boundary fs "writer_new\<lparr>w_pc := Feeding fs\<rparr>" fs] assms(3,4) show ?thesis
    by (simp add: writer_new_def codecs_def WRITE_BATCH_def)
qed

section \<open>Properties\<close>

text \<open>
  C24. Batching, buffering and partial writes do not show on the wire. However the frames of a
  link come in batches, whenever the buffer is written out, and however much of it the socket
  takes at a time: what the socket has been given followed by what is in the buffer is the
  encoding, frame by frame and with one nonce each, of a prefix of the frames received; so it is
  what feeding them one by one would have produced, and all of it when the task is back at
  \<open>recv_many\<close>. When it ends early (a failed write, an encoder error, its abortion), the bytes
  sent are still a prefix of that.
\<close>

theorem writer_batches_invisible:
  assumes "writer_run wm boundary fs v"
  shows "(\<exists>gs. prefix gs fs \<and> feed_frames wm (snd codecs) gs [] = Inr (w_enc v, w_sock v @ w_buf v))
    \<and> (w_pc v = Receiving \<longrightarrow> feed_frames wm (snd codecs) fs [] = Inr (w_enc v, w_sock v))"
  using writer_run_fed [OF assms] by fastforce

text \<open>Two frames in one batch, the socket taking one byte and then the rest.\<close>

definition demo_frames :: "frame list" where
  "demo_frames = [\<lparr>frame_id = 7, frame_kind = KIND_DATA, frame_payload = [1, 2]\<rparr>, control 7 KIND_CLOSE]"

fun writer_exec :: "snow_op \<Rightarrow> nat \<Rightarrow> writer_io list \<Rightarrow> writer \<Rightarrow> writer option" where
  "writer_exec wm boundary [] v = Some v"
| "writer_exec wm boundary (io # ios) v =
     (case writer_turn wm boundary io v of None \<Rightarrow> None | Some v' \<Rightarrow> writer_exec wm boundary ios v')"

lemma writer_exec_run:
  "writer_run wm boundary fs v \<Longrightarrow> writer_exec wm boundary ios v = Some v' \<Longrightarrow>
   writer_run wm boundary (fs @ concat (map batch_of ios)) v'"
proof (induction ios arbitrary: fs v)
  case (Cons io ios)
  then obtain v1 where "writer_turn wm boundary io v = Some v1" "writer_exec wm boundary ios v1 = Some v'"
    by (auto split: option.splits)
  with Cons.IH [OF writer_run.turned [OF Cons.prems(1)]] show ?case by simp
qed simp

theorem writer_batches_invisible_witness:
  "\<exists>v. writer_run demo_seal 1 demo_frames v \<and> w_pc v = Receiving
    \<and> feed_frames demo_seal (snd codecs) demo_frames [] = Inr (w_enc v, w_sock v)"
proof -
  let ?ios = "[Batch demo_frames, Proceed, Proceed, Wrote (Inr 1), Wrote (Inr 999), Proceed, Proceed, Proceed, Wrote (Inr 999), Proceed]"
  have "case writer_exec demo_seal 1 ?ios writer_new of None \<Rightarrow> False | Some v \<Rightarrow> w_pc v = Receiving"
    by code_simp
  then obtain v where v: "writer_exec demo_seal 1 ?ios writer_new = Some v" "w_pc v = Receiving"
    by (auto split: option.splits simp del: writer_exec.simps)
  from writer_exec_run [OF writer_run.fresh v(1)] have "writer_run demo_seal 1 demo_frames v" by simp
  with writer_batches_invisible [OF this] v(2) show ?thesis by blast
qed

end
