(* ===== verification/Clients.thy ===== *)
theory Clients
  imports Edge Admission
begin

text \<open>
  The ceiling on TLS clients. \<open>run_edge\<close> claims an \<open>IpSlot\<close> before the TLS handshake and shares it
  (\<open>Arc\<close>) between the HTTP connection (\<open>Edge::serve\<close>) and the tunnels it spawns; the slot is
  dropped with its last owner, in two accesses to the table. Connections run concurrently.
\<close>

section \<open>State and steps\<close>

text \<open>
  A connection: in the TLS handshake; whether \<open>Edge::serve\<close> still runs and how many tunnel tasks
  do; its slot being dropped; closed.
\<close>

datatype client_pc = Accepting | Live bool nat | Releasing | Reclaimable | Closed

record 'ip client =
  cl_ip :: 'ip
  cl_pc :: client_pc

record 'ip clients =
  cls :: "'ip client list"
  per_client :: "'ip slot_table"

definition client_go :: "nat \<Rightarrow> client_pc \<Rightarrow> 'ip clients \<Rightarrow> 'ip clients" where
  "client_go i p c = c\<lparr>cls := (cls c)[i := (cls c ! i)\<lparr>cl_pc := p\<rparr>]\<rparr>"

text \<open>One owner of the slot is gone: the last one drops it.\<close>

definition owners :: "bool \<Rightarrow> nat \<Rightarrow> client_pc" where
  "owners serving tunnels = (if serving \<or> 0 < tunnels then Live serving tunnels else Releasing)"

definition client_accept :: "limits \<Rightarrow> 'ip \<Rightarrow> 'ip clients \<Rightarrow> 'ip clients" where
  "client_accept lim ip c =
     (case ip_claim (per_client c) ip (max_clients_per_ip lim) of (t, ok) \<Rightarrow>
        c\<lparr>per_client := t, cls := if ok then cls c @ [\<lparr>cl_ip = ip, cl_pc = Accepting\<rparr>] else cls c\<rparr>)"

text \<open>The end of \<open>acceptor.accept\<close>: a failed handshake returns from \<open>Edge::serve\<close>.\<close>

definition client_tls :: "bool \<Rightarrow> nat \<Rightarrow> 'ip clients \<Rightarrow> 'ip clients" where
  "client_tls ok i c = client_go i (owners ok 0) c"

text \<open>A request is handled; \<open>tunnel\<close> hands a clone of the slot to the task it spawns.\<close>

definition client_request :: "(string \<Rightarrow> bytes) \<Rightarrow> (bytes \<Rightarrow> string) \<Rightarrow> request \<Rightarrow> nat \<Rightarrow> nat \<Rightarrow> 'ip clients \<Rightarrow> 'ip clients" where
  "client_request sha1 b64 req i n c =
     client_go i (Live True (if snd (handle sha1 b64 req) then Suc n else n)) c"

definition client_release :: "nat \<Rightarrow> 'ip clients \<Rightarrow> 'ip clients" where
  "client_release i c =
     client_go i Reclaimable (c\<lparr>per_client := ip_release (per_client c) (cl_ip (cls c ! i))\<rparr>)"

definition client_reclaim :: "nat \<Rightarrow> 'ip clients \<Rightarrow> 'ip clients" where
  "client_reclaim i c =
     client_go i Closed (c\<lparr>per_client := ip_reclaim (per_client c) (cl_ip (cls c ! i))\<rparr>)"

definition client_at :: "'ip clients \<Rightarrow> nat \<Rightarrow> client_pc \<Rightarrow> bool" where
  "client_at c i p \<longleftrightarrow> i < length (cls c) \<and> cl_pc (cls c ! i) = p"

inductive client_step :: "limits \<Rightarrow> 'ip clients \<Rightarrow> 'ip clients \<Rightarrow> bool" for lim where
  accepted: "client_step lim c (client_accept lim ip c)"
| tls: "client_at c i Accepting \<Longrightarrow> client_step lim c (client_tls ok i c)"
| request: "client_at c i (Live True n) \<Longrightarrow> client_step lim c (client_request sha1 b64 req i n c)"
| served: "client_at c i (Live True n) \<Longrightarrow> client_step lim c (client_go i (owners False n) c)"
| tunnel_ends: "client_at c i (Live serving (Suc n)) \<Longrightarrow> client_step lim c (client_go i (owners serving n) c)"
| release: "client_at c i Releasing \<Longrightarrow> client_step lim c (client_release i c)"
| reclaim: "client_at c i Reclaimable \<Longrightarrow> client_step lim c (client_reclaim i c)"

inductive client_run :: "limits \<Rightarrow> 'ip clients \<Rightarrow> bool" for lim where
  start: "client_run lim \<lparr>cls = [], per_client = Map.empty\<rparr>"
| step: "client_run lim c \<Longrightarrow> client_step lim c c' \<Longrightarrow> client_run lim c'"

section \<open>Counting\<close>

fun holding :: "client_pc \<Rightarrow> bool" where
  "holding Accepting = True"
| "holding (Live serving n) = True"
| "holding Releasing = True"
| "holding _ = False"

definition holders_of :: "'ip \<Rightarrow> 'ip clients \<Rightarrow> nat" where
  "holders_of ip c = length (filter (\<lambda>cl. cl_ip cl = ip \<and> holding (cl_pc cl)) (cls c))"

text \<open>
  The table counts the connections that hold a slot; a key that counts zero is about to be
  reclaimed.
\<close>

definition clients_inv :: "limits \<Rightarrow> 'ip clients \<Rightarrow> bool" where
  "clients_inv lim c \<longleftrightarrow>
     (\<forall>ip. ip_count (per_client c) ip = holders_of ip c \<and> holders_of ip c \<le> max_clients_per_ip lim)
     \<and> (0 < max_clients_per_ip lim \<longrightarrow>
         (\<forall>ip. per_client c ip = Some 0 \<longrightarrow> (\<exists>cl \<in> set (cls c). cl_ip cl = ip \<and> cl_pc cl = Reclaimable)))"

lemma holders_go:
  "client_at c i p \<Longrightarrow>
   holders_of ip (client_go i p' c) + (if cl_ip (cls c ! i) = ip \<and> holding p then 1 else 0)
     = holders_of ip c + (if cl_ip (cls c ! i) = ip \<and> holding p' then 1 else 0)"
  using filter_update_count [of i "cls c" "\<lambda>cl. cl_ip cl = ip \<and> holding (cl_pc cl)" "(cls c ! i)\<lparr>cl_pc := p'\<rparr>"]
  by (simp add: holders_of_def client_go_def client_at_def)

lemma holders_table [simp]: "holders_of ip (c\<lparr>per_client := t\<rparr>) = holders_of ip c"
  by (simp add: holders_of_def)

lemma go_table [simp]:
  "per_client (client_go i p c) = per_client c" "client_at (c\<lparr>per_client := t\<rparr>) i p = client_at c i p"
  "cls (client_go i p c) = (cls c)[i := (cls c ! i)\<lparr>cl_pc := p\<rparr>]"
  by (simp_all add: client_go_def client_at_def)

lemma bex_update:
  assumes "\<exists>x \<in> set xs. P x" and "\<not> P (xs ! i) \<or> P y"
  shows "\<exists>x \<in> set (xs[i := y]). P x"
proof -
  obtain j where j: "j < length xs" "P (xs ! j)" using assms(1) by (auto simp: in_set_conv_nth)
  with assms(2) have "P (xs[i := y] ! j)" by (cases "i = j") auto
  with j(1) show ?thesis by (metis length_list_update nth_mem)
qed

text \<open>A step that keeps the slot, whatever it does to the owners.\<close>

lemma clients_inv_go:
  assumes "clients_inv lim c" and "client_at c i p" and "holding p" and "holding p'"
  shows "clients_inv lim (client_go i p' c)"
proof -
  have "holders_of ip (client_go i p' c) = holders_of ip c" for ip
    using holders_go [OF assms(2), of ip p'] assms(3,4) by (simp split: if_splits)
  moreover have "\<not> (cl_ip (cls c ! i) = ip \<and> cl_pc (cls c ! i) = Reclaimable)" for ip
    using assms(2,3) by (auto simp: client_at_def)
  ultimately show ?thesis using assms(1) by (simp add: clients_inv_def bex_update)
qed

lemma holding_owners [simp]: "holding (owners serving n)"
  by (simp add: owners_def)

lemma clients_inv_accept:
  assumes "clients_inv lim c"
  shows "clients_inv lim (client_accept lim ip c)"
proof -
  obtain t ok where claim: "ip_claim (per_client c) ip (max_clients_per_ip lim) = (t, ok)" by fastforce
  have count: "ip_count t j = ip_count (per_client c) j + (if ok \<and> j = ip then 1 else 0)"
    and "ok \<longleftrightarrow> ip_count (per_client c) ip < max_clients_per_ip lim" for j
    using ip_slot.claim_holders [of "per_client c" ip "max_clients_per_ip lim" j]
      ip_slot.claim_granted [of "per_client c" ip "max_clients_per_ip lim"] claim by simp_all
  moreover have "t j = Some 0 \<Longrightarrow> 0 < max_clients_per_ip lim \<Longrightarrow> per_client c j = Some 0" for j
    using claim by (auto simp: ip_claim_def Let_def split: if_splits option.splits)
  ultimately show ?thesis
    using assms by (auto simp: clients_inv_def client_accept_def claim holders_of_def)
qed

lemma clients_inv_release:
  assumes inv: "clients_inv lim c" and i: "client_at c i Releasing"
  shows "clients_inv lim (client_release i c)"
proof -
  let ?ip = "cl_ip (cls c ! i)" and ?t = "ip_release (per_client c) (cl_ip (cls c ! i))"
  have before: "ip_count (per_client c) ip = holders_of ip c" "holders_of ip c \<le> max_clients_per_ip lim" for ip
    using inv by (simp_all add: clients_inv_def)
  have after: "holders_of ip (client_release i c) + (if ?ip = ip then 1 else 0) = holders_of ip c" for ip
    using holders_go [of "c\<lparr>per_client := ?t\<rparr>" i Releasing ip Reclaimable] i by (simp add: client_release_def)
  have "ip_count ?t ip = holders_of ip (client_release i c)"
    and "holders_of ip (client_release i c) \<le> max_clients_per_ip lim" for ip
    using before [of ip] after [of ip] ip_slot.release_holders [of "per_client c" ?ip ip]
    by (cases "?ip = ip"; simp)+
  moreover have "\<exists>cl \<in> set (cls (client_release i c)). cl_ip cl = ip \<and> cl_pc cl = Reclaimable"
    if "?t ip = Some 0" "0 < max_clients_per_ip lim" for ip
  proof (cases "ip = ?ip")
    case True
    then show ?thesis
      using i set_update_memI [of i "cls c" "(cls c ! i)\<lparr>cl_pc := Reclaimable\<rparr>"]
      by (intro bexI [of _ "(cls c ! i)\<lparr>cl_pc := Reclaimable\<rparr>"]) (simp_all add: client_release_def client_at_def)
  next
    case False
    then have "per_client c ip = Some 0" using that(1) by (simp add: ip_release_def split: option.splits)
    then show ?thesis
      using inv that(2) i by (auto simp: clients_inv_def client_release_def client_at_def intro!: bex_update)
  qed
  ultimately show ?thesis by (simp add: clients_inv_def client_release_def)
qed

lemma clients_inv_reclaim:
  assumes inv: "clients_inv lim c" and i: "client_at c i Reclaimable"
  shows "clients_inv lim (client_reclaim i c)"
proof -
  let ?ip = "cl_ip (cls c ! i)" and ?t = "ip_reclaim (per_client c) (cl_ip (cls c ! i))"
  have "holders_of ip (client_reclaim i c) = holders_of ip c" for ip
    using holders_go [of "c\<lparr>per_client := ?t\<rparr>" i Reclaimable ip Closed] i by (simp add: client_reclaim_def)
  moreover have "\<exists>cl \<in> set (cls (client_reclaim i c)). cl_ip cl = ip \<and> cl_pc cl = Reclaimable"
    if "?t ip = Some 0" "0 < max_clients_per_ip lim" for ip
  proof -
    have "per_client c ip = Some 0" "ip \<noteq> ?ip" using that(1) by (auto simp: ip_reclaim_def split: if_splits)
    then show ?thesis
      using inv that(2) i by (auto simp: clients_inv_def client_reclaim_def client_at_def intro!: bex_update)
  qed
  ultimately show ?thesis
    using inv ip_slot.reclaim_holders [of "per_client c" ?ip] by (simp add: clients_inv_def client_reclaim_def)
qed

lemma clients_inv_run: "client_run lim c \<Longrightarrow> clients_inv lim c"
proof (induction rule: client_run.induct)
  case start
  show ?case by (simp add: clients_inv_def holders_of_def ip_count_def)
next
  case (step c c')
  from step(2,3) show ?case
    by (cases rule: client_step.cases)
      (auto simp: client_request_def client_tls_def intro: clients_inv_accept clients_inv_release clients_inv_reclaim
        intro!: clients_inv_go)
qed

section \<open>Properties\<close>

text \<open>
  C33. The ceiling on TLS clients counts what it is meant to: in every state the connections of
  an address that are in their TLS handshake, are served, or have a tunnel running after the HTTP
  connection is gone, never exceed \<open>max_clients_per_ip\<close>, and the table counts exactly those that have not given
  their slot back; a new connection is turned away exactly at the ceiling; and when every
  connection is closed the table is empty.
\<close>

theorem clients_within_ceiling:
  assumes "client_run lim c"
  shows "ip_count (per_client c) ip = holders_of ip c \<and> holders_of ip c \<le> max_clients_per_ip lim
    \<and> length (filter (\<lambda>cl. cl_ip cl = ip \<and> (cl_pc cl = Accepting \<or> (\<exists>serving n. cl_pc cl = Live serving n))) (cls c)) \<le> max_clients_per_ip lim
    \<and> (cls (client_accept lim ip c) = cls c \<longleftrightarrow> holders_of ip c = max_clients_per_ip lim)
    \<and> (0 < max_clients_per_ip lim \<and> (\<forall>cl \<in> set (cls c). cl_pc cl = Closed) \<longrightarrow> per_client c = Map.empty)"
proof -
  have inv: "ip_count (per_client c) ip = holders_of ip c" "holders_of ip c \<le> max_clients_per_ip lim" for ip
    using clients_inv_run [OF assms] by (simp_all add: clients_inv_def)
  have "length (filter (\<lambda>cl. cl_ip cl = ip \<and> (cl_pc cl = Accepting \<or> (\<exists>serving n. cl_pc cl = Live serving n))) (cls c)) \<le> holders_of ip c"
  proof -
    let ?P = "\<lambda>cl. cl_ip cl = ip \<and> (cl_pc cl = Accepting \<or> (\<exists>serving n. cl_pc cl = Live serving n))"
    have "filter ?P (cls c) = filter ?P (filter (\<lambda>cl. cl_ip cl = ip \<and> holding (cl_pc cl)) (cls c))"
      unfolding filter_filter by (rule filter_cong) auto
    then show ?thesis unfolding holders_of_def by (simp only: length_filter_le)
  qed
  moreover have "cls (client_accept lim ip c) = cls c \<longleftrightarrow> holders_of ip c = max_clients_per_ip lim"
    using ip_slot.claim_granted [of "per_client c" ip "max_clients_per_ip lim"] inv [of ip]
    by (auto simp: client_accept_def split: prod.splits)
  moreover have "per_client c = Map.empty"
    if "0 < max_clients_per_ip lim" "\<forall>cl \<in> set (cls c). cl_pc cl = Closed"
  proof
    fix j
    have "holders_of j c = 0" using that(2) by (auto simp: holders_of_def filter_empty_conv)
    then have "per_client c j = None \<or> per_client c j = Some 0"
      using inv(1) [of j] by (auto simp: ip_count_def split: option.splits)
    then show "per_client c j = None"
      using clients_inv_run [OF assms] that by (auto simp: clients_inv_def)
  qed
  ultimately show ?thesis using inv le_trans by blast
qed

text \<open>A tunnel that outlives its HTTP connection still counts.\<close>

theorem clients_within_ceiling_witness:
  "\<exists>c. client_run (default_limits\<lparr>max_clients_per_ip := 1\<rparr>) c
    \<and> cls c = [\<lparr>cl_ip = 7 :: nat, cl_pc = Live False 1\<rparr>]
    \<and> cls (client_accept (default_limits\<lparr>max_clients_per_ip := 1\<rparr>) 7 c) = cls c"
proof -
  let ?lim = "default_limits\<lparr>max_clients_per_ip := 1\<rparr>"
  let ?req = "\<lparr>req_path = ''/tunnel'', req_header = [''upgrade'' \<mapsto> ''websocket'', ''sec-websocket-key'' \<mapsto> ''abc'']\<rparr>"
  let ?c0 = "\<lparr>cls = [], per_client = Map.empty\<rparr> :: nat clients"
  let ?c1 = "client_tls True 0 (client_accept ?lim 7 ?c0)"
  let ?c2 = "client_request (\<lambda>_. []) (\<lambda>_. []) ?req 0 0 ?c1"
  let ?c3 = "client_go 0 (owners False 1) ?c2"
  have up: "snd (handle (\<lambda>_. []) (\<lambda>_. []) ?req)" by code_simp
  have c1: "cls ?c1 = [\<lparr>cl_ip = 7, cl_pc = Live True 0\<rparr>]"
    by (simp add: client_accept_def client_tls_def owners_def ip_claim_def)
  have "client_run ?lim (client_accept ?lim 7 ?c0)" by (intro client_run.step [OF client_run.start] client_step.accepted)
  then have "client_run ?lim ?c1"
    by (rule client_run.step) (intro client_step.tls, simp add: client_at_def client_accept_def ip_claim_def)
  then have "client_run ?lim ?c2"
    by (rule client_run.step) (intro client_step.request, simp add: client_at_def c1 del: One_nat_def)
  then have run: "client_run ?lim ?c3"
    by (rule client_run.step) (intro client_step.served, simp add: client_at_def client_request_def c1 up del: One_nat_def)
  have c3: "cls ?c3 = [\<lparr>cl_ip = 7, cl_pc = Live False 1\<rparr>]"
    by (simp add: client_request_def c1 owners_def del: One_nat_def)
  then have "holders_of 7 ?c3 = 1" by (simp add: holders_of_def)
  with clients_within_ceiling [OF run, of 7] run c3 show ?thesis by auto
qed

end
