(* ===== verification/Link_Inv.thy ===== *)
theory Link_Inv
  imports Link
begin

text \<open>
  Invariants of a link with its tunnels. The first one, \<open>link_ok\<close>, says that the link is a run of
  the session and that every tunnel holds what its place says. On top of it the locale
  \<open>tunnel_invariant\<close> is the contract of a property of one tunnel: a new tunnel has it, its own
  turns keep it, and so does everything the rest of the link does; then it holds of every tunnel
  in every run.
\<close>

section \<open>The receiver stays\<close>

definition still :: "('q, 'b, 'o) runtime \<Rightarrow> addr \<Rightarrow> ('q, 'b, 'o) mux_session \<Rightarrow> ('q, 'b, 'o) mux_session \<Rightarrow> bool" where
  "still rt a s s' \<longleftrightarrow>
     (a < length (shared s) \<longrightarrow> a < length (shared s') \<and> (hears rt s a \<longrightarrow> hears rt s' a)
       \<and> (\<forall>j. (j, a) \<in> set (streams s') \<longrightarrow> (j, a) \<in> set (streams s)))"

lemma still_keeps: "keeps rt a s s' \<Longrightarrow> still rt a s s'"
  by (auto simp: keeps_def still_def)

lemma still_data:
  assumes laws: "chan_laws (inch rt)" and run: "handle_data rt i x s = (s', r)"
  shows "still rt a s s'"
proof (cases "map_of (streams s) i = Some a")
  case True
  show ?thesis
  proof (cases "ch_try_send (inch rt) x (inbox (shared s ! a))")
    case (SendOk c)
    then show ?thesis using run True ch_try_send_laws(1) [OF laws SendOk]
      by (auto simp: handle_data_def hears_def ch_view_def still_def)
  next
    case SendFull
    then have "s' = drop_stream rt i s" using run True by (simp add: handle_data_def)
    then show ?thesis using keeps_drop [OF laws] by (simp add: still_keeps)
  next
    case SendClosed
    then show ?thesis using run True by (simp add: handle_data_def still_def)
  qed
next
  case False
  then show ?thesis using keeps_handle_data [OF laws _ run] by (simp add: still_keeps)
qed

lemma still_frame:
  assumes laws: "chan_laws (inch rt)" and a: "a < length (shared s)" and run: "handle_frame rt m s = (s', nx, tx)"
  shows "still rt a s s'"
proof (cases "\<exists>j x. j \<noteq> 0 \<and> parse_frame m = Inr (j, KIND_DATA, x)")
  case True
  then obtain j x where "handle_data rt j x s = (s', nx)"
    using run by (auto simp: handle_frame_def wire_consts split: prod.splits)
  then show ?thesis by (rule still_data [OF laws])
next
  case False
  show ?thesis
  proof (cases "\<exists>x. parse_frame m = Inr (0, KIND_DATA, x)")
    case True
    then show ?thesis using run by (auto simp: handle_frame_def still_def)
  next
    case zero: False
    have "keeps rt a s s'"
      by (rule keeps_handle_frame [OF laws a _ run]) (use False zero in force)
    then show ?thesis by (rule still_keeps)
  qed
qed

lemma still_recv:
  assumes "chan_laws (inch rt)" and "rx_recv rt a s = (s', r)"
  shows "still rt a s s'"
  using assms(2) ch_recv_laws(1) [OF assms(1), of "inbox (shared s ! a)"]
  by (auto simp: rx_recv_def hears_def still_def split: received.splits)

lemma still_step:
  assumes laws: "chan_laws (inch rt)" and step: "mux_step rt w l w'" and a: "a < length (shared (ses w))"
  shows "a < length (shared (ses w')) \<and> (\<forall>j. (j, a) \<in> set (streams (ses w')) \<longrightarrow> (j, a) \<in> set (streams (ses w)))"
    and "l \<noteq> Unheard a \<Longrightarrow> still rt a (ses w) (ses w')"
proof -
  show still: "still rt a (ses w) (ses w')" if "l \<noteq> Unheard a"
  proof -
    consider (handled) m g where "l = Handled m g" | (took) x where "l = Took a x"
      | (other) "frames_in [l] = []" "taken_at a [l] = []"
      by (cases l; cases "\<exists>x. l = Took a x") (auto simp: frames_in_def taken_at_def)
    then show ?thesis
    proof cases
      case (handled m g)
      with step obtain nx tx where "handle_frame rt m (ses w) = (ses w', nx, tx)"
        by (auto elim: mux_step.cases simp: take_label_def split: poll.splits option.splits)
      then show ?thesis by (rule still_frame [OF laws a])
    next
      case (took x)
      with step obtain r where "rx_recv rt a (ses w) = (ses w', r)"
        by (auto elim!: mux_step.cases simp: take_label_def split: poll.splits option.splits)
      then show ?thesis by (rule still_recv [OF laws])
    next
      case other
      from keeps_step [OF laws step a other that] show ?thesis by (rule still_keeps)
    qed
  qed
  show "a < length (shared (ses w')) \<and> (\<forall>j. (j, a) \<in> set (streams (ses w')) \<longrightarrow> (j, a) \<in> set (streams (ses w)))"
  proof (cases "l = Unheard a")
    case True
    with step a show ?thesis by (auto elim: mux_step.cases simp: take_label_def split: poll.splits option.splits)
  next
    case False
    with still a show ?thesis by (simp add: still_def)
  qed
qed

lemma still_trace:
  assumes "chan_laws (inch rt)" and "mux_trace rt w ls w'" and "a < length (shared (ses w))"
  shows "a < length (shared (ses w')) \<and> (Unheard a \<notin> set ls \<longrightarrow> hears rt (ses w) a \<longrightarrow> hears rt (ses w') a)
    \<and> (\<forall>j. (j, a) \<in> set (streams (ses w')) \<longrightarrow> (j, a) \<in> set (streams (ses w)))"
  using assms(2,3)
proof induction
  case (onwards ls w' l w'')
  with still_step [OF assms(1) onwards(2)] show ?case by (auto simp: still_def)
qed simp

section \<open>The basic invariant\<close>

definition t_addr :: "tunnel \<Rightarrow> addr option" where
  "t_addr t = map_option tx_addr (t_half t)"

definition apart :: "tunnel list \<Rightarrow> bool" where
  "apart ts \<longleftrightarrow> (\<forall>i < length ts. \<forall>j < length ts. i \<noteq> j \<longrightarrow> t_half (ts ! i) \<noteq> None \<longrightarrow> t_addr (ts ! i) \<noteq> t_addr (ts ! j))"

definition link_ok :: "('q, 'b, 'o) runtime \<Rightarrow> ('q, 'b, 'o) link \<Rightarrow> bool" where
  "link_ok rt w \<longleftrightarrow>
     (\<exists>n ls. mux_run rt n False ls (world_of w)) \<and> (\<forall>t \<in> set (l_tunnels w). t_placed rt (l_ses w) t) \<and> apart (l_tunnels w)"

lemma link_okD:
  assumes "link_ok rt w" and "j < length (l_tunnels w)"
  shows "t_placed rt (l_ses w) (l_tunnels w ! j)" and "t_wf (l_tunnels w ! j)"
proof -
  show "t_placed rt (l_ses w) (l_tunnels w ! j)" using assms by (simp add: link_ok_def)
  then show "t_wf (l_tunnels w ! j)" by (simp add: t_placed_def)
qed

lemma apartD: "apart ts \<Longrightarrow> i < length ts \<Longrightarrow> j < length ts \<Longrightarrow> i \<noteq> j \<Longrightarrow> t_addr (ts ! i) = Some a \<Longrightarrow> t_addr (ts ! j) \<noteq> Some a"
  by (force simp: apart_def t_addr_def)

lemma link_ok_table:
  assumes "runtime_laws rt" and "link_ok rt w"
  shows "table_ok rt (l_ses w)"
proof -
  obtain n ls where "mux_run rt n False ls (world_of w)" using assms(2) by (auto simp: link_ok_def)
  from mux_run_facts(3) [OF assms(1) this] show ?thesis by (simp add: world_of_def)
qed

text \<open>A turn keeps the stream a tunnel has, and the shape of its state; a new stream is at a new address.\<close>

lemma turn_half:
  assumes "tunnel_turn rt k n u s t = Some (s', t')" and "t_wf t"
  shows "t_half t' = t_half t \<or> (\<exists>i tx. t_half t = None \<and> t_pc t = Opening (Numbered i) \<and> open_insert rt i s = (s', tx)
    \<and> t' = t\<lparr>t_pc := Opening (Announcing tx), t_half := Some tx, t_since := n\<rparr>)"
  using assms(1)
proof (cases rule: tunnel_turn_cases)
  case (opens p)
  with assms(2) show ?thesis
    by (auto simp: open_turn_def t_wf_def split: opener.splits prod.splits poll.splits option.splits)
qed (auto simp: turn_defs Let_def split: prod.splits poll.splits sum.splits option.splits progress.splits if_splits)

lemma turn_wf:
  assumes "tunnel_turn rt k n u s t = Some (s', t')" and "t_wf t"
  shows "t_wf t'"
  using assms(1)
proof (cases rule: tunnel_turn_cases)
  case (opens p)
  with assms(2) show ?thesis
    by (auto simp: open_turn_def t_wf_def split: opener.splits prod.splits poll.splits option.splits)
next
  case (up_read spare)
  with assms(2) show ?thesis
    by (auto simp: up_read_turn_def t_wf_def split: prod.splits poll.splits sum.splits if_splits main_pc.splits opener.splits)
next
  case (up_send fut tx)
  with assms(2) show ?thesis
    by (auto simp: up_send_turn_def t_wf_def split: poll.splits sum.splits progress.splits main_pc.splits opener.splits)
qed (use assms(2) in \<open>auto simp: turn_defs Let_def t_wf_def tx_close_def
    split: prod.splits poll.splits sum.splits option.splits progress.splits if_splits\<close>)

lemma length_remove_stream [simp]: "length (shared (remove_stream rt i s)) = length (shared s)"
  by (simp add: remove_stream_def drop_state_def split: option.splits)

lemma open_insert_new:
  assumes "chan_laws (inch rt)" and "open_insert rt i s = (s', tx)"
  shows "tx = \<lparr>tx_id = i, tx_addr = length (shared s)\<rparr>" and "length (shared s') = Suc (length (shared s))"
    and "hears rt s' (length (shared s))" and "items rt s' (length (shared s)) = []"
    and "map_of (streams s') i = Some (length (shared s))"
  using assms(2) ch_new_laws [OF assms(1), of INBOX_FRAMES]
  by (auto simp: open_insert_def insert_stream_def Let_def nth_append hears_def items_def new_stream_def ch_view_def
      wire_consts)

lemma link_ok_start:
  assumes "link_start rt n = Some w"
  shows "link_ok rt w"
proof -
  obtain s where "start rt n False = Some s" "w = \<lparr>l_ses = s, l_reader = Reading, l_tunnels = [], l_heard = [], l_wire = []\<rparr>"
    using assms by (auto simp: link_start_def)
  with mux_run.started [of rt n False s] show ?thesis
    by (auto simp: link_ok_def world_of_def apart_def)
qed

lemma t_rx_Some: "t_rx t = Some a \<longleftrightarrow> (\<forall>r. t_pc t \<noteq> Returned r) \<and> t_addr t = Some a"
  by (simp add: t_rx_def t_addr_def split: main_pc.splits)

lemma turn_returned:
  assumes "tunnel_turn rt k n u s t = Some (s', t')" and "t_pc t = Returned r"
  shows "t_pc t' = Returned r"
  using assms(1)
  by (cases rule: tunnel_turn_cases)
    (use assms(2) in \<open>auto simp: up_read_turn_def up_send_turn_def split: prod.splits poll.splits sum.splits progress.splits if_splits\<close>)

lemma turn_rx:
  "tunnel_turn rt k n u s t = Some (s', t') \<Longrightarrow> t_half t' = t_half t \<Longrightarrow> t_rx t' = Some a \<Longrightarrow> t_rx t = Some a"
  using turn_returned by (fastforce simp: t_rx_Some t_addr_def)

lemma t_placed_trace:
  assumes "chan_laws (inch rt)" and "mux_trace rt w ls w'" and "t_placed rt (ses w) t" and "t_wf t'" and "t_half t' = t_half t"
    and "\<And>a. t_rx t' = Some a \<Longrightarrow> t_rx t = Some a \<and> Unheard a \<notin> set ls"
  shows "t_placed rt (ses w') t'"
  unfolding t_placed_def
proof (intro conjI allI impI)
  show "tx_addr tx < length (shared (ses w'))" if "t_half t' = Some tx" for tx
    using assms(3,5) that still_trace [OF assms(1,2)] by (simp add: t_placed_def)
  show "hears rt (ses w') a" if "t_rx t' = Some a" for a
  proof -
    have "t_rx t = Some a" "Unheard a \<notin> set ls" using assms(6) [OF that] by simp_all
    moreover from this(1) have "a < length (shared (ses w))" "hears rt (ses w) a"
      using assms(3) by (auto simp: t_placed_def t_rx_Some t_addr_def)
    ultimately show ?thesis using still_trace [OF assms(1,2)] by blast
  qed
qed (fact assms(4))

lemma t_placed_new:
  assumes "chan_laws (inch rt)" and "open_insert rt i s = (s', tx)" and "t_up t = UpIdle"
  shows "t_placed rt s' (t\<lparr>t_pc := Opening (Announcing tx), t_half := Some tx, t_since := n\<rparr>)"
  using open_insert_new [OF assms(1,2)] assms(3) by (auto simp: t_placed_def t_wf_def t_rx_def)

text \<open>What a turn of one tunnel is to the others.\<close>

lemma link_turn_other:
  assumes laws: "chan_laws (inch rt)" and ok: "link_ok rt w" and j: "j < length (l_tunnels w)"
    and turn: "tunnel_turn rt k n u (l_ses w) (l_tunnels w ! j) = Some (s', t')"
    and i: "i < length (l_tunnels w)" "i \<noteq> j" and a: "t_addr (l_tunnels w ! i) = Some a"
  shows "t_addr t' \<noteq> Some a"
proof -
  let ?t = "l_tunnels w ! j"
  note placed = link_okD(1) [OF ok i(1)] link_okD(2) [OF ok j]
  from turn_half [OF turn placed(2)] show ?thesis
  proof
    assume "t_half t' = t_half ?t"
    then have "t_addr t' = t_addr ?t" by (simp add: t_addr_def)
    moreover have "apart (l_tunnels w)" using ok by (simp add: link_ok_def)
    ultimately show ?thesis using apartD [OF _ i(1) j i(2) a] by simp
  next
    assume "\<exists>i tx. t_half ?t = None \<and> t_pc ?t = Opening (Numbered i) \<and> open_insert rt i (l_ses w) = (s', tx)
      \<and> t' = ?t\<lparr>t_pc := Opening (Announcing tx), t_half := Some tx, t_since := n\<rparr>"
    then have "t_addr t' = Some (length (shared (l_ses w)))"
      by (auto simp: t_addr_def dest!: open_insert_new(1) [OF laws])
    moreover have "a < length (shared (l_ses w))"
      using placed(1) a by (auto simp: t_placed_def t_addr_def)
    ultimately show ?thesis by simp
  qed
qed

lemma link_ok_turn:
  assumes laws: "chan_laws (inch rt)" and ok: "link_ok rt w" and run: "link_do rt k (Turn j u) w = Some w'"
  shows "link_ok rt w'"
proof -
  let ?ts = "l_tunnels w" and ?t = "l_tunnels w ! j"
  obtain s' t' where j: "j < length ?ts" and turn: "tunnel_turn rt k (length (l_heard w)) u (l_ses w) ?t = Some (s', t')"
    and w': "w' = w\<lparr>l_ses := s', l_tunnels := ?ts[j := t']\<rparr>"
    using run by (rule link_turnE)
  note placed = link_okD(1) [OF ok]
  obtain ls where tr: "mux_trace rt (world_of w) ls (world_of w')" and "mine ?t (l_tunnels w' ! j) ls"
    using link_turn_trace [OF run placed [OF j]] by blast
  then have mine: "mine ?t t' ls" using j by (simp add: w')
  have wf: "t_wf ?t" "t_wf t'" using placed [OF j] turn_wf [OF turn] by (simp_all add: t_placed_def)
  have ses: "ses (world_of w) = l_ses w" "ses (world_of w') = s'" by (simp_all add: world_of_def w')
  note moves = t_placed_trace [OF laws tr, unfolded ses] and other = link_turn_other [OF laws ok j turn]
  have "t_placed rt s' (?ts ! i)" if i: "i < length ?ts" "i \<noteq> j" for i
    using other [OF i] mine placed [OF i(1)]
    by (intro moves [OF placed [OF i(1)]]) (auto simp: t_placed_def mine_def t_rx_Some t_addr_def)
  moreover have "t_placed rt s' t'"
    using turn_half [OF turn wf(1)]
  proof
    assume half: "t_half t' = t_half ?t"
    then show ?thesis
      using mine turn_rx [OF turn half] wf(2) by (intro moves [OF placed [OF j]]) (auto simp: mine_def)
  next
    assume "\<exists>i tx. t_half ?t = None \<and> t_pc ?t = Opening (Numbered i) \<and> open_insert rt i (l_ses w) = (s', tx)
      \<and> t' = ?t\<lparr>t_pc := Opening (Announcing tx), t_half := Some tx, t_since := length (l_heard w)\<rparr>"
    then show ?thesis using wf(1) by (auto simp: t_wf_def intro: t_placed_new [OF laws])
  qed
  ultimately have "t_placed rt s' ((?ts[j := t']) ! i)" if "i < length ?ts" for i
    using that j by (cases "i = j") simp_all
  moreover have "apart (?ts[j := t'])"
    unfolding apart_def
  proof (intro allI impI)
    fix i i'
    assume i: "i < length (?ts[j := t'])" "i' < length (?ts[j := t'])" "i \<noteq> i'" "t_half ((?ts[j := t']) ! i) \<noteq> None"
    then obtain a where a: "t_addr ((?ts[j := t']) ! i) = Some a" by (auto simp: t_addr_def)
    have "t_addr ((?ts[j := t']) ! i') \<noteq> Some a"
    proof (cases "i = j")
      case True
      then show ?thesis using i a other [of i' a] j by auto
    next
      case False
      have "apart ?ts" using ok by (simp add: link_ok_def)
      then show ?thesis using i a False other [of i a] apartD [of ?ts i i' a] by (cases "i' = j") auto
    qed
    with a show "t_addr ((?ts[j := t']) ! i) \<noteq> t_addr ((?ts[j := t']) ! i')" by simp
  qed
  moreover obtain n ks where "mux_run rt n False ks (world_of w)" using ok by (auto simp: link_ok_def)
  then have "\<exists>n ls. mux_run rt n False ls (world_of w')" using mux_trace_run [OF tr] by blast
  ultimately show ?thesis by (simp add: link_ok_def w' all_set_conv_all_nth)
qed

lemma t_placed_fresh [simp]: "t_placed rt s (tunnel_new sk)"
  by (simp add: t_placed_def t_wf_def t_rx_def tunnel_new_def)

lemma link_ok_act:
  assumes laws: "chan_laws (inch rt)" and ok: "link_ok rt w" and run: "link_do rt k x w = Some w'" and x: "\<nexists>j u. x = Turn j u"
  shows "link_ok rt w'"
proof -
  obtain ls ts where tr: "mux_trace rt (world_of w) ls (world_of w')" and ls: "\<And>a. Unheard a \<notin> set ls"
    and ts: "l_tunnels w' = l_tunnels w @ map tunnel_new ts"
    using link_act_trace [OF run x] by blast
  have ses: "ses (world_of w) = l_ses w" "ses (world_of w') = l_ses w'" by (simp_all add: world_of_def)
  have "t_placed rt (l_ses w') t" if "t \<in> set (l_tunnels w)" for t
  proof -
    have "t_placed rt (l_ses w) t" using ok that by (simp add: link_ok_def)
    then show ?thesis
      using ls by (intro t_placed_trace [OF laws tr, unfolded ses]) (simp_all add: t_placed_def)
  qed
  moreover have "apart (l_tunnels w')"
    using ok unfolding link_ok_def apart_def ts
    by (auto simp: nth_append t_addr_def tunnel_new_def)
  moreover obtain n ks where "mux_run rt n False ks (world_of w)" using ok by (auto simp: link_ok_def)
  then have "\<exists>n ls. mux_run rt n False ls (world_of w')" using mux_trace_run [OF tr] by blast
  ultimately show ?thesis by (auto simp: link_ok_def ts)
qed

lemma link_ok_do:
  assumes "runtime_laws rt" and "link_ok rt w" and "link_do rt k x w = Some w'"
  shows "link_ok rt w'"
  using assms link_ok_turn [of rt w k _ _ w'] link_ok_act [of rt w k x w']
  by (cases "\<exists>j u. x = Turn j u") (auto simp: runtime_laws_def)

lemma link_run_ok:
  assumes "runtime_laws rt" and "link_run rt k n w"
  shows "link_ok rt w"
  using assms(2) by induction (auto intro: link_ok_start link_ok_do [OF assms(1)])

text \<open>What any action is to a tunnel that does not move.\<close>

lemma link_do_other:
  assumes "runtime_laws rt" and ok: "link_ok rt w" and run: "link_do rt k x w = Some w'"
    and i: "i < length (l_tunnels w)" and x: "\<nexists>u. x = Turn i u"
  shows "l_tunnels w' ! i = l_tunnels w ! i" and "length (l_tunnels w) \<le> length (l_tunnels w')"
    and "\<exists>ls. mux_trace rt (world_of w) ls (world_of w') \<and> l_heard w' = l_heard w @ frames_in ls
      \<and> (\<forall>a. t_addr (l_tunnels w ! i) = Some a \<longrightarrow> taken_at a ls = [] \<and> Unheard a \<notin> set ls)"
proof -
  have laws: "chan_laws (inch rt)" using assms(1) by (simp add: runtime_laws_def)
  have "l_tunnels w' ! i = l_tunnels w ! i \<and> length (l_tunnels w) \<le> length (l_tunnels w')
    \<and> (\<exists>ls. mux_trace rt (world_of w) ls (world_of w') \<and> l_heard w' = l_heard w @ frames_in ls
      \<and> (\<forall>a. t_addr (l_tunnels w ! i) = Some a \<longrightarrow> taken_at a ls = [] \<and> Unheard a \<notin> set ls))"
  proof (cases "\<exists>j u. x = Turn j u")
    case True
    then obtain j u where x: "x = Turn j u" "i \<noteq> j" using x by blast
    then obtain s' t' where j: "j < length (l_tunnels w)"
      and turn: "tunnel_turn rt k (length (l_heard w)) u (l_ses w) (l_tunnels w ! j) = Some (s', t')"
      and w': "w' = w\<lparr>l_ses := s', l_tunnels := (l_tunnels w)[j := t']\<rparr>"
      using run x(1) by (blast elim: link_turnE)
    obtain ls where "mux_trace rt (world_of w) ls (world_of w')" "mine (l_tunnels w ! j) t' ls"
      using link_turn_trace [OF run [unfolded x(1)] link_okD(1) [OF ok j]] j by (auto simp: w')
    with x(2) link_turn_other [OF laws ok j turn i] show ?thesis
      by (auto simp: w' mine_def t_addr_def)
  next
    case False
    from link_act_trace [OF run this] i show ?thesis by (auto simp: nth_append)
  qed
  then show "l_tunnels w' ! i = l_tunnels w ! i" and "length (l_tunnels w) \<le> length (l_tunnels w')"
    and "\<exists>ls. mux_trace rt (world_of w) ls (world_of w') \<and> l_heard w' = l_heard w @ frames_in ls
      \<and> (\<forall>a. t_addr (l_tunnels w ! i) = Some a \<longrightarrow> taken_at a ls = [] \<and> Unheard a \<notin> set ls)"
    by blast+
qed

section \<open>Invariants of one tunnel\<close>

locale tunnel_invariant =
  fixes I :: "('q, 'b, 'o) runtime \<Rightarrow> bytes \<Rightarrow> ('q, 'b, 'o) link \<Rightarrow> tunnel \<Rightarrow> bool"
  assumes fresh: "taken sk = [] \<Longrightarrow> sent sk = [] \<Longrightarrow> I rt k w (tunnel_new sk)"
    and own: "runtime_laws rt \<Longrightarrow> link_run rt k n w \<Longrightarrow> link_run rt k n w' \<Longrightarrow> j < length (l_tunnels w) \<Longrightarrow>
      tunnel_turn rt k (length (l_heard w)) u (l_ses w) (l_tunnels w ! j) = Some (s', t') \<Longrightarrow>
      w' = w\<lparr>l_ses := s', l_tunnels := (l_tunnels w)[j := t']\<rparr> \<Longrightarrow> I rt k w (l_tunnels w ! j) \<Longrightarrow> I rt k w' t'"
    and others: "runtime_laws rt \<Longrightarrow> link_run rt k n w \<Longrightarrow> link_run rt k n w' \<Longrightarrow> link_do rt k x w = Some w' \<Longrightarrow>
      j < length (l_tunnels w) \<Longrightarrow> \<nexists>u. x = Turn j u \<Longrightarrow> I rt k w (l_tunnels w ! j) \<Longrightarrow> I rt k w' (l_tunnels w ! j)"
begin

lemma act:
  assumes laws: "runtime_laws rt" and ok: "link_run rt k n w" "link_run rt k n w'" and run: "link_do rt k x w = Some w'"
    and inv: "\<And>j. j < length (l_tunnels w) \<Longrightarrow> I rt k w (l_tunnels w ! j)" and j: "j < length (l_tunnels w')"
  shows "I rt k w' (l_tunnels w' ! j)"
proof (cases "j < length (l_tunnels w)")
  case True
  show ?thesis
  proof (cases "\<exists>u. x = Turn j u")
    case moved: True
    then obtain u s' t' where "tunnel_turn rt k (length (l_heard w)) u (l_ses w) (l_tunnels w ! j) = Some (s', t')"
      and w': "w' = w\<lparr>l_ses := s', l_tunnels := (l_tunnels w)[j := t']\<rparr>"
      using run by (blast elim: link_turnE)
    from own [OF laws ok True this inv [OF True]] True show ?thesis by (simp add: w')
  next
    case False
    with others [OF laws ok run True _ inv [OF True]] link_do_other(1) [OF laws link_run_ok [OF laws ok(1)] run True] show ?thesis by simp
  qed
next
  case False
  then obtain sk where "taken sk = []" "sent sk = []" "l_tunnels w' ! j = tunnel_new sk"
    using run j by (auto simp: link_do_def nth_append split: act.splits if_splits prod.splits poll.splits sum.splits reader_pc.splits)
  with fresh show ?thesis by simp
qed

lemma run:
  assumes laws: "runtime_laws rt" and "link_run rt k n w" and "t \<in> set (l_tunnels w)"
  shows "I rt k w t"
proof -
  have "j < length (l_tunnels w) \<Longrightarrow> I rt k w (l_tunnels w ! j)" for j
    using assms(2)
  proof (induction arbitrary: j)
    case (begun w)
    then show ?case by (auto simp: link_start_def)
  next
    case (acted w x w')
    with act [OF laws acted(1) link_run.acted [OF acted(1,2)] acted(2)] show ?case by blast
  qed
  with assms(3) show ?thesis by (auto simp: in_set_conv_nth)
qed

end

text \<open>A property of the tunnel alone does not depend on what the others do.\<close>

locale local_invariant =
  fixes J :: "('q, 'b, 'o) runtime \<Rightarrow> bytes \<Rightarrow> tunnel \<Rightarrow> bool"
  assumes new: "taken sk = [] \<Longrightarrow> sent sk = [] \<Longrightarrow> J rt k (tunnel_new sk)"
    and turned: "runtime_laws rt \<Longrightarrow> t_wf t \<Longrightarrow> tunnel_turn rt k n u s t = Some (s', t') \<Longrightarrow> J rt k t \<Longrightarrow> J rt k t'"

sublocale local_invariant \<subseteq> tunnel_invariant "\<lambda>rt k w t. J rt k t"
proof unfold_locales
  show "J rt k t'" if "runtime_laws rt" "link_run rt k n w" "j < length (l_tunnels w)"
      "tunnel_turn rt k (length (l_heard w)) u (l_ses w) (l_tunnels w ! j) = Some (s', t')" "J rt k (l_tunnels w ! j)"
    for rt k n w j u s' t'
    using turned [OF that(1) link_okD(2) [OF link_run_ok [OF that(1,2)] that(3)] that(4,5)] .
qed (simp_all add: new)

end
