(* ===== verification/Tunnel_Data.thy ===== *)
theory Tunnel_Data
  imports Link_Inv
begin

text \<open>
  What a tunnel does with the phone's bytes: what it reads from the WebSocket, what it queues for
  the bridge, what it writes back and which credit it returns. These are properties of the tunnel
  alone, so each is an instance of \<open>local_invariant\<close>.
\<close>

section \<open>Reading\<close>

text \<open>A tunnel that ended before it had a stream.\<close>

definition t_stillborn :: "tunnel \<Rightarrow> bool" where
  "t_stillborn t \<longleftrightarrow> (\<exists>r. t_pc t = Returned r) \<and> t_half t = None"

definition t_reads :: "bytes \<Rightarrow> tunnel \<Rightarrow> bool" where
  "t_reads k t \<longleftrightarrow>
     (t_up t = UpIdle \<longrightarrow> t_read t = [])
     \<and> (\<not> t_stillborn t \<longrightarrow> (if t_up t = UpEnded
          then prefix (t_head t @ t_read t) (payload_stream (taken (inner (t_ws t))))
          else read_inv (t_head t @ t_read t) (t_ws t)))
     \<and> (\<not> t_stillborn t \<longrightarrow> (if t_pc t = Preamble then length (t_head t) \<le> HEAD_LEN
          else length (t_head t) = HEAD_LEN \<and> take 5 (t_head t) = MAGIC_CLIENT @ [VERSION]))
     \<and> (\<not> t_stillborn t \<and> t_pc t \<noteq> Preamble \<and> t_pc t \<noteq> Routing \<longrightarrow> bridge_key (t_head t) = k)"

lemma tunnel_task_head:
  assumes "tunnel_task True (Some (Inr head)) = Some h" and "length head = HEAD_LEN"
  shows "take 5 head = MAGIC_CLIENT @ [VERSION]"
proof -
  have "5 \<le> length head" using assms(2) by (simp add: wire_consts)
  then obtain a b c d e t where "head = a # b # c # d # e # t"
    by (auto simp: eval_nat_numeral Suc_le_length_iff)
  with assms(1) show ?thesis by (auto simp: tunnel_task_def split: if_splits)
qed

lemma t_reads_preamble:
  assumes "t_wf t" and "t_pc t = Preamble" and "t_reads k t"
  shows "t_reads k (preamble_turn expired t)"
proof -
  have t: "t_half t = None" "t_up t = UpIdle" "t_read t = []" "read_inv (t_head t) (t_ws t)" "length (t_head t) \<le> HEAD_LEN"
    using assms by (auto simp: t_wf_def t_reads_def t_stillborn_def)
  obtain ws bs r where p: "ws_read_exact (HEAD_LEN - length (t_head t)) (t_ws t) = (ws, bs, r)"
    by (cases "ws_read_exact (HEAD_LEN - length (t_head t)) (t_ws t)")
  have inv: "read_inv (t_head t @ bs) ws" "length (t_head t @ bs) \<le> HEAD_LEN" "r = Ready (Inr ()) \<Longrightarrow> length (t_head t @ bs) = HEAD_LEN"
    if "r = Ready (Inr ()) \<or> r = Pending"
    using ws_read_exact_read [OF p t(4) that] t(5) by auto
  show ?thesis
  proof (cases expired)
    case True
    then show ?thesis using t by (simp add: preamble_turn_def t_reads_def t_stillborn_def)
  next
    case False
    consider "r = Pending" | "r = Ready (Inr ())" | e where "r = Ready (Inl e)"
      by (cases r) (auto elim: sumE)
    then show ?thesis
    proof cases
      case 1
      then show ?thesis using inv t False assms(2) p by (simp add: preamble_turn_def t_reads_def t_stillborn_def)
    next
      case 2
      with inv tunnel_task_head [of "t_head t @ bs"] t False assms(2) p show ?thesis
        by (auto simp: preamble_turn_def t_reads_def t_stillborn_def split: option.splits)
    next
      case 3
      then show ?thesis using t False p by (simp add: preamble_turn_def t_reads_def t_stillborn_def)
    qed
  qed
qed

lemma t_reads_same:
  assumes "t_reads k t" and "t_pc t \<noteq> Preamble" "t_pc t' \<noteq> Preamble" "t_pc t \<noteq> Routing"
    and "t_stillborn t \<longrightarrow> t_stillborn t'" and "same_reader (t_ws t) (t_ws t')"
    and "t_up t = UpEnded \<longrightarrow> t_up t' = UpEnded" "t_up t' = UpIdle \<longrightarrow> t_up t = UpIdle"
    and "t_read t' = t_read t" "t_head t' = t_head t"
  shows "t_reads k t'"
proof -
  have "prefix (t_head t @ t_read t) (payload_stream (taken (inner (t_ws t))))" if "\<not> t_stillborn t'"
    using assms(1,5) that by (auto simp: t_reads_def dest: read_inv_prefix split: if_splits)
  then show ?thesis
    using assms read_inv_same [OF assms(6)] by (auto simp: t_reads_def same_reader_def)
qed

lemma same_reader_refl [simp]: "same_reader s s"
  by (simp add: same_reader_def)

lemma stillborn_turn:
  assumes "tunnel_turn rt k n u s t = Some (s', t')" and "t_wf t" and "t_stillborn t"
  shows "t_stillborn t'"
  using turn_returned [OF assms(1)] turn_half [OF assms(1,2)] assms(3) by (auto simp: t_stillborn_def)

lemma t_reads_up:
  assumes "t_up t = UpReading" and wf: "t_wf t" and inv: "t_reads k t"
  shows "t_reads k (up_read_turn spare t)"
proof -
  have pc: "t_pc t \<noteq> Preamble" "t_pc t \<noteq> Routing" "\<not> t_stillborn t"
    using assms(1) wf by (auto simp: t_wf_def t_stillborn_def)
  then have rd: "read_inv (t_head t @ t_read t) (t_ws t)" using inv assms(1) by (simp add: t_reads_def)
  from assms(1) show ?thesis
  proof (cases rule: up_read_turn_cases [where t = t and spare = spare])
    case (wait ws)
    from poll_read_refines [OF wait(1) rd] inv pc assms(1) show ?thesis
      by (auto simp: wait(2) t_reads_def t_stillborn_def)
  next
    case (ended ws y)
    have "prefix (t_head t @ t_read t) (payload_stream (taken (inner ws)))"
      using poll_read_refines [OF ended(1) rd] poll_read_fails [OF ended(1) _ rd] ended(2) read_inv_prefix by fastforce
    with inv pc show ?thesis by (auto simp: ended(3) t_reads_def t_stillborn_def)
  next
    case (got ws bs)
    from poll_read_refines [OF got(1) rd] inv pc assms(1) show ?thesis
      by (auto simp: got(3) t_reads_def t_stillborn_def)
  qed
qed

lemma t_reads_turn:
  assumes turn: "tunnel_turn rt k n u s t = Some (s', t')" and wf: "t_wf t" and inv: "t_reads k t"
  shows "t_reads k t'"
  using turn
proof (cases rule: tunnel_turn_cases)
  case (preamble expired)
  then show ?thesis using t_reads_preamble [OF wf _ inv] by simp
next
  case (route hit)
  then show ?thesis using inv wf by (auto simp: route_turn_def t_reads_def t_wf_def t_stillborn_def)
next
  case (up_read spare)
  then show ?thesis using t_reads_up [OF _ wf inv] by simp
next
  case (opens p)
  with stillborn_turn [OF turn wf] show ?thesis
    by (intro t_reads_same [OF inv])
      (auto simp: open_turn_def split: opener.splits prod.splits poll.splits option.splits)
next
  case (up_send fut tx)
  with wf stillborn_turn [OF turn wf] show ?thesis
    by (intro t_reads_same [OF inv])
      (auto simp: up_send_turn_def t_wf_def split: progress.splits prod.splits poll.splits sum.splits)
next
  case (down_write chunk rest)
  with stillborn_turn [OF turn wf] show ?thesis
    by (intro t_reads_same [OF inv])
      (auto simp: down_write_turn_def Let_def dest: same_reader_poll_write split: prod.splits poll.splits sum.splits)
next
  case down_shut
  with stillborn_turn [OF turn wf] show ?thesis
    by (intro t_reads_same [OF inv])
      (auto simp: down_shut_turn_def dest: same_reader_poll_shutdown split: prod.splits poll.splits sum.splits)
next
  case (forward fut tx)
  with wf stillborn_turn [OF turn wf] show ?thesis
    by (intro t_reads_same [OF inv])
      (auto simp: forward_turn_def t_wf_def split: progress.splits prod.splits poll.splits sum.splits)
qed (use stillborn_turn [OF turn wf] in \<open>(intro t_reads_same [OF inv];
    auto simp: call_turn_def select_turn_def close_turn_def return_turn_def down_recv_turn_def down_grant_turn_def
      split: prod.splits poll.splits sum.splits option.splits if_splits)+\<close>)

interpretation reads: local_invariant "\<lambda>rt. t_reads"
proof unfold_locales
  show "t_reads k (tunnel_new sk)" if "taken sk = []" for k sk
    using that by (simp add: t_reads_def tunnel_new_def)
qed (rule t_reads_turn)

section \<open>Forwarding to the bridge\<close>

definition t_futs :: "tunnel \<Rightarrow> send_fut list" where
  "t_futs t = pc_fut (t_pc t) @ up_fut (t_up t)"

text \<open>The bytes queued for the stream, and those in the send in flight.\<close>

definition t_payload :: "tunnel \<Rightarrow> bytes" where
  "t_payload t = concat (map frame_payload (t_queued t))"

definition t_owed :: "tunnel \<Rightarrow> bytes" where
  "t_owed t = concat (map owed (t_futs t))"

text \<open>From the first send until the uplink ends nothing read is missing.\<close>

definition t_flowing :: "tunnel \<Rightarrow> bool" where
  "t_flowing t \<longleftrightarrow> pc_fut (t_pc t) \<noteq> [] \<or> t_up t = UpReading \<or> up_fut (t_up t) \<noteq> []"

definition t_frames :: "tunnel \<Rightarrow> bool" where
  "t_frames t \<longleftrightarrow>
     (t_up t = UpIdle \<longrightarrow> t_read t = []) \<and> (t_half t = None \<or> (\<exists>p. t_pc t = Opening p) \<longrightarrow> t_queued t = [])
     \<and> (\<forall>tx. t_half t = Some tx \<longrightarrow>
          (\<forall>f \<in> set (t_queued t). data_frame (tx_id tx) f) \<and> (\<forall>fut \<in> set (t_futs t). fut_ok (tx_id tx) fut))"

definition t_in_order :: "tunnel \<Rightarrow> bool" where
  "t_in_order t \<longleftrightarrow>
     prefix (t_payload t @ t_owed t) (t_head t @ t_read t)
     \<and> (t_flowing t \<longrightarrow> t_payload t @ t_owed t = t_head t @ t_read t)"

definition t_forwards :: "tunnel \<Rightarrow> bool" where
  "t_forwards t \<longleftrightarrow> t_frames t \<and> t_in_order t"

lemma new_in_outbox_tx:
  assumes "chan_laws (outch rt)" and "tx_step rt tx fut s = Step (s', fut')" and "fut_ok (tx_id tx) fut"
  shows "queue_of rt s' = queue_of rt s @ new_in_outbox rt s s'" and "\<forall>f \<in> set (new_in_outbox rt s s'). data_frame (tx_id tx) f"
    and "concat (map frame_payload (new_in_outbox rt s s')) @ owed fut' = owed fut" and "fut_ok (tx_id tx) fut'"
  using tx_step_frames [OF assms] by (auto simp: new_in_outbox_def)

lemma t_forwards_step:
  assumes laws: "chan_laws (outch rt)" and inv: "t_forwards t" and half: "t_half t = Some tx" and futs: "t_futs t = [fut]"
    and step: "tx_step rt tx fut s = Step (s', fut')"
    and t': "t_half t' = Some tx" "t_futs t' = [fut']" "t_queued t' = t_queued t @ new_in_outbox rt s s'"
      "t_read t' = t_read t" "t_head t' = t_head t" "t_up t' = UpIdle \<longrightarrow> t_up t = UpIdle" "\<nexists>p. t_pc t' = Opening p"
  shows "t_forwards t'"
proof -
  have "fut_ok (tx_id tx) fut" using inv half futs by (simp add: t_forwards_def t_frames_def)
  note new = new_in_outbox_tx [OF laws step this]
  have "t_flowing t" using futs by (auto simp: t_flowing_def t_futs_def append_eq_Cons_conv)
  with inv have "t_payload t @ owed fut = t_head t @ t_read t"
    using futs by (simp add: t_forwards_def t_in_order_def t_owed_def)
  moreover have "t_payload t' @ t_owed t' = t_payload t @ owed fut"
    by (simp add: t_payload_def t_owed_def t' flip: new(3))
  ultimately have "t_in_order t'" by (simp add: t_in_order_def t')
  moreover have "t_frames t'"
    using inv half t' new(2,4) by (auto simp: t_forwards_def t_frames_def)
  ultimately show ?thesis by (simp add: t_forwards_def)
qed

lemma t_forwards_same:
  assumes inv: "t_forwards t" and same: "t_half t' = t_half t" "t_queued t' = t_queued t" "t_read t' = t_read t" "t_head t' = t_head t"
    and futs: "t_futs t' = t_futs t \<or> t_futs t' = []" and up: "t_up t' = UpIdle \<longrightarrow> t_up t = UpIdle"
    and pc: "(\<exists>p. t_pc t' = Opening p) \<longrightarrow> (\<exists>p. t_pc t = Opening p) \<or> t_half t = None"
    and flow: "t_flowing t' \<longrightarrow> t_flowing t \<and> t_owed t' = t_owed t"
  shows "t_forwards t'"
proof -
  have "prefix (t_payload t @ t_owed t') (t_payload t @ t_owed t)"
    using futs by (auto simp: t_owed_def)
  also have "prefix (t_payload t @ t_owed t) (t_head t @ t_read t)"
    using inv by (simp add: t_forwards_def t_in_order_def)
  finally have "t_in_order t'"
    using inv same(2-4) flow by (simp add: t_forwards_def t_in_order_def t_payload_def)
  moreover have "t_frames t'"
    using inv same futs up pc unfolding t_forwards_def t_frames_def by fastforce
  ultimately show ?thesis by (simp add: t_forwards_def)
qed

lemma owed_start [simp]: "owed (data, None) = data"
  by (simp add: owed_def)

lemma t_forwards_forward:
  assumes laws: "chan_laws (outch rt)" and wf: "t_wf t" and inv: "t_forwards t" and pc: "t_pc t = Forwarding fut"
    and half: "t_half t = Some tx" and turn: "forward_turn rt tx fut s t = (s', t')"
  shows "t_forwards t'"
proof -
  have up: "t_up t = UpIdle" and futs: "t_futs t = [fut]" using wf pc by (simp_all add: t_wf_def t_futs_def)
  show ?thesis
  proof (cases "tx_step rt tx fut s" rule: progress_cases)
    case (1 s1 fut1)
    with turn up half show ?thesis
      by (intro t_forwards_step [OF laws inv half futs 1]) (auto simp: forward_turn_def t_futs_def)
  next
    case 3
    then have "owed fut = []" by (rule tx_step_done)
    with 3 turn up futs show ?thesis
      by (intro t_forwards_same [OF inv]) (auto simp: forward_turn_def t_futs_def t_flowing_def t_owed_def pc)
  qed (use turn up inv in \<open>auto simp: forward_turn_def t_futs_def t_flowing_def intro: t_forwards_same [OF inv]\<close>)
qed

lemma t_forwards_up_send:
  assumes laws: "chan_laws (outch rt)" and wf: "t_wf t" and inv: "t_forwards t" and up: "t_up t = UpSending fut"
    and half: "t_half t = Some tx" and turn: "up_send_turn rt tx fut s t = (s', t')"
  shows "t_forwards t'"
proof -
  have pc: "pc_fut (t_pc t) = []" "\<nexists>p. t_pc t = Opening p" and futs: "t_futs t = [fut]"
    using wf up by (auto simp: t_wf_def t_futs_def split: main_pc.splits)
  show ?thesis
  proof (cases "tx_step rt tx fut s" rule: progress_cases)
    case (1 s1 fut1)
    with turn up half pc show ?thesis
      by (intro t_forwards_step [OF laws inv half futs 1]) (auto simp: up_send_turn_def t_futs_def)
  next
    case 3
    then have "owed fut = []" by (rule tx_step_done)
    with 3 turn up futs pc show ?thesis
      by (intro t_forwards_same [OF inv]) (auto simp: up_send_turn_def t_futs_def t_flowing_def t_owed_def)
  qed (use turn up pc inv in \<open>auto simp: up_send_turn_def t_futs_def t_flowing_def intro: t_forwards_same [OF inv]\<close>)
qed

lemma t_forwards_up_read:
  assumes wf: "t_wf t" and inv: "t_forwards t" and up: "t_up t = UpReading"
  shows "t_forwards (up_read_turn spare t)"
proof -
  have pc: "pc_fut (t_pc t) = []" "\<nexists>p. t_pc t = Opening p" using wf up by (auto simp: t_wf_def split: main_pc.splits)
  then have eq: "t_payload t = t_head t @ t_read t"
    using inv up by (simp add: t_forwards_def t_in_order_def t_flowing_def t_owed_def t_futs_def)
  from up show ?thesis
  proof (cases rule: up_read_turn_cases [where t = t and spare = spare])
    case (got ws bs)
    with eq pc inv up show ?thesis
      by (simp add: t_forwards_def t_in_order_def t_frames_def t_payload_def t_owed_def t_futs_def fut_ok_def)
  qed (use pc up in \<open>auto simp: t_futs_def t_flowing_def t_owed_def intro!: t_forwards_same [OF inv]\<close>)
qed

lemma t_forwards_opens:
  assumes wf: "t_wf t" and inv: "t_forwards t" and pc: "t_pc t = Opening p" and turn: "open_turn rt n p s t = (s', t')"
  shows "t_forwards t'"
proof -
  have "t_up t = UpIdle" "t_read t = []" "t_queued t = []"
    using wf inv pc by (auto simp: t_wf_def t_forwards_def t_frames_def)
  with turn wf pc show ?thesis
    by (auto simp: open_turn_def t_forwards_def t_frames_def t_in_order_def t_payload_def t_owed_def t_futs_def
        t_flowing_def fut_ok_def t_wf_def split: opener.splits prod.splits poll.splits option.splits)
qed

lemma t_forwards_turn:
  assumes laws: "runtime_laws rt" and wf: "t_wf t" and turn: "tunnel_turn rt k n u s t = Some (s', t')" and inv: "t_forwards t"
  shows "t_forwards t'"
proof -
  have outs: "chan_laws (outch rt)" using laws by (simp add: runtime_laws_def)
  show ?thesis
    using turn
  proof (cases rule: tunnel_turn_cases)
    case (preamble expired)
    with wf inv show ?thesis
      by (auto simp: preamble_turn_def t_wf_def t_forwards_def t_frames_def t_in_order_def t_payload_def t_owed_def
          t_futs_def t_flowing_def split: prod.splits poll.splits sum.splits option.splits)
  next
    case (opens p)
    then show ?thesis by (rule t_forwards_opens [OF wf inv])
  next
    case (forward fut tx)
    then show ?thesis by (rule t_forwards_forward [OF outs wf inv])
  next
    case (up_read spare)
    then show ?thesis using t_forwards_up_read [OF wf inv] by simp
  next
    case call
    with wf show ?thesis
      by (intro t_forwards_same [OF inv])
        (auto simp: call_turn_def t_wf_def t_futs_def t_flowing_def t_owed_def split: option.splits)
  next
    case (up_send fut tx)
    then show ?thesis by (rule t_forwards_up_send [OF outs wf inv])
  qed (auto intro!: t_forwards_same [OF inv] simp: t_futs_def t_flowing_def t_owed_def route_turn_def
      select_turn_def close_turn_def return_turn_def down_recv_turn_def down_write_turn_def down_grant_turn_def
      down_shut_turn_def Let_def split: prod.splits poll.splits sum.splits option.splits if_splits)
qed

interpretation forwards: local_invariant "\<lambda>rt k. t_forwards"
proof unfold_locales
  show "t_forwards (tunnel_new sk)" for sk
    by (simp add: t_forwards_def t_frames_def t_in_order_def t_payload_def t_owed_def t_futs_def t_flowing_def tunnel_new_def)
qed (rule t_forwards_turn)

section \<open>Writing to the phone\<close>

text \<open>
  What the WebSocket has accepted of the chunks received: all of them between two chunks, all but
  the rest of the current one while it is written, and a prefix once a write has failed.
\<close>

definition t_wrote :: "tunnel \<Rightarrow> bytes \<Rightarrow> bool" where
  "t_wrote t v \<longleftrightarrow>
     (case t_down t of
        DownRecv \<Rightarrow> v = concat (t_chunks t)
      | DownGranting \<Rightarrow> v = concat (t_chunks t)
      | DownWriting chunk rest \<Rightarrow> v @ rest = concat (t_chunks t)
      | _ \<Rightarrow> prefix v (concat (t_chunks t)))"

definition t_writes :: "tunnel \<Rightarrow> bool" where
  "t_writes t \<longleftrightarrow> (\<exists>v. write_inv v (t_ws t) \<and> t_wrote t v)"

lemma t_writes_same:
  assumes "t_writes t" and "\<And>v. write_inv v (t_ws t) \<Longrightarrow> write_inv v (t_ws t')" and "t_down t' = t_down t" and "t_chunks t' = t_chunks t"
  shows "t_writes t'"
  using assms(1) unfolding t_writes_def t_wrote_def assms(3,4) by (blast intro: assms(2))

lemma t_writes_write:
  assumes inv: "t_writes t" and down: "t_down t = DownWriting chunk rest"
  shows "t_writes (down_write_turn chunk rest t)"
proof -
  obtain v where v: "write_inv v (t_ws t)" "v @ rest = concat (t_chunks t)"
    using inv down by (auto simp: t_writes_def t_wrote_def)
  show ?thesis
  proof (cases "rest = []")
    case True
    with v show ?thesis by (auto simp: down_write_turn_def Let_def t_writes_def t_wrote_def)
  next
    case False
    obtain ws y where p: "poll_write rest (t_ws t) = (ws, y)" by fastforce
    note w = write_inv_poll_write [OF p v(1)]
    have "t_writes (t\<lparr>t_ws := ws, t_down := DownShutting\<rparr>)"
    proof -
      obtain n where "write_inv (v @ take n rest) ws" using w by blast
      moreover have "prefix (v @ take n rest) (concat (t_chunks t))"
        by (simp add: take_is_prefix flip: v(2))
      ultimately show ?thesis by (auto simp: t_writes_def t_wrote_def)
    qed
    moreover have "t_writes (t\<lparr>t_ws := ws, t_down := DownWriting chunk (drop n rest)\<rparr>)" if "y = Ready (Inr n)" for n
      using w v(2) that by (auto simp: t_writes_def t_wrote_def intro!: exI [of _ "v @ take n rest"])
    moreover have "t_writes (t\<lparr>t_ws := ws\<rparr>)" if "y = Pending"
      using w v(2) that down by (auto simp: t_writes_def t_wrote_def)
    ultimately show ?thesis
      using p False by (auto simp: down_write_turn_def split: poll.splits sum.splits)
  qed
qed

lemma t_writes_turn:
  assumes "tunnel_turn rt k n u s t = Some (s', t')" and inv: "t_writes t"
  shows "t_writes t'"
  using assms(1)
proof (cases rule: tunnel_turn_cases)
  case (preamble expired)
  then show ?thesis
    by (auto simp: preamble_turn_def dest: ws_read_exact_write intro!: t_writes_same [OF inv]
        split: prod.splits poll.splits sum.splits)
next
  case (opens p)
  then show ?thesis
    by (auto simp: open_turn_def intro!: t_writes_same [OF inv] split: opener.splits prod.splits poll.splits option.splits)
next
  case (up_read spare)
  then show ?thesis
    by (auto simp: up_read_turn_def dest: write_inv_poll_read intro!: t_writes_same [OF inv]
        split: prod.splits poll.splits sum.splits)
next
  case (down_recv tx)
  with inv show ?thesis
    by (auto simp: down_recv_turn_def t_writes_def t_wrote_def split: prod.splits poll.splits option.splits)
next
  case (down_write chunk rest)
  then show ?thesis using t_writes_write [OF inv] by simp
next
  case (down_grant tx)
  with inv show ?thesis
    by (auto simp: down_grant_turn_def t_writes_def t_wrote_def split: prod.splits poll.splits sum.splits)
next
  case down_shut
  with inv show ?thesis
    by (auto simp: down_shut_turn_def t_writes_def t_wrote_def dest: write_inv_poll_shutdown split: prod.splits poll.splits)
qed (auto simp: route_turn_def call_turn_def forward_turn_def select_turn_def close_turn_def return_turn_def up_send_turn_def
    intro!: t_writes_same [OF inv] split: prod.splits poll.splits sum.splits option.splits progress.splits if_splits)

interpretation writes: local_invariant "\<lambda>rt k. t_writes"
proof unfold_locales
  show "t_writes (tunnel_new sk)" if "sent sk = []" for sk
    using that by (auto simp: t_writes_def t_wrote_def tunnel_new_def)
qed (rule t_writes_turn)

section \<open>Returning credit\<close>

lemma unat_threshold: "unat GRANT_THRESHOLD = 131072"
  by (simp add: GRANT_THRESHOLD_def WINDOW_def)

lemma pending_add:
  assumes "unat p < 131072" and "n \<le> MAX_NOISE_MSG"
  shows "unat (p + of_nat n :: u32) = unat p + n"
proof -
  have "unat (of_nat n :: u32) = n"
    using assms(2) by (simp add: unat_of_nat wire_consts)
  with assms show ?thesis
    by (subst unat_plus_if') (simp add: wire_consts)
qed

definition granted_sum :: "tunnel \<Rightarrow> nat" where
  "granted_sum t = (\<Sum>g\<leftarrow>t_grants t. unat g)"

definition t_balance :: "tunnel \<Rightarrow> nat \<Rightarrow> bool" where
  "t_balance t n \<longleftrightarrow> granted_sum t + unat (t_pending t) + n = length (concat (t_chunks t))"

definition t_returns :: "tunnel \<Rightarrow> bool" where
  "t_returns t \<longleftrightarrow>
     (case t_down t of
        DownRecv \<Rightarrow> t_balance t 0 \<and> unat (t_pending t) < 131072
      | DownWriting chunk rest \<Rightarrow> t_balance t (length chunk) \<and> unat (t_pending t) < 131072
      | DownGranting \<Rightarrow> t_balance t 0 \<and> 131072 \<le> unat (t_pending t)
      | _ \<Rightarrow> (\<exists>n \<le> MAX_NOISE_MSG. t_balance t n))
     \<and> unat (t_pending t) < 131072 + MAX_NOISE_MSG
     \<and> (\<forall>g \<in> set (t_grants t). 131072 \<le> unat g \<and> unat g < 131072 + MAX_NOISE_MSG)"

definition t_small :: "tunnel \<Rightarrow> bool" where
  "t_small t \<longleftrightarrow> (\<forall>c \<in> set (t_chunks t). length c \<le> MAX_NOISE_MSG)"

definition t_credit :: "tunnel \<Rightarrow> bool" where
  "t_credit t \<longleftrightarrow>
     (\<forall>chunk rest. t_down t = DownWriting chunk rest \<longrightarrow> chunk \<in> set (t_chunks t)) \<and> (t_small t \<longrightarrow> t_returns t)"

lemma t_credit_same:
  assumes "t_credit t" and "t_down t' = t_down t" "t_chunks t' = t_chunks t" "t_pending t' = t_pending t" "t_grants t' = t_grants t"
  shows "t_credit t'"
  using assms(1) unfolding t_credit_def t_returns_def t_small_def t_balance_def granted_sum_def assms(2-5) by blast

lemma t_returns_written:
  assumes "t_returns t" and "t_down t = DownWriting chunk rest" and "length chunk \<le> MAX_NOISE_MSG"
    and p: "p = t_pending t + of_nat (length chunk)"
  shows "t_returns (t\<lparr>t_pending := p, t_down := (if p \<ge> GRANT_THRESHOLD then DownGranting else DownRecv)\<rparr>)"
proof -
  have "unat p = unat (t_pending t) + length chunk"
    using assms(1,2) pending_add [OF _ assms(3), of "t_pending t"] by (simp add: t_returns_def p)
  moreover have "GRANT_THRESHOLD \<le> p \<longleftrightarrow> 131072 \<le> unat p"
    by (simp add: word_le_nat_alt unat_threshold)
  ultimately show ?thesis
    using assms(1-3) by (auto simp: t_returns_def t_balance_def granted_sum_def)
qed

lemma t_credit_write:
  assumes inv: "t_credit t" and down: "t_down t = DownWriting chunk rest"
  shows "t_credit (down_write_turn chunk rest t)"
proof -
  have mem: "chunk \<in> set (t_chunks t)" using inv down by (simp add: t_credit_def)
  have stop: "t_credit (t\<lparr>t_ws := ws, t_down := DownShutting\<rparr>)" for ws
    using inv down mem by (auto simp: t_credit_def t_small_def t_returns_def t_balance_def granted_sum_def)
  have go: "t_credit (t\<lparr>t_ws := ws, t_down := DownWriting chunk rest'\<rparr>)" for ws rest'
    using inv down mem by (auto simp: t_credit_def t_small_def t_returns_def t_balance_def granted_sum_def)
  have wait: "t_credit (t\<lparr>t_ws := ws\<rparr>)" for ws
    by (rule t_credit_same [OF inv]) simp_all
  show ?thesis
  proof (cases "rest = []")
    case True
    have "t_returns (t\<lparr>t_pending := p, t_down := (if p \<ge> GRANT_THRESHOLD then DownGranting else DownRecv)\<rparr>)"
      if "t_small t" "p = t_pending t + of_nat (length chunk)" for p
      using that inv mem by (intro t_returns_written [OF _ down]) (simp_all add: t_credit_def t_small_def)
    with True show ?thesis by (simp add: down_write_turn_def Let_def t_credit_def t_small_def)
  qed (use stop go wait in \<open>auto simp: down_write_turn_def split: prod.splits poll.splits sum.splits\<close>)
qed

lemma t_credit_turn:
  assumes "tunnel_turn rt k n u s t = Some (s', t')" and inv: "t_credit t"
  shows "t_credit t'"
  using assms(1)
proof (cases rule: tunnel_turn_cases)
  case (down_recv tx)
  with inv show ?thesis
    by (auto simp: down_recv_turn_def t_credit_def t_small_def t_returns_def t_balance_def granted_sum_def
        split: prod.splits poll.splits option.splits)
next
  case (down_write chunk rest)
  then show ?thesis using t_credit_write [OF inv] by simp
next
  case (down_grant tx)
  with inv show ?thesis
    by (auto simp: down_grant_turn_def t_credit_def t_small_def t_returns_def t_balance_def granted_sum_def
        split: prod.splits poll.splits sum.splits)
next
  case down_shut
  with inv show ?thesis
    by (auto simp: down_shut_turn_def t_credit_def t_small_def t_returns_def t_balance_def granted_sum_def
        split: prod.splits poll.splits)
next
  case (opens p)
  then show ?thesis
    by (auto simp: open_turn_def intro!: t_credit_same [OF inv] split: opener.splits prod.splits poll.splits option.splits)
qed (auto simp: preamble_turn_def route_turn_def call_turn_def forward_turn_def select_turn_def close_turn_def return_turn_def
    up_read_turn_def up_send_turn_def intro!: t_credit_same [OF inv]
    split: prod.splits poll.splits sum.splits option.splits progress.splits if_splits)

interpretation credit: local_invariant "\<lambda>rt k. t_credit"
proof unfold_locales
  show "t_credit (tunnel_new sk)" for sk
    by (simp add: t_credit_def t_returns_def t_balance_def granted_sum_def tunnel_new_def)
qed (rule t_credit_turn)

end
