(* ===== verification/Link_Streams.thy ===== *)
theory Link_Streams
  imports Tunnel_Data
begin

text \<open>
  The streams of the tunnels on one link: their ids do not repeat before \<open>next_id\<close> wraps, the data
  frames on the wire under an id are those its tunnel queued, what arrives for an id reaches its
  tunnel, and a tunnel that has closed its stream leaves nothing in the table.
\<close>

section \<open>Ids\<close>

lemma next_id_ops [simp]:
  "next_id (remove_stream rt i s) = next_id s" "next_id (drop_stream rt i s) = next_id s"
  "next_id (drop_rx rt a s) = next_id s"
  by (auto simp: remove_stream_def drop_state_def drop_stream_def drop_rx_def split: option.splits)

lemma next_id_drop_all [simp]: "next_id (drop_all rt s) = next_id s"
proof -
  have "next_id (fold (\<lambda>(i, a). drop_stream rt i) xs s) = next_id s" for xs
    by (induction xs arbitrary: s) auto
  then show ?thesis by (simp add: drop_all_def)
qed

lemma next_id_send: "session_send rt f s = (s', r) \<Longrightarrow> next_id s' = next_id s"
  by (auto simp: session_send_def split: sending.splits)

lemma next_id_open:
  "open_insert rt i s = (s', tx) \<Longrightarrow> next_id s' = next_id s"
  "open_announce rt half s = (s', r) \<Longrightarrow> next_id s' = next_id s"
  by (auto simp: open_insert_def insert_stream_def open_announce_def Let_def dest: next_id_send
      split: prod.splits poll.splits sum.splits)

lemma next_id_tx: "tx_step rt tx fut s = Step (s', fut') \<Longrightarrow> next_id s' = next_id s"
  by (cases fut) (auto simp: tx_step_def Let_def dest: next_id_send
      split: option.splits prod.splits poll.splits sum.splits if_splits acquired.splits)

lemma next_id_take:
  "rx_recv rt a s = (s', y) \<Longrightarrow> next_id s' = next_id s"
  "writer_take rt s = Some (s', f) \<Longrightarrow> next_id s' = next_id s"
  by (auto simp: rx_recv_def writer_take_def split: received.splits)

lemma next_id_frame: "handle_frame rt m s = (s', nx, tx) \<Longrightarrow> next_id s' = next_id s"
  by (auto simp: handle_frame_def handle_open_def insert_stream_def Let_def handle_data_def handle_window_def
      split: sum.splits prod.splits if_splits acquired.splits option.splits sending.splits)

text \<open>The id a tunnel has drawn.\<close>

definition t_number :: "tunnel \<Rightarrow> u32 option" where
  "t_number t = (case t_pc t of Opening (Numbered i) \<Rightarrow> Some i | _ \<Rightarrow> map_option tx_id (t_half t))"

lemma turn_number:
  assumes "tunnel_turn rt k n u s t = Some (s', t')" and "t_wf t"
  shows "t_number t' = t_number t \<and> next_id s' = next_id s
    \<or> t_number t = None \<and> t_number t' = Some (next_id s) \<and> next_id s' = next_id s + 1"
  using assms(1)
proof (cases rule: tunnel_turn_cases)
  case (preamble expired)
  with assms(2) show ?thesis
    by (auto simp: preamble_turn_def t_number_def t_wf_def split: prod.splits poll.splits sum.splits option.splits)
next
  case (opens p)
  with assms(2) show ?thesis
    by (auto simp: open_turn_def open_number_def open_insert_def insert_stream_def Let_def t_number_def t_wf_def
        split: opener.splits prod.splits poll.splits option.splits dest: next_id_open)
next
  case (forward fut tx)
  then show ?thesis
    by (auto simp: forward_turn_def t_number_def dest: next_id_tx split: progress.splits prod.splits poll.splits sum.splits)
next
  case (up_read spare)
  then show ?thesis
    by (auto simp: up_read_turn_def t_number_def split: prod.splits poll.splits sum.splits main_pc.splits opener.splits)
next
  case (up_send fut tx)
  then show ?thesis
    by (auto simp: up_send_turn_def t_number_def dest: next_id_tx
        split: progress.splits prod.splits poll.splits sum.splits main_pc.splits opener.splits)
next
  case (down_grant tx)
  then show ?thesis
    by (auto simp: down_grant_turn_def tx_grant_def t_number_def dest: next_id_send split: prod.splits poll.splits sum.splits)
qed (auto simp: route_turn_def call_turn_def open_reserve_def select_turn_def close_turn_def tx_close_def return_turn_def
    down_recv_turn_def down_write_turn_def down_shut_turn_def t_number_def Let_def dest: next_id_send next_id_take
    split: prod.splits poll.splits sum.splits option.splits if_splits acquired.splits)

definition numbered :: "tunnel list \<Rightarrow> nat" where
  "numbered ts = length (filter (\<lambda>t. t_number t \<noteq> None) ts)"

text \<open>Before \<open>next_id\<close> wraps.\<close>

definition unwrapped :: "('q, 'b, 'o) link \<Rightarrow> bool" where
  "unwrapped w \<longleftrightarrow> length (l_tunnels w) < 2 ^ 32 - 1"

definition ids_ok :: "('q, 'b, 'o) link \<Rightarrow> bool" where
  "ids_ok w \<longleftrightarrow>
     unat (next_id (l_ses w)) = Suc (numbered (l_tunnels w))
     \<and> (\<forall>t \<in> set (l_tunnels w). \<forall>i. t_number t = Some i \<longrightarrow> i \<noteq> 0 \<and> unat i < unat (next_id (l_ses w)))
     \<and> (\<forall>j < length (l_tunnels w). \<forall>j' < length (l_tunnels w). j \<noteq> j' \<longrightarrow> t_number (l_tunnels w ! j) \<noteq> None \<longrightarrow>
          t_number (l_tunnels w ! j) \<noteq> t_number (l_tunnels w ! j'))"

lemma ids_fresh:
  assumes "ids_ok w"
  shows "Some (next_id (l_ses w)) \<notin> t_number ` set (l_tunnels w)"
proof
  assume "Some (next_id (l_ses w)) \<in> t_number ` set (l_tunnels w)"
  then obtain t where "t \<in> set (l_tunnels w)" "t_number t = Some (next_id (l_ses w))" by (metis imageE)
  with assms have "unat (next_id (l_ses w)) < unat (next_id (l_ses w))" unfolding ids_ok_def by blast
  then show False by simp
qed

lemma ids_ok_turn:
  assumes ids: "ids_ok w" and small: "unwrapped w" and wf: "t_wf (l_tunnels w ! j)" and j: "j < length (l_tunnels w)"
    and turn: "tunnel_turn rt k n u (l_ses w) (l_tunnels w ! j) = Some (s', t')"
  shows "ids_ok (w\<lparr>l_ses := s', l_tunnels := (l_tunnels w)[j := t']\<rparr>)"
proof -
  let ?ts = "l_tunnels w" and ?ts' = "(l_tunnels w)[j := t']"
  note count = filter_update_count [OF j, of "\<lambda>t. t_number t \<noteq> None" t']
  from turn_number [OF turn wf] show ?thesis
  proof
    assume same: "t_number t' = t_number (?ts ! j) \<and> next_id s' = next_id (l_ses w)"
    then have num: "t_number (?ts' ! i) = t_number (?ts ! i)" if "i < length ?ts" for i
      using that j by (cases "i = j") simp_all
    with ids same count show ?thesis by (auto simp: ids_ok_def numbered_def all_set_conv_all_nth)
  next
    assume new: "t_number (?ts ! j) = None \<and> t_number t' = Some (next_id (l_ses w)) \<and> next_id s' = next_id (l_ses w) + 1"
    then have more: "numbered ?ts' = Suc (numbered ?ts)" using count by (simp add: numbered_def)
    have "numbered ?ts' \<le> length ?ts" by (simp add: numbered_def length_filter_le [THEN order_trans])
    then have "unat (next_id (l_ses w)) + 1 < 2 ^ 32"
      using ids small more by (simp add: ids_ok_def unwrapped_def)
    then have succ: "unat (next_id s') = Suc (unat (next_id (l_ses w)))"
      using new by (simp add: unat_word_ariths)
    moreover have "next_id (l_ses w) \<noteq> 0" using ids by (auto simp: ids_ok_def)
    moreover have "Some (next_id (l_ses w)) \<noteq> t_number (?ts ! i)" if i: "i < length ?ts" for i
      using ids_fresh [OF ids] nth_mem [OF i] by (metis image_eqI)
    ultimately show ?thesis
      using ids new more j
      by (auto simp: ids_ok_def all_set_conv_all_nth nth_list_update less_Suc_eq)
  qed
qed

lemma link_act_next_id:
  assumes "link_do rt k x w = Some w'" and "\<nexists>j u. x = Turn j u"
  shows "next_id (l_ses w') = next_id (l_ses w)"
  using assms
  by (cases x) (auto simp: link_do_def shutdown_def Let_def dest: next_id_frame next_id_send next_id_take(2)
      split: if_splits prod.splits poll.splits sum.splits reader_pc.splits)

lemma ids_ok_act:
  assumes ids: "ids_ok w" and run: "link_do rt k x w = Some w'" and x: "\<nexists>j u. x = Turn j u"
  shows "ids_ok w'"
proof -
  obtain ts where ts: "l_tunnels w' = l_tunnels w @ map tunnel_new ts"
    using link_act_trace [OF run x] by blast
  have new: "t_number (tunnel_new sk) = None" for sk by (simp add: t_number_def tunnel_new_def)
  then have "numbered (l_tunnels w') = numbered (l_tunnels w)" by (simp add: numbered_def ts filter_map o_def)
  moreover have "t_number (l_tunnels w' ! j) = (if j < length (l_tunnels w) then t_number (l_tunnels w ! j) else None)"
    if "j < length (l_tunnels w')" for j
    using that new by (simp add: ts nth_append)
  ultimately show ?thesis
    using ids link_act_next_id [OF run x] unfolding ids_ok_def by (auto simp: ts new split: if_splits)
qed

lemma unwrapped_back:
  assumes "link_do rt k x w = Some w'" and "unwrapped w'"
  shows "unwrapped w"
proof -
  have "length (l_tunnels w) \<le> length (l_tunnels w')"
    using assms(1) by (auto simp: link_do_def split: act.splits if_splits prod.splits poll.splits sum.splits reader_pc.splits)
  with assms(2) show ?thesis by (simp add: unwrapped_def)
qed

lemma link_run_ids:
  assumes laws: "runtime_laws rt" and "link_run rt k n w" and "unwrapped w"
  shows "ids_ok w"
  using assms(2,3)
proof induction
  case (begun w)
  then show ?case by (auto simp: link_start_def start_def ids_ok_def numbered_def split: if_splits)
next
  case (acted w x w')
  have small: "unwrapped w" by (rule unwrapped_back [OF acted(2,4)])
  show ?case
  proof (cases "\<exists>j u. x = Turn j u")
    case True
    then obtain j u s' t' where j: "j < length (l_tunnels w)"
      and turn: "tunnel_turn rt k (length (l_heard w)) u (l_ses w) (l_tunnels w ! j) = Some (s', t')"
      and w': "w' = w\<lparr>l_ses := s', l_tunnels := (l_tunnels w)[j := t']\<rparr>"
      using acted(2) by (blast elim: link_turnE)
    have "t_wf (l_tunnels w ! j)" by (rule link_okD(2) [OF link_run_ok [OF laws acted(1)] j])
    with acted(3) [OF small] small j turn show ?thesis unfolding w' by (blast intro: ids_ok_turn)
  next
    case False
    with acted small show ?thesis by (blast intro: ids_ok_act)
  qed
qed

section \<open>Frames for the wire\<close>

text \<open>A step that puts \<open>fs\<close> into the outbox.\<close>

definition offers :: "('q, 'b, 'o) runtime \<Rightarrow> ('q, 'b, 'o) mux_session \<Rightarrow> frame list \<Rightarrow> ('q, 'b, 'o) mux_session \<Rightarrow> bool" where
  "offers rt s fs s' \<longleftrightarrow>
     queue_of rt s' = queue_of rt s @ fs \<and> ch_rx_open (outch rt) (out s') = ch_rx_open (outch rt) (out s)"

lemma offers_same: "out s' = out s \<Longrightarrow> offers rt s [] s'"
  by (simp add: offers_def)

lemma out_ops [simp]:
  "out (remove_stream rt i s) = out s" "out (drop_stream rt i s) = out s" "out (drop_rx rt a s) = out s"
  by (auto simp: remove_stream_def drop_state_def drop_stream_def drop_rx_def split: option.splits)

lemma out_drop_all [simp]: "out (drop_all rt s) = out s"
proof -
  have "out (fold (\<lambda>(i, a). drop_stream rt i) xs s) = out s" for xs
    by (induction xs arbitrary: s) auto
  then show ?thesis by (simp add: drop_all_def)
qed

lemma out_frame: "handle_frame rt m s = (s', nx, tx) \<Longrightarrow> out s' = out s"
  by (auto simp: handle_frame_def handle_open_def insert_stream_def Let_def handle_data_def handle_window_def
      split: sum.splits prod.splits if_splits acquired.splits option.splits sending.splits)

lemma offers_send:
  assumes laws: "chan_laws (outch rt)" and send: "session_send rt f s = (s', r)"
  shows "\<exists>fs. offers rt s fs s' \<and> set fs \<subseteq> {f}"
proof (cases "ch_try_send (outch rt) f (out s)")
  case (SendOk c)
  with ch_try_send_laws(1) [OF laws SendOk] send show ?thesis
    by (intro exI [of _ "[f]"]) (auto simp: session_send_def offers_def ch_view_def)
qed (use send in \<open>auto simp: session_send_def intro!: exI [of _ "[]"] offers_same\<close>)

text \<open>What a tunnel offers: control frames, and the data frames of its own stream that its log records.\<close>

definition t_offers :: "('q, 'b, 'o) runtime \<Rightarrow> ('q, 'b, 'o) mux_session \<Rightarrow> tunnel \<Rightarrow> ('q, 'b, 'o) mux_session \<Rightarrow> tunnel \<Rightarrow> bool" where
  "t_offers rt s t s' t' \<longleftrightarrow> (\<exists>fs. offers rt s fs s'
     \<and> (\<forall>f \<in> set fs. length (frame_payload f) \<le> MAX_PAYLOAD
          \<and> (frame_kind f = KIND_DATA \<longrightarrow> map_option tx_id (t_half t) = Some (frame_id f)))
     \<and> t_queued t' = t_queued t @ filter (\<lambda>f. frame_kind f = KIND_DATA) fs)"

lemma t_offers_none: "out s' = out s \<Longrightarrow> t_queued t' = t_queued t \<Longrightarrow> t_offers rt s t s' t'"
  by (auto simp: t_offers_def intro!: exI [of _ "[]"] offers_same)

lemma t_offers_control:
  assumes "chan_laws (outch rt)" and "session_send rt f s = (s1, r)" and "frame_kind f \<noteq> KIND_DATA"
    and "length (frame_payload f) \<le> MAX_PAYLOAD" and "out s' = out s1" and "t_queued t' = t_queued t"
  shows "t_offers rt s t s' t'"
proof -
  obtain fs where fs: "offers rt s fs s1" "set fs \<subseteq> {f}" using offers_send [OF assms(1,2)] by blast
  moreover have "filter (\<lambda>f. frame_kind f = KIND_DATA) fs = []" using fs(2) assms(3) by (auto simp: filter_empty_conv)
  ultimately show ?thesis
    using assms(3-6) unfolding t_offers_def by (intro exI [of _ fs]) (auto simp: offers_def)
qed

lemma t_offers_data:
  assumes laws: "chan_laws (outch rt)" and step: "tx_step rt tx fut s = Step (s', fut')" and "fut_ok (tx_id tx) fut"
    and "t_half t = Some tx" and "t_queued t' = t_queued t @ new_in_outbox rt s s'"
  shows "t_offers rt s t s' t'"
proof -
  note new = new_in_outbox_tx [OF assms(1-3)]
  have "ch_rx_open (outch rt) (out s') = ch_rx_open (outch rt) (out s)"
  proof (cases "snd fut")
    case None
    then show ?thesis using step by (cases fut) (auto simp: tx_step_def Let_def split: if_splits acquired.splits)
  next
    case (Some f)
    then have "session_send rt f s = (s', Ready (Inr ()))"
      using tx_step_push [of rt tx "fst fut" f s s' "fst fut'" "snd fut'"] step by (cases fut) simp
    with offers_send [OF laws this] show ?thesis by (auto simp: offers_def)
  qed
  with new(1) have "offers rt s (new_in_outbox rt s s') s'" by (simp add: offers_def)
  moreover have "filter (\<lambda>f. frame_kind f = KIND_DATA) (new_in_outbox rt s s') = new_in_outbox rt s s'"
    using new(2) by (simp add: filter_id_conv data_frame_def)
  ultimately show ?thesis
    using new(2) assms(4,5) unfolding t_offers_def by (intro exI [of _ "new_in_outbox rt s s'"]) (auto simp: data_frame_def)
qed

lemma turn_offers:
  assumes laws: "chan_laws (outch rt)" and wf: "t_wf t" and inv: "t_forwards t"
    and turn: "tunnel_turn rt k n u s t = Some (s', t')"
  shows "t_offers rt s t s' t'"
  using turn
proof (cases rule: tunnel_turn_cases)
  case (opens p)
  show ?thesis
  proof (cases p)
    case (Announcing tx)
    obtain s1 r where send: "session_send rt (control (tx_id tx) KIND_OPEN) s = (s1, r)" by fastforce
    with opens Announcing show ?thesis
      by (intro t_offers_control [OF laws send])
        (auto simp: open_turn_def open_announce_def control_def wire_consts split: prod.splits poll.splits sum.splits)
  qed (use opens in \<open>auto simp: open_turn_def open_number_def open_insert_def insert_stream_def Let_def intro!: t_offers_none\<close>)
next
  case (forward fut tx)
  have ok: "fut_ok (tx_id tx) fut" using inv forward by (simp add: t_forwards_def t_frames_def t_futs_def)
  show ?thesis
  proof (cases "tx_step rt tx fut s" rule: progress_cases)
    case (1 s1 fut1)
    with forward show ?thesis by (intro t_offers_data [OF laws _ ok]) (auto simp: forward_turn_def)
  qed (use forward in \<open>auto simp: forward_turn_def intro!: t_offers_none\<close>)
next
  case (up_send fut tx)
  have ok: "fut_ok (tx_id tx) fut" using inv up_send by (simp add: t_forwards_def t_frames_def t_futs_def)
  show ?thesis
  proof (cases "tx_step rt tx fut s" rule: progress_cases)
    case (1 s1 fut1)
    with up_send show ?thesis by (intro t_offers_data [OF laws _ ok]) (auto simp: up_send_turn_def)
  qed (use up_send in \<open>auto simp: up_send_turn_def intro!: t_offers_none\<close>)
next
  case (return f tx)
  obtain s1 r where send: "session_send rt f s = (s1, r)" by fastforce
  have "f = control (tx_id tx) KIND_CLOSE" using wf return by (simp add: t_wf_def)
  with send return show ?thesis
    by (intro t_offers_control [OF laws send]) (auto simp: return_turn_def control_def wire_consts split: poll.splits)
next
  case (down_grant tx)
  obtain s1 r where send: "session_send rt (grant_frame (tx_id tx) (t_pending t)) s = (s1, r)" by fastforce
  with down_grant show ?thesis
    by (intro t_offers_control [OF laws send])
      (auto simp: down_grant_turn_def tx_grant_def grant_frame_def wire_consts split: poll.splits sum.splits)
qed (auto simp: preamble_turn_def route_turn_def call_turn_def open_reserve_def select_turn_def close_turn_def tx_close_def
    up_read_turn_def down_recv_turn_def rx_recv_def down_write_turn_def down_shut_turn_def Let_def intro!: t_offers_none
    split: prod.splits poll.splits sum.splits option.splits if_splits acquired.splits received.splits)

text \<open>The frames that have left the outbox and those still in it.\<close>

definition l_frames :: "('q, 'b, 'o) runtime \<Rightarrow> ('q, 'b, 'o) link \<Rightarrow> frame list" where
  "l_frames rt w = l_wire w @ queue_of rt (l_ses w)"

abbreviation l_open :: "('q, 'b, 'o) runtime \<Rightarrow> ('q, 'b, 'o) link \<Rightarrow> bool" where
  "l_open rt w \<equiv> ch_rx_open (outch rt) (out (l_ses w))"

lemma act_frames:
  assumes laws: "chan_laws (outch rt)" and run: "link_do rt k x w = Some w'" and "\<nexists>j u. x = Turn j u"
  shows "(\<exists>fs. l_frames rt w' = l_frames rt w @ fs \<and> l_open rt w' = l_open rt w \<and> (l_wire w' = l_wire w \<or> l_open rt w)
      \<and> (\<forall>f \<in> set fs. l_reader w = Sending f))
    \<or> (\<not> l_open rt w' \<and> l_frames rt w' = l_wire w \<and> l_wire w' = l_wire w)"
proof (cases x)
  case (ReadNext nxt)
  with run have "l_wire w' = l_wire w" "out (l_ses w') = out (l_ses w)"
    by (auto elim!: link_readE dest: out_frame)
  then show ?thesis by (simp add: l_frames_def)
next
  case ReaderSends
  with run obtain f r where "l_reader w = Sending f" "session_send rt f (l_ses w) = (l_ses w', r)" "l_wire w' = l_wire w"
    by (auto simp: link_do_def split: reader_pc.splits prod.splits poll.splits)
  with offers_send [OF laws this(2)] show ?thesis by (auto simp: offers_def l_frames_def)
next
  case WriterTakes
  with run obtain f c where "l_open rt w" "ch_recv (outch rt) (out (l_ses w)) = Got f c"
    "w' = w\<lparr>l_ses := (l_ses w)\<lparr>out := c\<rparr>, l_wire := l_wire w @ [f]\<rparr>"
    by (auto simp: link_do_def writer_take_def split: if_splits received.splits)
  with ch_recv_laws(1) [OF laws this(1,2)] show ?thesis by (simp add: l_frames_def)
next
  case WriterEnds
  with run ch_drop_laws(2,3) [OF laws] show ?thesis by (auto simp: link_do_def l_frames_def)
next
  case ShutDown
  with run ch_drop_laws(2,3) [OF laws] show ?thesis by (auto simp: link_do_def l_frames_def shutdown_def Let_def)
qed (use run assms(3) in \<open>auto simp: link_do_def l_frames_def split: if_splits\<close>)

definition reader_ok :: "reader_pc \<Rightarrow> bool" where
  "reader_ok r \<longleftrightarrow> (\<forall>f. r = Sending f \<longrightarrow> frame_payload f = [] \<and> (frame_kind f = KIND_DATA \<longrightarrow> frame_id f = 0))"

lemma reader_ok_frame: "handle_frame rt m s = (s', nx, tx) \<Longrightarrow> reader_ok (after nx)"
  by (auto simp: handle_frame_def handle_open_def handle_data_def handle_window_def reader_ok_def after_def control_def
      wire_consts split: sum.splits prod.splits if_splits acquired.splits option.splits sending.splits)

lemma reader_ok_do:
  "link_do rt k x w = Some w' \<Longrightarrow> reader_ok (l_reader w) \<Longrightarrow> reader_ok (l_reader w')"
  by (auto simp: link_do_def dest: reader_ok_frame split: act.splits if_splits prod.splits sum.splits reader_pc.splits poll.splits)
    (auto simp: reader_ok_def)

text \<open>Every data frame belongs to a tunnel or is an answer to a keepalive.\<close>

definition frames_ok :: "('q, 'b, 'o) runtime \<Rightarrow> ('q, 'b, 'o) link \<Rightarrow> bool" where
  "frames_ok rt w \<longleftrightarrow> reader_ok (l_reader w)
     \<and> (\<forall>f \<in> set (l_frames rt w). length (frame_payload f) \<le> MAX_PAYLOAD
          \<and> (frame_kind f = KIND_DATA \<longrightarrow> frame_id f = 0 \<or> Some (frame_id f) \<in> t_number ` set (l_tunnels w)))"

lemma turn_frames:
  assumes laws: "runtime_laws rt" and run: "link_run rt k n w" and "link_do rt k (Turn j u) w = Some w'"
  obtains fs where "l_frames rt w' = l_frames rt w @ fs" and "l_open rt w' = l_open rt w" and "l_wire w' = l_wire w"
    and "\<forall>f \<in> set fs. length (frame_payload f) \<le> MAX_PAYLOAD
          \<and> (frame_kind f = KIND_DATA \<longrightarrow> map_option tx_id (t_half (l_tunnels w ! j)) = Some (frame_id f))"
    and "t_queued (l_tunnels w' ! j) = t_queued (l_tunnels w ! j) @ filter (\<lambda>f. frame_kind f = KIND_DATA) fs"
proof -
  obtain s' t' where j: "j < length (l_tunnels w)"
    and turn: "tunnel_turn rt k (length (l_heard w)) u (l_ses w) (l_tunnels w ! j) = Some (s', t')"
    and w': "w' = w\<lparr>l_ses := s', l_tunnels := (l_tunnels w)[j := t']\<rparr>"
    using assms(3) by (rule link_turnE)
  have wf: "t_wf (l_tunnels w ! j)" by (rule link_okD(2) [OF link_run_ok [OF laws run] j])
  have "t_forwards (l_tunnels w ! j)" using forwards.run [OF laws run] j by simp
  then have "t_offers rt (l_ses w) (l_tunnels w ! j) s' t'"
    using turn_offers [OF _ wf _ turn] laws by (simp add: runtime_laws_def)
  with that j show thesis by (auto simp: t_offers_def offers_def l_frames_def w')
qed

lemma t_number_half: "t_wf t \<Longrightarrow> t_half t = Some tx \<Longrightarrow> t_number t = Some (tx_id tx)"
  by (auto simp: t_number_def t_wf_def split: main_pc.splits opener.splits)

lemma numbers_grow:
  assumes laws: "runtime_laws rt" and run: "link_run rt k n w" and "link_do rt k x w = Some w'" and "j < length (l_tunnels w)"
  shows "t_number (l_tunnels w ! j) = Some i \<Longrightarrow> t_number (l_tunnels w' ! j) = Some i" and "j < length (l_tunnels w')"
proof -
  note ok = link_run_ok [OF laws run]
  have "(t_number (l_tunnels w ! j) = Some i \<longrightarrow> t_number (l_tunnels w' ! j) = Some i) \<and> j < length (l_tunnels w')"
  proof (cases "\<exists>u. x = Turn j u")
    case True
    then obtain u where "link_do rt k (Turn j u) w = Some w'" using assms(3) by blast
    then obtain s' t' where "tunnel_turn rt k (length (l_heard w)) u (l_ses w) (l_tunnels w ! j) = Some (s', t')"
      and "w' = w\<lparr>l_ses := s', l_tunnels := (l_tunnels w)[j := t']\<rparr>"
      by (rule link_turnE)
    with turn_number [OF _ link_okD(2) [OF ok assms(4)]] assms(4) show ?thesis by fastforce
  next
    case False
    with link_do_other(1,2) [OF laws ok assms(3,4)] assms(4) show ?thesis by simp
  qed
  then show "t_number (l_tunnels w ! j) = Some i \<Longrightarrow> t_number (l_tunnels w' ! j) = Some i" and "j < length (l_tunnels w')"
    by blast+
qed

lemma numbers_mono:
  assumes "runtime_laws rt" and "link_run rt k n w" and "link_do rt k x w = Some w'"
  shows "Some i \<in> t_number ` set (l_tunnels w) \<Longrightarrow> Some i \<in> t_number ` set (l_tunnels w')"
proof -
  assume "Some i \<in> t_number ` set (l_tunnels w)"
  then obtain j where "j < length (l_tunnels w)" "t_number (l_tunnels w ! j) = Some i"
    by (auto simp: in_set_conv_nth)
  with numbers_grow [OF assms] have "j < length (l_tunnels w')" "t_number (l_tunnels w' ! j) = Some i" by blast+
  then show "Some i \<in> t_number ` set (l_tunnels w')" by (metis image_eqI nth_mem)
qed

lemma frames_ok_do:
  assumes laws: "runtime_laws rt" and run: "link_run rt k n w" and "do": "link_do rt k x w = Some w'" and inv: "frames_ok rt w"
  shows "frames_ok rt w'"
proof -
  note ok = link_run_ok [OF laws run] and mono = numbers_mono [OF laws run "do"]
  have reader: "reader_ok (l_reader w')" using reader_ok_do [OF "do"] inv by (simp add: frames_ok_def)
  have old: "length (frame_payload f) \<le> MAX_PAYLOAD
      \<and> (frame_kind f = KIND_DATA \<longrightarrow> frame_id f = 0 \<or> Some (frame_id f) \<in> t_number ` set (l_tunnels w'))"
    if "f \<in> set (l_frames rt w)" for f
    using that inv mono unfolding frames_ok_def by blast
  show ?thesis
  proof (cases "\<exists>j u. x = Turn j u")
    case True
    then obtain j u where x: "link_do rt k (Turn j u) w = Some w'" using "do" by blast
    obtain fs where fs: "l_frames rt w' = l_frames rt w @ fs" and "l_open rt w' = l_open rt w" and "l_wire w' = l_wire w"
      and new: "\<forall>f \<in> set fs. length (frame_payload f) \<le> MAX_PAYLOAD
          \<and> (frame_kind f = KIND_DATA \<longrightarrow> map_option tx_id (t_half (l_tunnels w ! j)) = Some (frame_id f))"
      and "t_queued (l_tunnels w' ! j) = t_queued (l_tunnels w ! j) @ filter (\<lambda>f. frame_kind f = KIND_DATA) fs"
      by (rule turn_frames [OF laws run x])
    have j: "j < length (l_tunnels w)" using x by (rule link_turnE)
    have "Some (frame_id f) \<in> t_number ` set (l_tunnels w')"
      if "map_option tx_id (t_half (l_tunnels w ! j)) = Some (frame_id f)" for f
    proof -
      have "t_number (l_tunnels w ! j) = Some (frame_id f)"
        using that t_number_half [OF link_okD(2) [OF ok j]] by auto
      then have "Some (frame_id f) \<in> t_number ` set (l_tunnels w)" using j by (metis image_eqI nth_mem)
      then show ?thesis by (rule mono)
    qed
    with reader old new show ?thesis unfolding frames_ok_def fs set_append by blast
  next
    case False
    have "chan_laws (outch rt)" using laws by (simp add: runtime_laws_def)
    from act_frames [OF this "do" False] show ?thesis
    proof
      assume "\<exists>fs. l_frames rt w' = l_frames rt w @ fs \<and> l_open rt w' = l_open rt w
        \<and> (l_wire w' = l_wire w \<or> l_open rt w) \<and> (\<forall>f \<in> set fs. l_reader w = Sending f)"
      then obtain fs where fs: "l_frames rt w' = l_frames rt w @ fs" "\<forall>f \<in> set fs. l_reader w = Sending f" by blast
      have "length (frame_payload f) \<le> MAX_PAYLOAD \<and> (frame_kind f = KIND_DATA \<longrightarrow> frame_id f = 0)" if "f \<in> set fs" for f
        using fs(2) that inv by (simp add: frames_ok_def reader_ok_def)
      with reader old show ?thesis unfolding frames_ok_def fs(1) set_append by blast
    next
      assume "\<not> l_open rt w' \<and> l_frames rt w' = l_wire w \<and> l_wire w' = l_wire w"
      then have "set (l_frames rt w') \<subseteq> set (l_frames rt w)" by (auto simp: l_frames_def)
      with reader old show ?thesis unfolding frames_ok_def by blast
    qed
  qed
qed

lemma link_run_frames:
  assumes laws: "runtime_laws rt" and "link_run rt k n w"
  shows "frames_ok rt w"
  using assms(2)
proof induction
  case (begun w)
  moreover have "queue_of rt s = []" if "start rt n False = Some s" for s
    using that ch_new_laws [of "outch rt" OUTBOX_FRAMES] laws
    by (auto simp: start_def runtime_laws_def ch_view_def wire_consts split: if_splits)
  ultimately show ?case by (auto simp: link_start_def frames_ok_def l_frames_def reader_ok_def)
next
  case (acted w x w')
  then show ?case by (blast intro: frames_ok_do [OF laws])
qed

subsection \<open>The wire carries what the tunnel queued\<close>

abbreviation data_of_stream :: "u32 \<Rightarrow> frame \<Rightarrow> bool" where
  "data_of_stream i f \<equiv> frame_id f = i \<and> frame_kind f = KIND_DATA"

definition t_wired :: "('q, 'b, 'o) runtime \<Rightarrow> ('q, 'b, 'o) link \<Rightarrow> tunnel \<Rightarrow> bool" where
  "t_wired rt w t \<longleftrightarrow> (unwrapped w \<longrightarrow> (\<forall>i. t_number t = Some i \<longrightarrow>
     prefix (filter (data_of_stream i) (l_wire w)) (t_queued t)
     \<and> (l_open rt w \<longrightarrow> filter (data_of_stream i) (l_frames rt w) = t_queued t)))"

lemma t_wired_more:
  assumes "t_wired rt w t" and "unwrapped w' \<longrightarrow> unwrapped w" and "t_number t' = t_number t"
    and frames: "l_frames rt w' = l_frames rt w @ fs" and "l_open rt w' = l_open rt w" and "l_wire w' = l_wire w \<or> l_open rt w"
    and queued: "\<And>i. unwrapped w \<Longrightarrow> t_number t = Some i \<Longrightarrow> t_queued t' = t_queued t @ filter (data_of_stream i) fs"
  shows "t_wired rt w' t'"
  unfolding t_wired_def
proof (intro impI allI conjI)
  fix i
  assume i: "unwrapped w'" "t_number t' = Some i"
  then have "unwrapped w" "t_number t = Some i" using assms(2,3) by simp_all
  note old = assms(1) [unfolded t_wired_def, rule_format, OF this] and new = queued [OF this]
  show eq: "filter (data_of_stream i) (l_frames rt w') = t_queued t'" if "l_open rt w'"
    using that old new assms(5) by (simp add: frames)
  show "prefix (filter (data_of_stream i) (l_wire w')) (t_queued t')"
  proof (cases "l_open rt w")
    case True
    then have "filter (data_of_stream i) (l_frames rt w') = t_queued t'" using eq assms(5) by simp
    from this [symmetric] show ?thesis by (simp add: l_frames_def)
  next
    case False
    then show ?thesis using old new assms(6) by simp
  qed
qed

lemma t_wired_numbered:
  assumes "unwrapped w' \<longrightarrow> ids_ok w" and frames: "frames_ok rt w" and "t_number t' = Some (next_id (l_ses w))" and "t_queued t' = []"
    and more: "l_frames rt w' = l_frames rt w @ fs" "l_wire w' = l_wire w" "\<forall>f \<in> set fs. frame_kind f \<noteq> KIND_DATA"
  shows "t_wired rt w' t'"
proof -
  have "filter (data_of_stream (next_id (l_ses w))) (l_frames rt w') = []" if "unwrapped w'"
  proof -
    have ids: "ids_ok w" using assms(1) that by simp
    have "frame_id f \<noteq> next_id (l_ses w)" if "f \<in> set (l_frames rt w)" "frame_kind f = KIND_DATA" for f
    proof
      assume "frame_id f = next_id (l_ses w)"
      moreover have "next_id (l_ses w) \<noteq> 0" using ids by (auto simp: ids_ok_def)
      ultimately have "Some (next_id (l_ses w)) \<in> t_number ` set (l_tunnels w)"
        using frames that by (auto simp: frames_ok_def)
      then show False using ids_fresh [OF ids] by blast
    qed
    with more(1,3) show ?thesis by (auto simp: filter_empty_conv)
  qed
  moreover from this have "filter (data_of_stream (next_id (l_ses w))) (l_wire w') = []" if "unwrapped w'"
    using that by (auto simp: l_frames_def filter_empty_conv)
  ultimately show ?thesis using assms(3,4) by (simp add: t_wired_def)
qed

lemma t_wired_own:
  assumes laws: "runtime_laws rt" and run: "link_run rt k n w" and moved: "link_do rt k (Turn j u) w = Some w'"
    and inv: "t_wired rt w (l_tunnels w ! j)"
  shows "t_wired rt w' (l_tunnels w' ! j)"
proof -
  let ?t = "l_tunnels w ! j" and ?t' = "l_tunnels w' ! j"
  obtain fs where frames: "l_frames rt w' = l_frames rt w @ fs" and same: "l_open rt w' = l_open rt w" "l_wire w' = l_wire w"
    and data: "\<forall>f \<in> set fs. length (frame_payload f) \<le> MAX_PAYLOAD
          \<and> (frame_kind f = KIND_DATA \<longrightarrow> map_option tx_id (t_half ?t) = Some (frame_id f))"
    and queued: "t_queued ?t' = t_queued ?t @ filter (\<lambda>f. frame_kind f = KIND_DATA) fs"
    by (rule turn_frames [OF laws run moved])
  obtain s' t' where j: "j < length (l_tunnels w)"
    and turn: "tunnel_turn rt k (length (l_heard w)) u (l_ses w) ?t = Some (s', t')"
    and w': "w' = w\<lparr>l_ses := s', l_tunnels := (l_tunnels w)[j := t']\<rparr>"
    using moved by (rule link_turnE)
  have wf: "t_wf ?t" by (rule link_okD(2) [OF link_run_ok [OF laws run] j])
  have t': "?t' = t'" and small: "unwrapped w' \<longrightarrow> unwrapped w" using j by (simp_all add: w' unwrapped_def)
  from turn_number [OF turn wf] show ?thesis
  proof
    assume num: "t_number t' = t_number ?t \<and> next_id s' = next_id (l_ses w)"
    have "filter (data_of_stream i) fs = filter (\<lambda>f. frame_kind f = KIND_DATA) fs" if "t_number ?t = Some i" for i
      using that data t_number_half [OF wf] by (intro filter_cong) auto
    with queued have "t_queued ?t' = t_queued ?t @ filter (data_of_stream i) fs" if "t_number ?t = Some i" for i
      using that by simp
    with num t' small same frames show ?thesis
      by (intro t_wired_more [OF inv small _ frames]) simp_all
  next
    assume num: "t_number ?t = None \<and> t_number t' = Some (next_id (l_ses w)) \<and> next_id s' = next_id (l_ses w) + 1"
    then have half: "t_half ?t = None" using t_number_half [OF wf] by (cases "t_half ?t") auto
    have "t_forwards ?t" using forwards.run [OF laws run] j by simp
    with half have "t_queued ?t = []" by (simp add: t_forwards_def t_frames_def)
    moreover have none: "\<forall>f \<in> set fs. frame_kind f \<noteq> KIND_DATA" using data half by auto
    ultimately have "t_queued t' = []" using queued t' by (simp add: filter_empty_conv)
    with num none same frames show ?thesis
      unfolding t'
      by (intro t_wired_numbered [OF _ link_run_frames [OF laws run]])
        (auto simp: link_run_ids [OF laws run] small)
  qed
qed

lemma t_wired_cut: "t_wired rt w t \<Longrightarrow> unwrapped w' \<longrightarrow> unwrapped w \<Longrightarrow> \<not> l_open rt w' \<Longrightarrow> l_wire w' = l_wire w \<Longrightarrow> t_wired rt w' t"
  by (auto simp: t_wired_def)

lemma t_wired_other:
  assumes laws: "runtime_laws rt" and run: "link_run rt k n w" and moved: "link_do rt k x w = Some w'"
    and i: "i < length (l_tunnels w)" "\<nexists>u. x = Turn i u" and inv: "t_wired rt w (l_tunnels w ! i)"
  shows "t_wired rt w' (l_tunnels w ! i)"
proof -
  let ?t = "l_tunnels w ! i"
  note small = unwrapped_back [OF moved]
  have mine: "m \<noteq> 0 \<and> (\<forall>j < length (l_tunnels w). j \<noteq> i \<longrightarrow> t_number (l_tunnels w ! j) \<noteq> Some m)"
    if "unwrapped w" "t_number ?t = Some m" for m
    using link_run_ids [OF laws run that(1)] that(2) i(1) nth_mem [OF i(1)] unfolding ids_ok_def by (metis option.distinct(1))
  show ?thesis
  proof (cases "\<exists>j u. x = Turn j u")
    case True
    then obtain j u where x: "link_do rt k (Turn j u) w = Some w'" and "j \<noteq> i" using moved i(2) by blast
    obtain fs where frames: "l_frames rt w' = l_frames rt w @ fs" and same: "l_open rt w' = l_open rt w" "l_wire w' = l_wire w"
      and data: "\<forall>f \<in> set fs. length (frame_payload f) \<le> MAX_PAYLOAD
          \<and> (frame_kind f = KIND_DATA \<longrightarrow> map_option tx_id (t_half (l_tunnels w ! j)) = Some (frame_id f))"
      and "t_queued (l_tunnels w' ! j) = t_queued (l_tunnels w ! j) @ filter (\<lambda>f. frame_kind f = KIND_DATA) fs"
      by (rule turn_frames [OF laws run x])
    have j: "j < length (l_tunnels w)" using x by (rule link_turnE)
    note num = t_number_half [OF link_okD(2) [OF link_run_ok [OF laws run] j]]
    have "filter (data_of_stream m) fs = []" if "unwrapped w" "t_number ?t = Some m" for m
      using mine [OF that] j \<open>j \<noteq> i\<close> num data by (fastforce simp: filter_empty_conv)
    with same small show ?thesis by (intro t_wired_more [OF inv _ _ frames]) simp_all
  next
    case False
    have "chan_laws (outch rt)" using laws by (simp add: runtime_laws_def)
    from act_frames [OF this moved False] show ?thesis
    proof
      assume "\<exists>fs. l_frames rt w' = l_frames rt w @ fs \<and> l_open rt w' = l_open rt w
        \<and> (l_wire w' = l_wire w \<or> l_open rt w) \<and> (\<forall>f \<in> set fs. l_reader w = Sending f)"
      then obtain fs where frames: "l_frames rt w' = l_frames rt w @ fs" and same: "l_open rt w' = l_open rt w"
        "l_wire w' = l_wire w \<or> l_open rt w" and fs: "\<forall>f \<in> set fs. l_reader w = Sending f" by blast
      have "reader_ok (l_reader w)" using link_run_frames [OF laws run] by (simp add: frames_ok_def)
      then have "filter (data_of_stream m) fs = []" if "unwrapped w" "t_number ?t = Some m" for m
        using mine [OF that] fs by (auto simp: filter_empty_conv reader_ok_def)
      with same small show ?thesis by (intro t_wired_more [OF inv _ _ frames]) simp_all
    next
      assume "\<not> l_open rt w' \<and> l_frames rt w' = l_wire w \<and> l_wire w' = l_wire w"
      with small show ?thesis by (intro t_wired_cut [OF inv]) auto
    qed
  qed
qed

interpretation wired: tunnel_invariant "\<lambda>rt k. t_wired rt"
proof unfold_locales
  show "t_wired rt w (tunnel_new sk)" for rt :: "('q, 'b, 'o) runtime" and w sk
    by (simp add: t_wired_def t_number_def tunnel_new_def)
  show "t_wired rt w' t'"
    if "runtime_laws rt" "link_run rt k n w" and j: "j < length (l_tunnels w)"
      and turn: "tunnel_turn rt k (length (l_heard w)) u (l_ses w) (l_tunnels w ! j) = Some (s', t')"
      and w': "w' = w\<lparr>l_ses := s', l_tunnels := (l_tunnels w)[j := t']\<rparr>" and "t_wired rt w (l_tunnels w ! j)"
    for rt :: "('q, 'b, 'o) runtime" and k n w w' j u s' t'
  proof -
    have "link_do rt k (Turn j u) w = Some w'" using turn j by (simp add: link_do_def w')
    from t_wired_own [OF that(1,2) this that(6)] j show ?thesis by (simp add: w')
  qed
qed (rule t_wired_other)

end
