(* ===== verification/Link_Flow.thy ===== *)
theory Link_Flow
  imports Link_Streams
begin

text \<open>
  What reaches a tunnel and what it leaves behind: the chunks its downlink has received are the
  bodies of the data frames the link handled for its id since the stream was inserted, and a tunnel
  that has closed its stream is out of the table.
\<close>

section \<open>What reaches a tunnel\<close>

text \<open>The frames handled since the tunnel's stream was inserted.\<close>

definition t_heard :: "('q, 'b, 'o) link \<Rightarrow> tunnel \<Rightarrow> bytes list" where
  "t_heard w t = drop (t_since t) (l_heard w)"

definition t_fed :: "('q, 'b, 'o) runtime \<Rightarrow> ('q, 'b, 'o) link \<Rightarrow> tunnel \<Rightarrow> bool" where
  "t_fed rt w t \<longleftrightarrow> (t_half t = None \<longrightarrow> t_chunks t = [])
     \<and> (\<forall>tx. t_half t = Some tx \<longrightarrow> t_since t \<le> length (l_heard w)
          \<and> (tx_id tx \<noteq> 0 \<longrightarrow> prefix (t_chunks t) (bodies (tx_id tx) (t_heard w t))
               \<and> (t_rx t \<noteq> None \<longrightarrow> arrives rt (tx_id tx) (tx_addr tx) (t_heard w t) (t_chunks t) (l_ses w))))"

lemma arrives_prefix: "arrives rt i a ms ts s \<Longrightarrow> prefix ts (bodies i ms)"
  by (auto simp: arrives_def split: if_splits dest: append_prefixD) (metis prefixI)

lemma turn_chunks:
  assumes "tunnel_turn rt k n u s t = Some (s', t')" and "t_chunks t' \<noteq> t_chunks t"
  shows "t_pc t' = Selecting"
  using assms(1)
  by (cases rule: tunnel_turn_cases)
    (use assms(2) in \<open>auto simp: turn_defs open_turn_def Let_def
      split: opener.splits prod.splits poll.splits sum.splits option.splits progress.splits if_splits\<close>)

lemma t_since_turn:
  assumes "tunnel_turn rt k n u s t = Some (s', t')" and "t_half t = Some tx" and "t_wf t"
  shows "t_since t' = t_since t"
  using assms(1)
  by (cases rule: tunnel_turn_cases)
    (use assms(2,3) in \<open>auto simp: turn_defs open_turn_def Let_def t_wf_def
      split: opener.splits prod.splits poll.splits sum.splits option.splits progress.splits if_splits\<close>)

lemma t_fed_own:
  assumes laws: "runtime_laws rt" and run: "link_run rt k n w" and j: "j < length (l_tunnels w)"
    and turn: "tunnel_turn rt k (length (l_heard w)) u (l_ses w) (l_tunnels w ! j) = Some (s', t')"
    and w': "w' = w\<lparr>l_ses := s', l_tunnels := (l_tunnels w)[j := t']\<rparr>" and inv: "t_fed rt w (l_tunnels w ! j)"
  shows "t_fed rt w' t'"
proof -
  let ?t = "l_tunnels w ! j"
  note ok = link_run_ok [OF laws run]
  have wf: "t_wf ?t" by (rule link_okD(2) [OF ok j])
  have moved: "link_do rt k (Turn j u) w = Some w'" using turn j by (simp add: link_do_def w')
  obtain ls where tr: "mux_trace rt (world_of w) ls (world_of w')" and "mine ?t (l_tunnels w' ! j) ls"
    using link_turn_trace [OF moved link_okD(1) [OF ok j]] by blast
  then have mine: "mine ?t t' ls" using j by (simp add: w')
  have ses: "ses (world_of w) = l_ses w" "ses (world_of w') = s'" by (simp_all add: world_of_def w')
  obtain m ks where mux: "mux_run rt m False ks (world_of w)" using ok by (auto simp: link_ok_def)
  note on = arrives_trace [OF laws mux _ tr, unfolded ses]
  from turn_half [OF turn wf] show ?thesis
  proof
    assume half: "t_half t' = t_half ?t"
    show ?thesis
    proof (cases "t_half ?t")
      case None
      with mine inv half show ?thesis by (simp add: t_fed_def mine_def)
    next
      case (Some tx)
      note since = t_since_turn [OF turn Some wf]
      then have heard: "t_heard w' t' = t_heard w ?t" by (simp add: t_heard_def w')
      have "prefix (t_chunks t') (bodies (tx_id tx) (t_heard w ?t))
          \<and> (t_rx t' \<noteq> None \<longrightarrow> arrives rt (tx_id tx) (tx_addr tx) (t_heard w ?t) (t_chunks t') s')" if "tx_id tx \<noteq> 0"
      proof (cases "t_rx t'")
        case None
        then have "t_pc t' \<noteq> Selecting" using Some half by (auto simp: t_rx_def)
        then have "t_chunks t' = t_chunks ?t" using turn_chunks [OF turn] by blast
        with None inv Some that show ?thesis by (simp add: t_fed_def)
      next
        case rx: (Some a)
        then have a: "a = tx_addr tx" using Some half by (simp add: t_rx_Some t_addr_def)
        have "t_rx ?t = Some a" by (rule turn_rx [OF turn half rx])
        then have "arrives rt (tx_id tx) a (t_heard w ?t) (t_chunks ?t) (l_ses w)"
          using inv Some that a by (simp add: t_fed_def)
        from on [OF that this] mine rx have "arrives rt (tx_id tx) a (t_heard w ?t) (t_chunks t') s'"
          using half Some a by (simp add: mine_def)
        with a arrives_prefix show ?thesis by blast
      qed
      with inv Some half since heard show ?thesis by (simp add: t_fed_def w')
    qed
  next
    assume "\<exists>i tx. t_half ?t = None \<and> t_pc ?t = Opening (Numbered i) \<and> open_insert rt i (l_ses w) = (s', tx)
      \<and> t' = ?t\<lparr>t_pc := Opening (Announcing tx), t_half := Some tx, t_since := length (l_heard w)\<rparr>"
    then obtain i tx where none: "t_half ?t = None" and ins: "open_insert rt i (l_ses w) = (s', tx)"
      and t': "t' = ?t\<lparr>t_pc := Opening (Announcing tx), t_half := Some tx, t_since := length (l_heard w)\<rparr>" by blast
    have "chan_laws (inch rt)" using laws by (simp add: runtime_laws_def)
    from open_insert_new [OF this ins] have "arrives rt (tx_id tx) (tx_addr tx) [] [] s'"
      by (simp add: arrives_def)
    moreover have "t_chunks ?t = []" using inv none by (simp add: t_fed_def)
    ultimately show ?thesis by (simp add: t_fed_def t' w' t_heard_def)
  qed
qed

lemma t_fed_other:
  assumes laws: "runtime_laws rt" and run: "link_run rt k n w" and moved: "link_do rt k x w = Some w'"
    and i: "i < length (l_tunnels w)" "\<nexists>u. x = Turn i u" and inv: "t_fed rt w (l_tunnels w ! i)"
  shows "t_fed rt w' (l_tunnels w ! i)"
proof -
  let ?t = "l_tunnels w ! i"
  note ok = link_run_ok [OF laws run]
  obtain ls where tr: "mux_trace rt (world_of w) ls (world_of w')" and heard: "l_heard w' = l_heard w @ frames_in ls"
    and quiet: "\<And>a. t_addr ?t = Some a \<Longrightarrow> taken_at a ls = [] \<and> Unheard a \<notin> set ls"
    using link_do_other(3) [OF laws ok moved i] by blast
  obtain m ks where mux: "mux_run rt m False ks (world_of w)" using ok by (auto simp: link_ok_def)
  have ses: "ses (world_of w) = l_ses w" "ses (world_of w') = l_ses w'" by (simp_all add: world_of_def)
  note on = arrives_trace [OF laws mux _ tr, unfolded ses]
  show ?thesis
  proof (cases "t_half ?t")
    case None
    with inv show ?thesis by (simp add: t_fed_def)
  next
    case (Some tx)
    then have since: "t_since ?t \<le> length (l_heard w)" and a: "t_addr ?t = Some (tx_addr tx)"
      using inv by (simp_all add: t_fed_def t_addr_def)
    then have more: "t_heard w' ?t = t_heard w ?t @ frames_in ls" by (simp add: t_heard_def heard)
    have "arrives rt (tx_id tx) (tx_addr tx) (t_heard w' ?t) (t_chunks ?t) (l_ses w')"
      if "tx_id tx \<noteq> 0" "arrives rt (tx_id tx) (tx_addr tx) (t_heard w ?t) (t_chunks ?t) (l_ses w)"
      using on [OF that] quiet [OF a] by (simp add: more)
    moreover have "prefix (t_chunks ?t) (bodies (tx_id tx) (t_heard w' ?t))"
      if "prefix (t_chunks ?t) (bodies (tx_id tx) (t_heard w ?t))"
      using that by (simp add: more)
    ultimately show ?thesis using inv Some since by (simp add: t_fed_def heard)
  qed
qed

interpretation fed: tunnel_invariant "\<lambda>rt k. t_fed rt"
proof unfold_locales
  show "t_fed rt w (tunnel_new sk)" for rt :: "('q, 'b, 'o) runtime" and w sk
    by (simp add: t_fed_def tunnel_new_def)
qed (rule t_fed_own t_fed_other; assumption)+

section \<open>What a tunnel leaves behind\<close>

text \<open>A tunnel past \<open>close\<close>, or that never got to announce its stream.\<close>

definition t_closed :: "tunnel \<Rightarrow> bool" where
  "t_closed t \<longleftrightarrow> (\<exists>f. t_pc t = ClosingSend f) \<or> t_pc t = Returned (Inr ())"

definition t_owns :: "('q, 'b, 'o) link \<Rightarrow> tunnel \<Rightarrow> bool" where
  "t_owns w t \<longleftrightarrow> (\<forall>tx. t_half t = Some tx \<longrightarrow>
     (\<forall>j. (j, tx_addr tx) \<in> set (streams (l_ses w)) \<longrightarrow> j = tx_id tx \<and> \<not> t_closed t))"

lemma drop_rx_streams [simp]: "streams (drop_rx rt a s) = streams s"
  by (simp add: drop_rx_def)

lemma session_send_streams: "session_send rt f s = (s', r) \<Longrightarrow> streams s' = streams s"
  by (auto simp: session_send_def split: sending.splits)

lemma turn_closes:
  assumes "tunnel_turn rt k n u s t = Some (s', t')" and "t_wf t" and "t_half t = Some tx" and "t_closed t'"
  shows "t_closed t \<or> streams s' = AList.delete (tx_id tx) (streams s)"
  using assms(1)
proof (cases rule: tunnel_turn_cases)
  case (opens p)
  with assms(2-4) show ?thesis
    by (auto simp: open_turn_def open_announce_def t_closed_def t_wf_def dest: session_send_streams
        split: opener.splits prod.splits poll.splits sum.splits option.splits)
next
  case (close tx')
  with assms(3) show ?thesis by (auto simp: close_turn_def tx_close_def)
qed (use assms(2-4) in \<open>auto simp: turn_defs t_closed_def t_wf_def Let_def
    split: prod.splits poll.splits sum.splits option.splits progress.splits if_splits\<close>)

lemma t_owns_trace:
  assumes laws: "runtime_laws rt" and ok: "link_ok rt w" and tr: "mux_trace rt (world_of w) ls (world_of w')"
    and placed: "t_placed rt (l_ses w) t" and inv: "t_owns w t" and half: "t_half t' = t_half t"
    and closed: "\<And>tx. t_half t = Some tx \<Longrightarrow> t_closed t' \<Longrightarrow>
      t_closed t \<or> streams (l_ses w') = AList.delete (tx_id tx) (streams (l_ses w))"
  shows "t_owns w' t'"
  unfolding t_owns_def
proof (intro allI impI)
  fix tx j
  assume tx: "t_half t' = Some tx" and entry: "(j, tx_addr tx) \<in> set (streams (l_ses w'))"
  have "chan_laws (inch rt)" using laws by (simp add: runtime_laws_def)
  from still_trace [OF this tr, of "tx_addr tx"] entry placed tx half
  have old: "(j, tx_addr tx) \<in> set (streams (l_ses w))" by (simp add: world_of_def t_placed_def)
  then have "j = tx_id tx" "\<not> t_closed t" using inv tx half by (auto simp: t_owns_def)
  with closed [of tx] tx half entry show "j = tx_id tx \<and> \<not> t_closed t'" by (auto simp: set_alist_delete)
qed

lemma t_owns_own:
  assumes laws: "runtime_laws rt" and run: "link_run rt k n w" and j: "j < length (l_tunnels w)"
    and turn: "tunnel_turn rt k (length (l_heard w)) u (l_ses w) (l_tunnels w ! j) = Some (s', t')"
    and w': "w' = w\<lparr>l_ses := s', l_tunnels := (l_tunnels w)[j := t']\<rparr>" and inv: "t_owns w (l_tunnels w ! j)"
  shows "t_owns w' t'"
proof -
  let ?t = "l_tunnels w ! j"
  note ok = link_run_ok [OF laws run]
  note placed = link_okD [OF ok j]
  have moved: "link_do rt k (Turn j u) w = Some w'" using turn j by (simp add: link_do_def w')
  obtain ls where tr: "mux_trace rt (world_of w) ls (world_of w')"
    using link_turn_trace [OF moved placed(1)] by blast
  from turn_half [OF turn placed(2)] show ?thesis
  proof
    assume "t_half t' = t_half ?t"
    then show ?thesis
      using turn_closes [OF turn placed(2)] by (intro t_owns_trace [OF laws ok tr placed(1) inv]) (simp_all add: w')
  next
    assume "\<exists>i tx. t_half ?t = None \<and> t_pc ?t = Opening (Numbered i) \<and> open_insert rt i (l_ses w) = (s', tx)
      \<and> t' = ?t\<lparr>t_pc := Opening (Announcing tx), t_half := Some tx, t_since := length (l_heard w)\<rparr>"
    then obtain i tx where ins: "open_insert rt i (l_ses w) = (s', tx)"
      and t': "t_half t' = Some tx" "t_pc t' = Opening (Announcing tx)" by auto
    have "chan_laws (inch rt)" using laws by (simp add: runtime_laws_def)
    from open_insert_new(1) [OF this ins] ins
    have "tx = \<lparr>tx_id = i, tx_addr = length (shared (l_ses w))\<rparr>"
      "streams s' = (i, length (shared (l_ses w))) # AList.delete i (streams (l_ses w))"
      by (auto simp: open_insert_def insert_stream_def Let_def)
    with link_ok_table [OF laws ok] t' show ?thesis
      by (auto simp: t_owns_def w' t_closed_def table_ok_def set_alist_delete)
  qed
qed

lemma t_owns_other:
  assumes laws: "runtime_laws rt" and run: "link_run rt k n w" and moved: "link_do rt k x w = Some w'"
    and i: "i < length (l_tunnels w)" "\<nexists>u. x = Turn i u" and inv: "t_owns w (l_tunnels w ! i)"
  shows "t_owns w' (l_tunnels w ! i)"
proof -
  note ok = link_run_ok [OF laws run]
  obtain ls where tr: "mux_trace rt (world_of w) ls (world_of w')"
    using link_do_other(3) [OF laws ok moved i] by blast
  show ?thesis by (rule t_owns_trace [OF laws ok tr link_okD(1) [OF ok i(1)] inv]) simp_all
qed

interpretation owns: tunnel_invariant "\<lambda>rt k. t_owns"
proof unfold_locales
  show "t_owns w (tunnel_new sk)" for w :: "('q, 'b, 'o) link" and sk
    by (simp add: t_owns_def tunnel_new_def)
qed (rule t_owns_own t_owns_other; assumption)+

section \<open>All of it\<close>

lemma tunnel_facts:
  assumes "runtime_laws rt" and "link_run rt k n w" and "t \<in> set (l_tunnels w)" and "t_half t = Some tx"
  shows "length (t_head t) = HEAD_LEN" and "take 5 (t_head t) = MAGIC_CLIENT @ [VERSION]" and "bridge_key (t_head t) = k"
    and "prefix (t_head t @ t_read t) (payload_stream (taken (inner (t_ws t))))"
    and "prefix (t_payload t @ t_owed t) (t_head t @ t_read t)"
    and "t_flowing t \<Longrightarrow> t_payload t @ t_owed t = t_head t @ t_read t"
    and "\<forall>f \<in> set (t_queued t). data_frame (tx_id tx) f"
proof -
  have "t_wf t" using link_run_ok [OF assms(1,2)] assms(3) by (auto simp: link_ok_def t_placed_def)
  then have pc: "t_pc t \<noteq> Preamble" "t_pc t \<noteq> Routing" "\<not> t_stillborn t"
    using assms(4) by (auto simp: t_wf_def t_stillborn_def)
  have reads: "t_reads k t" by (rule reads.run [OF assms(1-3)])
  then show "length (t_head t) = HEAD_LEN" "take 5 (t_head t) = MAGIC_CLIENT @ [VERSION]" "bridge_key (t_head t) = k"
    "prefix (t_head t @ t_read t) (payload_stream (taken (inner (t_ws t))))"
    using pc by (auto simp: t_reads_def dest: read_inv_prefix split: if_splits)
  have "t_forwards t" by (rule forwards.run [OF assms(1-3)])
  then show "prefix (t_payload t @ t_owed t) (t_head t @ t_read t)"
    "t_flowing t \<Longrightarrow> t_payload t @ t_owed t = t_head t @ t_read t" "\<forall>f \<in> set (t_queued t). data_frame (tx_id tx) f"
    using assms(4) by (simp_all add: t_forwards_def t_in_order_def t_frames_def)
qed

lemma link_do_trace:
  assumes "runtime_laws rt" and "link_ok rt w" and "link_do rt k x w = Some w'"
  shows "\<exists>ls. mux_trace rt (world_of w) ls (world_of w') \<and> l_heard w' = l_heard w @ frames_in ls"
proof (cases "\<exists>j u. x = Turn j u")
  case True
  then obtain j u where x: "link_do rt k (Turn j u) w = Some w'" using assms(3) by blast
  then have j: "j < length (l_tunnels w)" and "l_heard w' = l_heard w" by (auto elim: link_turnE)
  obtain ls where "mux_trace rt (world_of w) ls (world_of w')" "mine (l_tunnels w ! j) (l_tunnels w' ! j) ls"
    using link_turn_trace [OF x link_okD(1) [OF assms(2) j]] .
  with \<open>l_heard w' = l_heard w\<close> show ?thesis by (auto simp: mine_def)
next
  case False
  from link_act_trace [OF assms(3) this] show ?thesis by blast
qed

text \<open>A run of a link is a run of its session.\<close>

lemma link_run_session:
  assumes "runtime_laws rt" and "link_run rt k n w"
  shows "\<exists>ls. mux_run rt n False ls (world_of w) \<and> frames_in ls = l_heard w"
  using assms(2)
proof induction
  case (begun w)
  then obtain s where "start rt n False = Some s" "w = \<lparr>l_ses = s, l_reader = Reading, l_tunnels = [], l_heard = [], l_wire = []\<rparr>"
    by (auto simp: link_start_def)
  with mux_run.started [of rt n False s] show ?case by (intro exI [of _ "[]"]) (simp add: world_of_def)
next
  case (acted w x w')
  then obtain ls where ls: "mux_run rt n False ls (world_of w)" "frames_in ls = l_heard w" by blast
  obtain ks where "mux_trace rt (world_of w) ks (world_of w')" "l_heard w' = l_heard w @ frames_in ks"
    using link_do_trace [OF assms(1) link_run_ok [OF assms(1) acted(1)] acted(2)] by blast
  with mux_trace_run [OF this(1) ls(1)] ls(2) show ?case by (intro exI [of _ "ls @ ks"]) simp
qed

lemma link_run_streams:
  assumes "runtime_laws rt" and "link_run rt k n w"
  shows "stream_count (l_ses w) \<le> max n 1"
proof -
  obtain ls where "mux_run rt n False ls (world_of w)" using link_run_session [OF assms] by blast
  from mux_run_facts(2) [OF assms(1) this] show ?thesis
    by (simp add: mux_inv_def slots_def stream_count_def world_of_def)
qed

end
