(* ===== verification/Proxy.thy ===== *)
theory Proxy
  imports Registry Clients Link_Flow
begin

text \<open>
  The whole proxy as \<open>run_edge\<close> runs it: one routing table, one budget, two tables of slots, and
  any number of connections, each in a task of its own. The parts are those of the other theories:
  the registry of bridges, the client connections, one link per bridge that passed the handshake,
  and the tunnels. What those leave open is settled here: a link starts with the handshake of its
  connection, a link that is displaced is shut down, a connection leaves when the reader of its
  link is gone, a tunnel is spawned by a request, is routed by the table, holds its client's slot,
  and moves on the link it was routed to.
\<close>

section \<open>State\<close>

text \<open>
  The links are indexed like the bridge connections and paired with the key the handshake proved.
  A tunnel task that has not been routed waits beside them, with the client connection that owns
  it; a routed one is found by the index of its link and its index there.
\<close>

record ('q, 'b, 'o, 'ip) proxy =
  p_reg :: "('q, 'ip) registry"
  p_clients :: "'ip clients"
  p_links :: "nat \<rightharpoonup> key \<times> ('q, 'b, 'o) link"
  p_waiting :: "(nat \<times> tunnel) list"
  p_spliced :: "(nat \<times> nat \<times> nat) list"

definition proxy_start :: "('q, 'b, 'o) runtime \<Rightarrow> limits \<Rightarrow> ('q, 'b, 'o, 'ip) proxy option" where
  "proxy_start rt lim =
     (if max_bridges lim \<le> max_permits (sem rt)
      then Some \<lparr>p_reg = registry_start (sem rt) lim, p_clients = \<lparr>cls = [], per_client = Map.empty\<rparr>,
                 p_links = Map.empty, p_waiting = [], p_spliced = []\<rparr>
      else None)"

section \<open>Accepting\<close>

text \<open>
  A connection of \<open>run_edge\<close>: the first byte decides between TLS and a bridge, and what is neither
  is dropped. \<open>first\<close> and \<open>preamble\<close> are what arrived before the deadlines.
\<close>

definition proxy_accept :: "('q, 'b, 'o) runtime \<Rightarrow> limits \<Rightarrow> 'ip \<Rightarrow> u8 option \<Rightarrow> bytes result option
    \<Rightarrow> ('q, 'b, 'o, 'ip) proxy \<Rightarrow> ('q, 'b, 'o, 'ip) proxy" where
  "proxy_accept rt lim ip first preamble p =
     (case run_edge_route first of
        ToNobody \<Rightarrow> p
      | ToEdge \<Rightarrow> p\<lparr>p_clients := client_accept lim ip (p_clients p)\<rparr>
      | ToServe \<Rightarrow>
          (case serve preamble of
             Adopt head \<Rightarrow> p\<lparr>p_reg := bridge_admit (sem rt) ip (p_reg p)\<rparr>
           | _ \<Rightarrow> p))"

section \<open>Bridges\<close>

text \<open>The end of the handshake: with a key, \<open>MuxSession::start\<close> makes the link.\<close>

definition proxy_handshake :: "('q, 'b, 'o) runtime \<Rightarrow> limits \<Rightarrow> nat \<Rightarrow> key option
    \<Rightarrow> ('q, 'b, 'o, 'ip) proxy \<Rightarrow> ('q, 'b, 'o, 'ip) proxy option" where
  "proxy_handshake rt lim i res p =
     (case res of
        None \<Rightarrow> Some (p\<lparr>p_reg := bridge_handshake i None (p_reg p)\<rparr>)
      | Some k \<Rightarrow>
          map_option (\<lambda>w. p\<lparr>p_reg := bridge_handshake i (Some k) (p_reg p), p_links := (p_links p)(i \<mapsto> (k, w))\<rparr>)
            (link_start rt (max_streams_per_bridge lim)))"

text \<open>\<open>previous.shutdown()\<close>.\<close>

definition proxy_displace :: "('q, 'b, 'o) runtime \<Rightarrow> nat \<Rightarrow> key \<Rightarrow> nat
    \<Rightarrow> ('q, 'b, 'o, 'ip) proxy \<Rightarrow> ('q, 'b, 'o, 'ip) proxy option" where
  "proxy_displace rt i k previous p =
     (case p_links p previous of
        None \<Rightarrow> None
      | Some (k', w) \<Rightarrow>
          map_option (\<lambda>w'. p\<lparr>p_reg := bridge_displace i k previous (p_reg p), p_links := (p_links p)(previous \<mapsto> (k', w'))\<rparr>)
            (link_do rt k' ShutDown w))"

text \<open>\<open>done.await\<close> resolves when the reader task is gone.\<close>

definition link_gone :: "('q, 'b, 'o, 'ip) proxy \<Rightarrow> nat \<Rightarrow> bool" where
  "link_gone p i = (case p_links p i of None \<Rightarrow> False | Some (k, w) \<Rightarrow> l_reader w = Gone)"

text \<open>Where a connection of \<open>serve_bridge\<close> goes next, on its own.\<close>

definition proxy_bridge :: "('q, 'b, 'o) runtime \<Rightarrow> limits \<Rightarrow> nat \<Rightarrow> ('q, 'b, 'o, 'ip) proxy \<Rightarrow> ('q, 'b, 'o, 'ip) proxy option" where
  "proxy_bridge rt lim i p =
     (if i < length (conns (p_reg p))
      then (case pc (conns (p_reg p) ! i) of
              Budgeted \<Rightarrow> Some (p\<lparr>p_reg := bridge_claim lim i (p_reg p)\<rparr>)
            | Linked k \<Rightarrow> Some (p\<lparr>p_reg := bridge_register i k (p_reg p)\<rparr>)
            | Displacing k previous \<Rightarrow> proxy_displace rt i k previous p
            | Up k \<Rightarrow> if link_gone p i then Some (p\<lparr>p_reg := bridge_done i k (p_reg p)\<rparr>) else None
            | Leaving \<Rightarrow> Some (p\<lparr>p_reg := bridge_release i (p_reg p)\<rparr>)
            | Reclaiming \<Rightarrow> Some (p\<lparr>p_reg := bridge_reclaim i (p_reg p)\<rparr>)
            | Unbudgeting \<Rightarrow> Some (p\<lparr>p_reg := bridge_unbudget (sem rt) i (p_reg p)\<rparr>)
            | _ \<Rightarrow> None)
      else None)"

text \<open>
  A turn of a task on link \<open>i\<close>: its reader, its writer, its tunnels. Connections to it and its
  shutdown come from elsewhere.
\<close>

fun own_act :: "act \<Rightarrow> bool" where
  "own_act (Connect sk) = False"
| "own_act ShutDown = False"
| "own_act _ = True"

definition proxy_link :: "('q, 'b, 'o) runtime \<Rightarrow> nat \<Rightarrow> act \<Rightarrow> ('q, 'b, 'o, 'ip) proxy \<Rightarrow> ('q, 'b, 'o, 'ip) proxy option" where
  "proxy_link rt i a p =
     (case p_links p i of
        None \<Rightarrow> None
      | Some (k, w) \<Rightarrow>
          if own_act a
          then map_option (\<lambda>w'. p\<lparr>p_links := (p_links p)(i \<mapsto> (k, w')),
                   p_reg := (if l_reader w' = Gone then set_conn i (\<lambda>c. c\<lparr>dead := True\<rparr>) (p_reg p) else p_reg p)\<rparr>)
                 (link_do rt k a w)
          else None)"

section \<open>Clients\<close>

text \<open>
  A request on client connection \<open>i\<close>. An upgrade spawns a tunnel task, whose WebSocket will run on
  the fresh socket \<open>sk\<close>.
\<close>

definition proxy_request :: "(string \<Rightarrow> bytes) \<Rightarrow> (bytes \<Rightarrow> string) \<Rightarrow> request \<Rightarrow> sock \<Rightarrow> nat
    \<Rightarrow> ('q, 'b, 'o, 'ip) proxy \<Rightarrow> ('q, 'b, 'o, 'ip) proxy option" where
  "proxy_request sha1 b64 req sk i p =
     (if i < length (cls (p_clients p)) \<and> taken sk = [] \<and> sent sk = []
      then (case cl_pc (cls (p_clients p) ! i) of
              Live True n \<Rightarrow>
                Some (p\<lparr>p_clients := client_request sha1 b64 req i n (p_clients p),
                        p_waiting := p_waiting p @ (if snd (handle sha1 b64 req) then [(i, tunnel_new sk)] else [])\<rparr>)
            | _ \<Rightarrow> None)
      else None)"

text \<open>The TLS handshake of client connection \<open>i\<close> ends.\<close>

definition proxy_tls :: "bool \<Rightarrow> nat \<Rightarrow> ('q, 'b, 'o, 'ip) proxy \<Rightarrow> ('q, 'b, 'o, 'ip) proxy option" where
  "proxy_tls ok i p =
     (if i < length (cls (p_clients p)) \<and> cl_pc (cls (p_clients p) ! i) = Accepting
      then Some (p\<lparr>p_clients := client_tls ok i (p_clients p)\<rparr>)
      else None)"

text \<open>\<open>Edge::serve\<close> returns; the slot of a connection without owners is dropped.\<close>

definition proxy_client :: "nat \<Rightarrow> ('q, 'b, 'o, 'ip) proxy \<Rightarrow> ('q, 'b, 'o, 'ip) proxy option" where
  "proxy_client i p =
     (if i < length (cls (p_clients p))
      then (case cl_pc (cls (p_clients p) ! i) of
              Accepting \<Rightarrow> None
            | Live True n \<Rightarrow> Some (p\<lparr>p_clients := client_go i (owners False n) (p_clients p)\<rparr>)
            | Live False n \<Rightarrow> None
            | Releasing \<Rightarrow> Some (p\<lparr>p_clients := client_release i (p_clients p)\<rparr>)
            | Reclaimable \<Rightarrow> Some (p\<lparr>p_clients := client_reclaim i (p_clients p)\<rparr>)
            | Closed \<Rightarrow> None)
      else None)"

definition remove_at :: "nat \<Rightarrow> 'a list \<Rightarrow> 'a list" where
  "remove_at j xs = take j xs @ drop (Suc j) xs"

text \<open>
  A turn of a tunnel task that has not been routed: the preamble, with its deadline (a failed
  upgrade ends the task in the same way), and the lookup of the key.
\<close>

definition proxy_preamble :: "bool \<Rightarrow> nat \<Rightarrow> ('q, 'b, 'o, 'ip) proxy \<Rightarrow> ('q, 'b, 'o, 'ip) proxy option" where
  "proxy_preamble expired j p =
     (if j < length (p_waiting p)
      then (case p_waiting p ! j of (c, t) \<Rightarrow>
              if t_pc t = Preamble then Some (p\<lparr>p_waiting := (p_waiting p)[j := (c, preamble_turn expired t)]\<rparr>) else None)
      else None)"

definition proxy_route :: "nat \<Rightarrow> ('q, 'b, 'o, 'ip) proxy \<Rightarrow> ('q, 'b, 'o, 'ip) proxy option" where
  "proxy_route j p =
     (if j < length (p_waiting p)
      then (case p_waiting p ! j of (c, t) \<Rightarrow>
              if t_pc t = Routing
              then (case routes (p_reg p) (bridge_key (t_head t)) of
                      None \<Rightarrow> Some (p\<lparr>p_waiting := (p_waiting p)[j := (c, route_turn (bridge_key (t_head t)) False t)]\<rparr>)
                    | Some i \<Rightarrow>
                        (case p_links p i of
                           None \<Rightarrow> None
                         | Some (k, w) \<Rightarrow>
                             Some (p\<lparr>p_waiting := remove_at j (p_waiting p),
                                     p_links := (p_links p)(i \<mapsto> (k, w\<lparr>l_tunnels := l_tunnels w @ [route_turn k True t]\<rparr>)),
                                     p_spliced := p_spliced p @ [(c, i, length (l_tunnels w))]\<rparr>)))
              else None)
      else None)"

text \<open>The end of a tunnel task, which drops its share of the client's slot.\<close>

definition returned :: "tunnel \<Rightarrow> bool" where
  "returned t = (case t_pc t of Returned r \<Rightarrow> True | _ \<Rightarrow> False)"

definition drop_share :: "nat \<Rightarrow> 'ip clients \<Rightarrow> 'ip clients option" where
  "drop_share c cs =
     (if c < length (cls cs)
      then (case cl_pc (cls cs ! c) of Live serving (Suc n) \<Rightarrow> Some (client_go c (owners serving n) cs) | _ \<Rightarrow> None)
      else None)"

definition proxy_unrouted_ends :: "nat \<Rightarrow> ('q, 'b, 'o, 'ip) proxy \<Rightarrow> ('q, 'b, 'o, 'ip) proxy option" where
  "proxy_unrouted_ends j p =
     (if j < length (p_waiting p) \<and> returned (snd (p_waiting p ! j))
      then map_option (\<lambda>cs. p\<lparr>p_clients := cs, p_waiting := remove_at j (p_waiting p)\<rparr>)
             (drop_share (fst (p_waiting p ! j)) (p_clients p))
      else None)"

definition proxy_tunnel_ends :: "nat \<Rightarrow> ('q, 'b, 'o, 'ip) proxy \<Rightarrow> ('q, 'b, 'o, 'ip) proxy option" where
  "proxy_tunnel_ends j p =
     (if j < length (p_spliced p)
      then (case p_spliced p ! j of (c, i, m) \<Rightarrow>
              (case p_links p i of
                 None \<Rightarrow> None
               | Some (k, w) \<Rightarrow>
                   if m < length (l_tunnels w) \<and> returned (l_tunnels w ! m)
                   then map_option (\<lambda>cs. p\<lparr>p_clients := cs, p_spliced := remove_at j (p_spliced p)\<rparr>)
                          (drop_share c (p_clients p))
                   else None))
      else None)"

section \<open>All events\<close>

datatype 'ip event =
    Accept 'ip "u8 option" "bytes result option"
  | HandshakeEnds nat "key option" | BridgeMoves nat | LinkActs nat act
  | TlsEnds nat bool | Request nat request sock | ClientMoves nat
  | PreambleTurn nat bool | Route nat | UnroutedEnds nat | TunnelEnds nat

definition proxy_do :: "('q, 'b, 'o) runtime \<Rightarrow> limits \<Rightarrow> (string \<Rightarrow> bytes) \<Rightarrow> (bytes \<Rightarrow> string) \<Rightarrow> 'ip event
    \<Rightarrow> ('q, 'b, 'o, 'ip) proxy \<Rightarrow> ('q, 'b, 'o, 'ip) proxy option" where
  "proxy_do rt lim sha1 b64 e p =
     (case e of
        Accept ip first preamble \<Rightarrow> Some (proxy_accept rt lim ip first preamble p)
      | HandshakeEnds i res \<Rightarrow>
          if i < length (conns (p_reg p)) \<and> pc (conns (p_reg p) ! i) = Handshaking then proxy_handshake rt lim i res p else None
      | BridgeMoves i \<Rightarrow> proxy_bridge rt lim i p
      | LinkActs i a \<Rightarrow> proxy_link rt i a p
      | TlsEnds i ok \<Rightarrow> proxy_tls ok i p
      | Request i req sk \<Rightarrow> proxy_request sha1 b64 req sk i p
      | ClientMoves i \<Rightarrow> proxy_client i p
      | PreambleTurn j expired \<Rightarrow> proxy_preamble expired j p
      | Route j \<Rightarrow> proxy_route j p
      | UnroutedEnds j \<Rightarrow> proxy_unrouted_ends j p
      | TunnelEnds j \<Rightarrow> proxy_tunnel_ends j p)"

fun proxy_exec :: "('q, 'b, 'o) runtime \<Rightarrow> limits \<Rightarrow> (string \<Rightarrow> bytes) \<Rightarrow> (bytes \<Rightarrow> string) \<Rightarrow> 'ip event list
    \<Rightarrow> ('q, 'b, 'o, 'ip) proxy \<Rightarrow> ('q, 'b, 'o, 'ip) proxy option" where
  "proxy_exec rt lim sha1 b64 [] p = Some p"
| "proxy_exec rt lim sha1 b64 (e # es) p =
     (case proxy_do rt lim sha1 b64 e p of None \<Rightarrow> None | Some p' \<Rightarrow> proxy_exec rt lim sha1 b64 es p')"

inductive proxy_run :: "('q, 'b, 'o) runtime \<Rightarrow> limits \<Rightarrow> (string \<Rightarrow> bytes) \<Rightarrow> (bytes \<Rightarrow> string)
    \<Rightarrow> ('q, 'b, 'o, 'ip) proxy \<Rightarrow> bool" for rt lim sha1 b64 where
  begins: "proxy_start rt lim = Some p \<Longrightarrow> proxy_run rt lim sha1 b64 p"
| does: "proxy_run rt lim sha1 b64 p \<Longrightarrow> proxy_do rt lim sha1 b64 e p = Some p' \<Longrightarrow> proxy_run rt lim sha1 b64 p'"

lemma proxy_exec_run:
  "proxy_run rt lim sha1 b64 p \<Longrightarrow> proxy_exec rt lim sha1 b64 es p = Some p' \<Longrightarrow> proxy_run rt lim sha1 b64 p'"
  by (induction es arbitrary: p) (auto split: option.splits intro: proxy_run.does)

end
