(* ===== verification/Proxy_Inv.thy ===== *)
theory Proxy_Inv
  imports Proxy
begin

text \<open>
  The parts of a running proxy do what their own theories say: the registry makes steps of
  \<open>bridge_step\<close>, the clients steps of \<open>client_step\<close>, and every link is in a state of \<open>link_run\<close> under
  the key its connection proved.
\<close>

section \<open>Registry and links\<close>

definition keyed :: "key \<Rightarrow> bridge_pc \<Rightarrow> bool" where
  "keyed k q \<longleftrightarrow> q = Linked k \<or> registered k q"

definition early :: "bridge_pc \<Rightarrow> bool" where
  "early q \<longleftrightarrow> q = Budgeted \<or> q = Handshaking"

text \<open>
  A connection between its handshake and its way out has a link under its key; before the
  handshake it has none; and it counts as dead exactly when the reader of its link is gone.
\<close>

definition linked :: "('q, 'b, 'o, 'ip) proxy \<Rightarrow> bool" where
  "linked p \<longleftrightarrow>
     (\<forall>i \<ge> length (conns (p_reg p)). p_links p i = None)
     \<and> (\<forall>i < length (conns (p_reg p)).
          (\<forall>k. keyed k (pc (conns (p_reg p) ! i)) \<longrightarrow> (\<exists>w. p_links p i = Some (k, w)))
          \<and> (early (pc (conns (p_reg p) ! i)) \<longrightarrow> p_links p i = None)
          \<and> dead (conns (p_reg p) ! i) = link_gone p i)"

lemma linkedD:
  assumes "linked p"
  shows "p_links p i = Some y \<Longrightarrow> i < length (conns (p_reg p))"
    and "i < length (conns (p_reg p)) \<Longrightarrow> keyed k (pc (conns (p_reg p) ! i)) \<Longrightarrow> \<exists>w. p_links p i = Some (k, w)"
    and "i < length (conns (p_reg p)) \<Longrightarrow> early (pc (conns (p_reg p) ! i)) \<Longrightarrow> p_links p i = None"
    and "i < length (conns (p_reg p)) \<Longrightarrow> dead (conns (p_reg p) ! i) = link_gone p i"
  using assms unfolding linked_def by (metis not_le option.distinct(1))+

lemma linked_cong:
  "linked p \<Longrightarrow> p_reg p' = p_reg p \<Longrightarrow> p_links p' = p_links p \<Longrightarrow> linked p'"
  by (simp add: linked_def link_gone_def)

text \<open>A connection moves on without touching its link.\<close>

lemma linked_go:
  assumes "linked p" and "i < length (conns (p_reg p))" and "conns r = (conns (p_reg p))[i := (conns (p_reg p) ! i)\<lparr>pc := q\<rparr>]"
    and "\<And>k. keyed k q \<Longrightarrow> keyed k (pc (conns (p_reg p) ! i))" and "early q \<Longrightarrow> early (pc (conns (p_reg p) ! i))"
  shows "linked (p\<lparr>p_reg := r\<rparr>)"
proof -
  have "pc (conns r ! j) = (if j = i then q else pc (conns (p_reg p) ! j))" "dead (conns r ! j) = dead (conns (p_reg p) ! j)"
    if "j < length (conns (p_reg p))" for j
    using that assms(2) by (cases "j = i"; simp add: assms(3))+
  with assms show ?thesis by (simp add: linked_def link_gone_def)
qed

lemma linked_admit: "linked p \<Longrightarrow> linked (p\<lparr>p_reg := bridge_admit sm ip (p_reg p)\<rparr>)"
  by (auto simp: linked_def bridge_admit_def link_gone_def nth_append keyed_def registered_def less_Suc_eq split: acquired.splits)

lemmas keyed_defs = keyed_def registered_def early_def

lemma linked_handshake:
  assumes inv: "linked p" and run: "proxy_handshake rt lim i res p = Some p'"
    and i: "i < length (conns (p_reg p))" and pc: "pc (conns (p_reg p) ! i) = Handshaking"
  shows "linked p'"
proof (cases res)
  case None
  with run have p': "p' = p\<lparr>p_reg := bridge_handshake i None (p_reg p)\<rparr>" by (simp add: proxy_handshake_def)
  show ?thesis unfolding p'
    by (rule linked_go [OF inv i, where q = Leaving]) (auto simp: bridge_handshake_def set_conn_def keyed_defs)
next
  case (Some k)
  with run obtain w where w: "link_start rt (max_streams_per_bridge lim) = Some w"
    and p': "p' = p\<lparr>p_reg := bridge_handshake i (Some k) (p_reg p), p_links := (p_links p)(i \<mapsto> (k, w))\<rparr>"
    by (auto simp: proxy_handshake_def)
  have "l_reader w = Reading" using w by (auto simp: link_start_def)
  moreover have "\<not> dead (conns (p_reg p) ! i)"
    using linkedD(3,4) [OF inv i] pc by (simp add: link_gone_def early_def)
  ultimately show ?thesis
    using inv i by (auto simp: p' linked_def link_gone_def bridge_handshake_def set_conn_def nth_list_update keyed_defs)
qed

text \<open>The reader of a link does not come back.\<close>

lemma reader_gone:
  assumes "link_do rt k x w = Some w'" and "l_reader w = Gone"
  shows "l_reader w' = Gone"
  using assms by (auto simp: link_do_def split: act.splits if_splits)

lemma proxy_linkE:
  assumes "proxy_link rt i a p = Some p'"
  obtains k w w' where "p_links p i = Some (k, w)" and "link_do rt k a w = Some w'"
    and "p' = p\<lparr>p_links := (p_links p)(i \<mapsto> (k, w')),
      p_reg := (if l_reader w' = Gone then set_conn i (\<lambda>c. c\<lparr>dead := True\<rparr>) (p_reg p) else p_reg p)\<rparr>"
  using assms by (auto simp: proxy_link_def split: option.splits if_splits)

lemma linked_link:
  assumes inv: "linked p" and run: "proxy_link rt i a p = Some p'"
  shows "linked p'"
proof -
  obtain k w w' where l: "p_links p i = Some (k, w)" and w': "link_do rt k a w = Some w'"
    and p': "p' = p\<lparr>p_links := (p_links p)(i \<mapsto> (k, w')),
      p_reg := (if l_reader w' = Gone then set_conn i (\<lambda>c. c\<lparr>dead := True\<rparr>) (p_reg p) else p_reg p)\<rparr>"
    using run by (rule proxy_linkE)
  have i: "i < length (conns (p_reg p))" by (rule linkedD(1) [OF inv l])
  have "dead (conns (p_reg p) ! i) = (l_reader w = Gone)" using linkedD(4) [OF inv i] l by (simp add: link_gone_def)
  with inv i l reader_gone [OF w'] show ?thesis
    by (auto simp: p' linked_def link_gone_def set_conn_def nth_list_update)
qed

lemma proxy_displaceE:
  assumes "proxy_displace rt i k previous p = Some p'"
  obtains k' w w' where "p_links p previous = Some (k', w)" and "link_do rt k' ShutDown w = Some w'"
    and "p' = p\<lparr>p_reg := bridge_displace i k previous (p_reg p), p_links := (p_links p)(previous \<mapsto> (k', w'))\<rparr>"
  using assms by (auto simp: proxy_displace_def split: option.splits)

lemma linked_displace:
  assumes inv: "linked p" and run: "proxy_displace rt i k previous p = Some p'" and i: "i < length (conns (p_reg p))"
    and pc: "pc (conns (p_reg p) ! i) = Displacing k previous"
  shows "linked p'"
proof -
  obtain k' w w' where l: "p_links p previous = Some (k', w)" and "link_do rt k' ShutDown w = Some w'"
    and p': "p' = p\<lparr>p_reg := bridge_displace i k previous (p_reg p), p_links := (p_links p)(previous \<mapsto> (k', w'))\<rparr>"
    using run by (rule proxy_displaceE)
  then have "l_reader w' = Gone" by (auto simp: link_do_def)
  moreover have "previous < length (conns (p_reg p))" by (rule linkedD(1) [OF inv l])
  ultimately show ?thesis
    using inv i l pc by (auto simp: p' linked_def link_gone_def bridge_displace_def set_conn_def nth_list_update keyed_defs split: if_splits)
qed

lemma linked_bridge:
  assumes inv: "linked p" and run: "proxy_bridge rt lim i p = Some p'"
  shows "linked p'"
proof -
  have i: "i < length (conns (p_reg p))" using run by (simp add: proxy_bridge_def split: if_splits)
  note go = linked_go [OF inv i]
  show ?thesis
  proof (cases "pc (conns (p_reg p) ! i)")
    case (Displacing k previous)
    with run i linked_displace [OF inv _ i] show ?thesis by (simp add: proxy_bridge_def)
  next
    case Budgeted
    with run i show ?thesis
      by (auto simp: proxy_bridge_def bridge_claim_def set_conn_def keyed_defs split: prod.splits if_splits intro!: go)
  next
    case (Linked k)
    with run i show ?thesis
      by (auto simp: proxy_bridge_def bridge_register_def set_conn_def keyed_defs split: option.splits intro!: go)
  next
    case (Up k)
    with run i show ?thesis
      by (auto simp: proxy_bridge_def bridge_done_def set_conn_def keyed_defs split: if_splits intro!: go)
  qed (use run i in \<open>auto simp: proxy_bridge_def bridge_release_def bridge_reclaim_def bridge_unbudget_def set_conn_def
      keyed_defs intro!: go\<close>)
qed

lemma proxy_routeE:
  assumes "proxy_route j p = Some p'"
  obtains (unknown) c t where "j < length (p_waiting p)" "p_waiting p ! j = (c, t)" "t_pc t = Routing"
      "routes (p_reg p) (bridge_key (t_head t)) = None"
      "p' = p\<lparr>p_waiting := (p_waiting p)[j := (c, route_turn (bridge_key (t_head t)) False t)]\<rparr>"
  | (found) c t i k w where "j < length (p_waiting p)" "p_waiting p ! j = (c, t)" "t_pc t = Routing"
      "routes (p_reg p) (bridge_key (t_head t)) = Some i" "p_links p i = Some (k, w)"
      "p' = p\<lparr>p_waiting := remove_at j (p_waiting p),
         p_links := (p_links p)(i \<mapsto> (k, w\<lparr>l_tunnels := l_tunnels w @ [route_turn k True t]\<rparr>)),
         p_spliced := p_spliced p @ [(c, i, length (l_tunnels w))]\<rparr>"
  using assms by (auto simp: proxy_route_def split: if_splits prod.splits option.splits)

lemma linked_update:
  assumes "linked p" and "p_links p i = Some (k, w)" and "l_reader w' = l_reader w"
    and "p_reg p' = p_reg p" and "p_links p' = (p_links p)(i \<mapsto> (k, w'))"
  shows "linked p'"
proof -
  have "link_gone p' j = link_gone p j" "(p_links p' j = None) = (p_links p j = None)"
    "(\<exists>v. p_links p' j = Some (l, v)) = (\<exists>v. p_links p j = Some (l, v))" for j l
    using assms(2,3,5) by (auto simp: link_gone_def)
  with assms(1,4) show ?thesis by (simp add: linked_def)
qed

lemma linked_route:
  assumes inv: "linked p" and "proxy_route j p = Some p'"
  shows "linked p'"
  using assms(2)
proof (cases rule: proxy_routeE)
  case unknown
  then show ?thesis by (auto intro: linked_cong [OF inv])
next
  case (found c t i k w)
  show ?thesis by (rule linked_update [OF inv found(5)]) (simp_all add: found(6))
qed

lemma linked_do:
  assumes inv: "linked p" and run: "proxy_do rt lim sha1 b64 e p = Some p'"
  shows "linked p'"
proof (cases e)
  case (Accept ip first preamble)
  with run inv linked_admit [OF inv] show ?thesis
    by (auto simp: proxy_do_def proxy_accept_def intro: linked_cong split: first_route.splits served.splits)
next
  case (HandshakeEnds i res)
  with run linked_handshake [OF inv] show ?thesis by (auto simp: proxy_do_def split: if_splits)
qed (use run linked_bridge [OF inv] linked_link [OF inv] linked_route [OF inv] in
    \<open>auto simp: proxy_do_def proxy_request_def proxy_tls_def proxy_client_def proxy_preamble_def proxy_unrouted_ends_def proxy_tunnel_ends_def
      intro: linked_cong [OF inv] split: if_splits prod.splits option.splits client_pc.splits bool.splits\<close>)

lemma proxy_run_linked: "proxy_run rt lim sha1 b64 p \<Longrightarrow> linked p"
proof (induction rule: proxy_run.induct)
  case (begins p)
  then show ?case
    by (auto simp: proxy_start_def registry_start_def linked_def split: if_splits)
next
  case (does p e p')
  then show ?case by (blast intro: linked_do)
qed

section \<open>The parts\<close>

text \<open>
  A part of the proxy: a view of its state that starts in a state of its own runs and that no
  event takes out of them.
\<close>

locale part =
  fixes rt :: "('q, 'b, 'o) runtime" and lim :: limits and sha1 :: "string \<Rightarrow> bytes" and b64 :: "bytes \<Rightarrow> string"
    and view :: "('q, 'b, 'o, 'ip) proxy \<Rightarrow> 's" and in_run :: "'s \<Rightarrow> bool"
  assumes starts: "proxy_start rt lim = Some p \<Longrightarrow> in_run (view p)"
    and moves: "linked p \<Longrightarrow> in_run (view p) \<Longrightarrow> proxy_do rt lim sha1 b64 e p = Some p' \<Longrightarrow> in_run (view p')"
begin

lemma run: "proxy_run rt lim sha1 b64 p \<Longrightarrow> in_run (view p)"
  by (induction rule: proxy_run.induct) (blast intro: starts, blast intro: moves proxy_run_linked)

end

text \<open>What an event does to the registry is a step of \<open>serve_bridge\<close>, or nothing.\<close>

lemma displaced_alike:
  "proxy_displace rt i k previous p = Some p' \<Longrightarrow> p_reg p' = bridge_displace i k previous (p_reg p)"
  by (auto elim: proxy_displaceE)

lemma bridge_moves:
  assumes inv: "linked p" and run: "proxy_bridge rt lim i p = Some p'"
  shows "bridge_step (sem rt) lim (p_reg p) (p_reg p')"
proof -
  have i: "i < length (conns (p_reg p))" using run by (simp add: proxy_bridge_def split: if_splits)
  then have at: "at (p_reg p) i (pc (conns (p_reg p) ! i))" by (simp add: at_def)
  note steps = bridge_step.intros and defs = proxy_bridge_def
  show ?thesis
  proof (cases "pc (conns (p_reg p) ! i)")
    case (Displacing k previous)
    with run i at displaced_alike [of rt i k previous p p'] show ?thesis by (simp add: defs steps)
  next
    case (Up k)
    with run i at linkedD(4) [OF inv i] show ?thesis by (auto simp: defs steps split: if_splits)
  qed (use run i at in \<open>auto simp: defs steps\<close>)
qed

lemma registry_steps:
  assumes inv: "linked p" and run: "proxy_do rt lim sha1 b64 e p = Some p'"
  shows "p_reg p' = p_reg p \<or> bridge_step (sem rt) lim (p_reg p) (p_reg p')"
proof (cases e)
  case (Accept ip first preamble)
  with run show ?thesis
    by (auto simp: proxy_do_def proxy_accept_def intro: bridge_step.admit split: first_route.splits served.splits)
next
  case (HandshakeEnds i res)
  with run have "at (p_reg p) i Handshaking" "p_reg p' = bridge_handshake i res (p_reg p)"
    by (auto simp: proxy_do_def proxy_handshake_def at_def split: if_splits option.splits)
  then show ?thesis by (auto intro: bridge_step.handshake)
next
  case (BridgeMoves i)
  with run bridge_moves [OF inv] show ?thesis by (auto simp: proxy_do_def)
next
  case (LinkActs i a)
  with run linkedD(1) [OF inv, of i] bridge_step.dies [of i "p_reg p" "sem rt" lim] show ?thesis
    by (auto simp: proxy_do_def proxy_link_def split: option.splits if_splits)
next
  case (Route j)
  with run show ?thesis by (auto simp: proxy_do_def elim: proxy_routeE)
qed (use run in \<open>auto simp: proxy_do_def proxy_request_def proxy_tls_def proxy_client_def proxy_preamble_def proxy_unrouted_ends_def
    proxy_tunnel_ends_def split: if_splits prod.splits option.splits client_pc.splits bool.splits\<close>)

interpretation registry: part rt lim sha1 b64 p_reg "bridge_run (sem rt) lim" for rt lim sha1 b64
proof unfold_locales
  show "bridge_run (sem rt) lim (p_reg p)" if "proxy_start rt lim = Some p" for p
    using that by (auto simp: proxy_start_def intro: bridge_run.start split: if_splits)
  show "bridge_run (sem rt) lim (p_reg p')"
    if "linked p" "bridge_run (sem rt) lim (p_reg p)" "proxy_do rt lim sha1 b64 e p = Some p'" for p e p'
    using registry_steps [OF that(1,3)] that(2) by (auto intro: bridge_run.step)
qed

text \<open>What it does to the clients is a step of their connections, or nothing.\<close>

lemma drop_share_step: "drop_share c cs = Some cs' \<Longrightarrow> client_step lim cs cs'"
  by (auto simp: drop_share_def client_at_def intro: client_step.tunnel_ends split: if_splits client_pc.splits nat.splits)

lemma client_moves: "proxy_client i p = Some p' \<Longrightarrow> client_step lim (p_clients p) (p_clients p')"
  by (auto simp: proxy_client_def client_at_def client_step.served client_step.release client_step.reclaim
      split: if_splits client_pc.splits bool.splits)

lemma clients_steps:
  assumes run: "proxy_do rt lim sha1 b64 e p = Some p'"
  shows "p_clients p' = p_clients p \<or> client_step lim (p_clients p) (p_clients p')"
proof (cases e)
  case (Accept ip first preamble)
  with run show ?thesis
    by (auto simp: proxy_do_def proxy_accept_def intro: client_step.accepted split: first_route.splits served.splits)
next
  case (BridgeMoves i)
  with run show ?thesis
    by (auto simp: proxy_do_def proxy_bridge_def proxy_displace_def split: if_splits bridge_pc.splits option.splits)
next
  case (Request i req sk)
  with run show ?thesis
    by (auto simp: proxy_do_def proxy_request_def client_at_def client_step.request
        split: if_splits client_pc.splits bool.splits)
next
  case (TlsEnds i ok)
  with run show ?thesis by (auto simp: proxy_do_def proxy_tls_def client_at_def client_step.tls split: if_splits)
next
  case (ClientMoves i)
  with run client_moves [of i p p'] show ?thesis by (simp add: proxy_do_def)
next
  case (Route j)
  with run show ?thesis by (auto simp: proxy_do_def elim: proxy_routeE)
qed (use run in \<open>auto simp: proxy_do_def proxy_handshake_def proxy_link_def proxy_preamble_def proxy_unrouted_ends_def
    proxy_tunnel_ends_def intro: drop_share_step split: if_splits prod.splits option.splits\<close>)

interpretation clients: part rt lim sha1 b64 p_clients "client_run lim" for rt lim sha1 b64
proof unfold_locales
  show "client_run lim (p_clients p)" if "proxy_start rt lim = Some p" for p
    using that by (auto simp: proxy_start_def intro: client_run.start split: if_splits)
  show "client_run lim (p_clients p')"
    if "linked p" "client_run lim (p_clients p)" "proxy_do rt lim sha1 b64 e p = Some p'" for p e p'
    using clients_steps [OF that(3)] that(2) by (auto intro: client_run.step)
qed

text \<open>A tunnel that waits for its preamble is as it would be on any link.\<close>

inductive unrouted :: "tunnel \<Rightarrow> bool" where
  spawned: "taken sk = [] \<Longrightarrow> sent sk = [] \<Longrightarrow> unrouted (tunnel_new sk)"
| reads: "unrouted t \<Longrightarrow> t_pc t = Preamble \<Longrightarrow> unrouted (preamble_turn expired t)"

lemma link_run_unrouted:
  assumes "unrouted t" and "link_run rt k n w"
  shows "link_run rt k n (w\<lparr>l_tunnels := l_tunnels w @ [t]\<rparr>)"
  using assms(1)
proof induction
  case (spawned sk)
  then show ?case using link_run.acted [OF assms(2), of "Connect sk"] by (simp add: link_do_def)
next
  case (reads t expired)
  let ?w = "w\<lparr>l_tunnels := l_tunnels w @ [t]\<rparr>"
  have "link_do rt k (Turn (length (l_tunnels w)) (if expired then Deadline else Main)) ?w
      = Some (w\<lparr>l_tunnels := l_tunnels w @ [preamble_turn expired t]\<rparr>)"
    using reads(2) by (simp add: link_do_def tunnel_turn_def main_turn_def)
  with reads(3) show ?case by (blast intro: link_run.acted)
qed

lemma link_run_routed:
  assumes "unrouted t" and "t_pc t = Routing" and "link_run rt k n w"
  shows "link_run rt k n (w\<lparr>l_tunnels := l_tunnels w @ [route_turn k True t]\<rparr>)"
proof -
  have "link_do rt k (Turn (length (l_tunnels w)) (Lookup True)) (w\<lparr>l_tunnels := l_tunnels w @ [t]\<rparr>)
      = Some (w\<lparr>l_tunnels := l_tunnels w @ [route_turn k True t]\<rparr>)"
    using assms(2) by (simp add: link_do_def tunnel_turn_def)
  with link_run_unrouted [OF assms(1,3)] show ?thesis by (blast intro: link_run.acted)
qed

definition links_run :: "('q, 'b, 'o) runtime \<Rightarrow> limits \<Rightarrow> ('q, 'b, 'o, 'ip) proxy \<Rightarrow> bool" where
  "links_run rt lim p \<longleftrightarrow>
     (\<forall>i k w. p_links p i = Some (k, w) \<longrightarrow> link_run rt k (max_streams_per_bridge lim) w)
     \<and> (\<forall>(c, t) \<in> set (p_waiting p). unrouted t \<or> returned t)"

lemma set_remove_at: "set (remove_at j xs) \<subseteq> set xs"
  unfolding remove_at_def by (metis Un_subset_iff set_append set_drop_subset set_take_subset)

lemma links_run_update:
  assumes "links_run rt lim p" and "link_run rt k (max_streams_per_bridge lim) w" and "p_links p' = (p_links p)(i \<mapsto> (k, w))"
    and "set (p_waiting p') \<subseteq> set (p_waiting p)"
  shows "links_run rt lim p'"
  using assms by (auto simp: links_run_def)

lemma links_run_act:
  assumes "links_run rt lim p" and "p_links p i = Some (k, w)" and "link_do rt k a w = Some w'"
    and "p_links p' = (p_links p)(i \<mapsto> (k, w'))" and "p_waiting p' = p_waiting p"
  shows "links_run rt lim p'"
proof (rule links_run_update [OF assms(1) _ assms(4)])
  have "link_run rt k (max_streams_per_bridge lim) w" using assms(1,2) by (simp add: links_run_def)
  then show "link_run rt k (max_streams_per_bridge lim) w'" using assms(3) by (rule link_run.acted)
qed (simp add: assms(5))

lemma links_run_cong:
  "links_run rt lim p \<Longrightarrow> p_links p' = p_links p \<Longrightarrow> p_waiting p' = p_waiting p \<Longrightarrow> links_run rt lim p'"
  by (simp add: links_run_def)

lemma links_run_do:
  assumes inv: "links_run rt lim p" and run: "proxy_do rt lim sha1 b64 e p = Some p'"
  shows "links_run rt lim p'"
proof (cases e)
  case (Accept ip first preamble)
  with run inv show ?thesis
    by (auto simp: proxy_do_def proxy_accept_def links_run_def split: first_route.splits served.splits)
next
  case (HandshakeEnds i res)
  with run inv show ?thesis
    by (auto simp: proxy_do_def proxy_handshake_def links_run_def intro: link_run.begun split: if_splits option.splits)
next
  case (BridgeMoves i)
  with run show ?thesis
    by (auto simp: proxy_do_def proxy_bridge_def elim!: proxy_displaceE intro: links_run_cong [OF inv] links_run_act [OF inv]
        split: if_splits bridge_pc.splits)
next
  case (LinkActs i a)
  with run have "proxy_link rt i a p = Some p'" by (simp add: proxy_do_def)
  then show ?thesis by (rule proxy_linkE) (rule links_run_act [OF inv], auto)
next
  case (Request i req sk)
  with run inv show ?thesis
    by (auto simp: proxy_do_def proxy_request_def links_run_def intro: unrouted.spawned
        split: if_splits client_pc.splits bool.splits)
next
  case (PreambleTurn j expired)
  with run obtain c t where j: "j < length (p_waiting p)" "p_waiting p ! j = (c, t)" "t_pc t = Preamble"
    "p' = p\<lparr>p_waiting := (p_waiting p)[j := (c, preamble_turn expired t)]\<rparr>"
    by (auto simp: proxy_do_def proxy_preamble_def split: if_splits prod.splits)
  then have "unrouted t" using inv nth_mem [OF j(1)] by (auto simp: links_run_def returned_def)
  with j inv show ?thesis by (auto simp: links_run_def dest: set_update_subset_insert [THEN subsetD] intro: unrouted.reads)
next
  case (Route j)
  with run have "proxy_route j p = Some p'" by (simp add: proxy_do_def)
  then show ?thesis
  proof (cases rule: proxy_routeE)
    case (unknown c t)
    then show ?thesis using inv
      by (auto simp: links_run_def route_turn_def returned_def dest: set_update_subset_insert [THEN subsetD])
  next
    case (found c t i k w)
    then have "unrouted t" using inv nth_mem [OF found(1)] by (auto simp: links_run_def returned_def)
    with found inv set_remove_at [of j "p_waiting p"] show ?thesis
      by (auto simp: links_run_def intro: link_run_routed)
  qed
next
  case (UnroutedEnds j)
  with run inv set_remove_at [of j "p_waiting p"] show ?thesis
    by (auto simp: proxy_do_def proxy_unrouted_ends_def links_run_def split: if_splits)
qed (use run in \<open>auto simp: proxy_do_def proxy_tls_def proxy_client_def proxy_tunnel_ends_def intro: links_run_cong [OF inv]
    split: if_splits prod.splits option.splits client_pc.splits bool.splits\<close>)

interpretation links: part rt lim sha1 b64 "\<lambda>p. p" "links_run rt lim" for rt lim sha1 b64
proof unfold_locales
  show "links_run rt lim p" if "proxy_start rt lim = Some p" for p
    using that by (auto simp: proxy_start_def links_run_def split: if_splits)
qed (rule links_run_do)

section \<open>Displaced connections\<close>

definition unregistered_pc :: "bridge_pc \<Rightarrow> bool" where
  "unregistered_pc q \<longleftrightarrow> early q \<or> (\<exists>k. q = Linked k)"

text \<open>
  A connection that is about to be shut down by another has been registered and is nobody's route
  any more, and never will be: its own way out cannot remove the route of its successor.
\<close>

definition displaced_unrouted :: "('q, 'ip) registry \<Rightarrow> bool" where
  "displaced_unrouted r \<longleftrightarrow>
     (\<forall>i k j. at r i (Displacing k j) \<longrightarrow> \<not> unregistered_pc (pc (conns r ! j)) \<and> (\<forall>l. routes r l \<noteq> Some j))"

lemma displaced_unroutedD:
  assumes "displaced_unrouted r" and "at r i (Displacing k j)"
  shows "\<not> unregistered_pc (pc (conns r ! j))" and "routes r l \<noteq> Some j"
  using assms unfolding displaced_unrouted_def by blast+

lemma displaced_unrouted_go:
  assumes inv: "displaced_unrouted r" and i: "i < length (conns r)"
    and "conns r' = (conns r)[i := (conns r ! i)\<lparr>pc := q\<rparr>]" and "\<And>l x. routes r' l = Some x \<Longrightarrow> routes r l = Some x"
    and "\<And>k j. q \<noteq> Displacing k j" and "unregistered_pc q \<Longrightarrow> unregistered_pc (pc (conns r ! i))"
  shows "displaced_unrouted r'"
proof -
  have pc: "pc (conns r' ! j) = (if j = i then q else pc (conns r ! j))" for j
    using i by (simp add: assms(3))
  have len: "length (conns r') = length (conns r)" by (simp add: assms(3))
  have "at r j (Displacing k l)" if "at r' j (Displacing k l)" for j k l
    using that assms(5) by (auto simp: at_def pc len split: if_splits)
  with displaced_unroutedD [OF inv] assms(4,6) show ?thesis
    unfolding displaced_unrouted_def pc by (metis (full_types))
qed

lemma displaced_unrouted_register:
  assumes inv: "displaced_unrouted r" and routes: "routes_inv r" and i: "at r i (Linked k)"
  shows "displaced_unrouted (bridge_register i k r)"
proof -
  let ?r = "bridge_register i k r"
  have len: "i < length (conns (r\<lparr>routes := (routes r)(k \<mapsto> i)\<rparr>))" and pc: "pc (conns r ! i) = Linked k" using i by (simp_all add: at_def)
  have routes': "routes ?r l = (if l = k then Some i else routes r l)" for l by (simp add: bridge_register_def)
  have keep: "pc (conns ?r ! x) = pc (conns r ! x)" if "x \<noteq> i" for x
    using that by (simp add: bridge_register_def conns_go(1) [OF len])
  have target: "\<not> unregistered_pc (pc (conns r ! j)) \<and> (\<forall>l. l \<noteq> k \<longrightarrow> routes r l \<noteq> Some j)" if "at ?r h (Displacing k' j)" for h k' j
  proof (cases "h = i")
    case True
    with that have "routes r k = Some j"
      by (auto simp: bridge_register_def at_def conns_go(1) [OF len] split: option.splits)
    then have "registered k (pc (conns r ! j))" using routes_invD(1) [OF routes] by blast
    moreover have "registered l (pc (conns r ! j))" if "routes r l = Some j" for l
      using routes_invD(1) [OF routes that] by blast
    ultimately show ?thesis by (auto simp: registered_def unregistered_pc_def early_def)
  next
    case False
    with that have "at r h (Displacing k' j)" by (simp add: bridge_register_def at_go [OF len])
    with displaced_unroutedD [OF inv] show ?thesis by blast
  qed
  show ?thesis unfolding displaced_unrouted_def
  proof (intro allI impI)
    fix h k' j
    assume "at ?r h (Displacing k' j)"
    note t = target [OF this]
    then have "j \<noteq> i" using pc by (auto simp: unregistered_pc_def)
    with t show "\<not> unregistered_pc (pc (conns ?r ! j)) \<and> (\<forall>l. routes ?r l \<noteq> Some j)" by (simp add: keep routes')
  qed
qed

lemma displaced_unrouted_admit:
  assumes inv: "displaced_unrouted r" and known: "displaced_known r"
  shows "displaced_unrouted (bridge_admit sm ip r)"
proof (cases "sem_acquire sm 1 (global r)")
  case (Acquired q)
  let ?r = "r\<lparr>global := q, conns := conns r @ [\<lparr>peer = ip, pc = Budgeted, dead = False\<rparr>]\<rparr>"
  have "at r h (Displacing k j)" if "at ?r h (Displacing k j)" for h k j
    using that by (auto simp: at_def nth_append split: if_splits)
  moreover have "j < length (conns r)" if "at r h (Displacing k j)" for h k j
    using known that by (auto simp: displaced_known_def)
  ultimately have "displaced_unrouted ?r"
    using displaced_unroutedD [OF inv] unfolding displaced_unrouted_def by (simp add: nth_append) blast
  with Acquired show ?thesis by (simp add: bridge_admit_def)
qed (use inv in \<open>simp_all add: bridge_admit_def\<close>)

lemma displaced_unrouted_step:
  assumes "bridge_step sm lim r r'" and inv: "displaced_unrouted r" and "routes_inv r" and "displaced_known r"
  shows "displaced_unrouted r'"
  using assms(1)
proof cases
  case (admit ip)
  with displaced_unrouted_admit [OF inv assms(4)] show ?thesis by simp
next
  case (register i k)
  with displaced_unrouted_register [OF inv assms(3)] show ?thesis by simp
next
  case (displace i k previous)
  let ?r = "set_conn previous (\<lambda>c. c\<lparr>dead := True\<rparr>) r"
  have "displaced_unrouted ?r" using inv by (simp add: displaced_unrouted_def at_def conns_die(1))
  then show ?thesis unfolding displace(1) bridge_displace_def
    by (rule displaced_unrouted_go [where i = i and q = "Up k"])
      (use displace(2) in \<open>auto simp: at_def set_conn_def unregistered_pc_def early_def\<close>)
next
  case (dies i)
  with inv show ?thesis by (simp add: displaced_unrouted_def at_def conns_die(1))
qed (use inv in \<open>auto simp: bridge_claim_def bridge_handshake_def bridge_done_def bridge_release_def bridge_reclaim_def
    bridge_unbudget_def at_def set_conn_def unregistered_pc_def early_def split: prod.splits option.splits if_splits
    intro!: displaced_unrouted_go [OF inv]\<close>)

lemma bridge_run_displaced:
  assumes "sem_laws sm" and "bridge_run sm lim r"
  shows "displaced_unrouted r"
  using assms(2)
proof induction
  case start
  then show ?case by (simp add: registry_start_def displaced_unrouted_def at_def)
next
  case (step r r')
  then show ?case using bridge_run_inv [OF assms(1)] by (blast intro: displaced_unrouted_step)
qed

section \<open>Tunnels and their clients\<close>

text \<open>
  The tunnels a client connection owns are the shares of its slot that are held besides that of
  \<open>Edge::serve\<close>; and a routed tunnel is on its link.
\<close>

definition running :: "nat \<Rightarrow> ('q, 'b, 'o, 'ip) proxy \<Rightarrow> nat" where
  "running c p = count_list (map fst (p_waiting p)) c + count_list (map fst (p_spliced p)) c"

fun shares :: "client_pc \<Rightarrow> nat" where
  "shares (Live serving n) = n"
| "shares _ = 0"

definition shared_out :: "('q, 'b, 'o, 'ip) proxy \<Rightarrow> bool" where
  "shared_out p \<longleftrightarrow>
     (\<forall>c. running c p = (if c < length (cls (p_clients p)) then shares (cl_pc (cls (p_clients p) ! c)) else 0))
     \<and> (\<forall>(c, i, m) \<in> set (p_spliced p). \<exists>k w. p_links p i = Some (k, w) \<and> m < length (l_tunnels w))"

lemma shared_outD:
  assumes "shared_out p"
  shows "running c p = (if c < length (cls (p_clients p)) then shares (cl_pc (cls (p_clients p) ! c)) else 0)"
    and "(d, i, m) \<in> set (p_spliced p) \<Longrightarrow> \<exists>k w. p_links p i = Some (k, w) \<and> m < length (l_tunnels w)"
  using assms unfolding shared_out_def by blast+

lemma shared_outI:
  assumes "\<And>c. running c p = (if c < length (cls (p_clients p)) then shares (cl_pc (cls (p_clients p) ! c)) else 0)"
    and "\<And>d i m. (d, i, m) \<in> set (p_spliced p) \<Longrightarrow> \<exists>k w. p_links p i = Some (k, w) \<and> m < length (l_tunnels w)"
  shows "shared_out p"
  using assms unfolding shared_out_def by blast

lemma shares_owners [simp]: "shares (owners serving n) = n"
  by (simp add: owners_def)

lemma count_remove_at:
  assumes "j < length xs"
  shows "count_list (map f (remove_at j xs)) c + (if f (xs ! j) = c then 1 else 0) = count_list (map f xs) c"
  by (subst (2) id_take_nth_drop [OF assms]) (simp add: remove_at_def)

lemma map_fst_update: "j < length xs \<Longrightarrow> xs ! j = (c, t) \<Longrightarrow> map fst (xs[j := (c, t')]) = map fst xs"
  by (simp add: map_update list_update_same_conv)

text \<open>An event that keeps the owners of all slots and all links.\<close>

lemma shared_out_cong:
  assumes "shared_out p" and "p_spliced p' = p_spliced p" and "map fst (p_waiting p') = map fst (p_waiting p)"
    and "p_clients p' = p_clients p"
    and "\<And>i k w. p_links p i = Some (k, w) \<Longrightarrow> \<exists>k' w'. p_links p' i = Some (k', w') \<and> length (l_tunnels w) \<le> length (l_tunnels w')"
  shows "shared_out p'"
proof -
  have "\<exists>k w. p_links p' i = Some (k, w) \<and> m < length (l_tunnels w)" if "(c, i, m) \<in> set (p_spliced p)" for c i m
  proof -
    obtain k w where "p_links p i = Some (k, w)" "m < length (l_tunnels w)"
      using assms(1) \<open>(c, i, m) \<in> set (p_spliced p)\<close> by (auto simp: shared_out_def)
    then show ?thesis using assms(5) [of i k w] by (meson less_le_trans)
  qed
  with assms show ?thesis by (auto simp: shared_out_def running_def)
qed

lemma tunnels_grow: "link_do rt k a w = Some w' \<Longrightarrow> length (l_tunnels w) \<le> length (l_tunnels w')"
  by (auto simp: link_do_def split: act.splits if_splits prod.splits poll.splits sum.splits reader_pc.splits)

lemma shared_out_clients:
  assumes "shared_out p" and "p_links p' = p_links p" and "set (p_spliced p') \<subseteq> set (p_spliced p)"
    and "\<And>c. running c p' = (if c < length (cls (p_clients p')) then shares (cl_pc (cls (p_clients p') ! c)) else 0)"
  shows "shared_out p'"
  using assms by (auto simp: shared_out_def)

lemma client_go_shares:
  "i < length (cls cs) \<Longrightarrow> shares (cl_pc (cls (client_go i q cs) ! c)) = (if c = i then shares q else shares (cl_pc (cls cs ! c)))"
  by (auto simp: client_go_def)

lemma drop_share_shares:
  assumes "drop_share i cs = Some cs'"
  shows "length (cls cs') = length (cls cs)" and "i < length (cls cs)"
    and "shares (cl_pc (cls cs ! c)) = shares (cl_pc (cls cs' ! c)) + (if c = i then 1 else 0)"
  using assms by (auto simp: drop_share_def client_go_shares client_go_def split: if_splits client_pc.splits nat.splits)

lemma shared_out_accept:
  assumes "shared_out p"
  shows "shared_out (p\<lparr>p_clients := client_accept lim ip (p_clients p)\<rparr>)"
  using assms by (auto simp: shared_out_def running_def client_accept_def nth_append split: prod.splits)

lemma shared_out_request:
  assumes inv: "shared_out p" and run: "proxy_request sha1 b64 req sk i p = Some p'"
  shows "shared_out p'"
proof -
  obtain n where i: "i < length (cls (p_clients p))" "cl_pc (cls (p_clients p) ! i) = Live True n"
    and p': "p' = p\<lparr>p_clients := client_request sha1 b64 req i n (p_clients p),
      p_waiting := p_waiting p @ (if snd (handle sha1 b64 req) then [(i, tunnel_new sk)] else [])\<rparr>"
    using run by (auto simp: proxy_request_def split: if_splits client_pc.splits bool.splits)
  have "running c p' = running c p + (if snd (handle sha1 b64 req) \<and> i = c then 1 else 0)" for c
    by (simp add: p' running_def)
  with i show ?thesis
    by (intro shared_out_clients [OF inv]) (auto simp: p' shared_outD(1) [OF inv] client_request_def nth_list_update)
qed

lemma shared_out_go:
  assumes "shared_out p" and "i < length (cls (p_clients p))" and "cls cs = cls (p_clients p)"
    and "shares q = shares (cl_pc (cls (p_clients p) ! i))"
  shows "shared_out (p\<lparr>p_clients := client_go i q cs\<rparr>)"
proof (rule shared_out_clients [OF assms(1)])
  show "running c (p\<lparr>p_clients := client_go i q cs\<rparr>)
      = (if c < length (cls (p_clients (p\<lparr>p_clients := client_go i q cs\<rparr>)))
         then shares (cl_pc (cls (p_clients (p\<lparr>p_clients := client_go i q cs\<rparr>)) ! c)) else 0)" for c
    using assms shared_outD(1) [OF assms(1), of c] client_go_shares [of i cs q c] by (auto simp: running_def)
qed simp_all

lemma shared_out_tls:
  assumes inv: "shared_out p" and run: "proxy_tls ok i p = Some p'"
  shows "shared_out p'"
  using run by (auto simp: proxy_tls_def client_tls_def intro!: shared_out_go [OF inv] split: if_splits)

lemma shared_out_client:
  assumes inv: "shared_out p" and run: "proxy_client i p = Some p'"
  shows "shared_out p'"
  using run
  by (auto simp: proxy_client_def client_release_def client_reclaim_def intro!: shared_out_go [OF inv]
      split: if_splits client_pc.splits bool.splits)

lemma shared_out_route:
  assumes inv: "shared_out p" and "proxy_route j p = Some p'"
  shows "shared_out p'"
  using assms(2)
proof (cases rule: proxy_routeE)
  case (unknown c t)
  then show ?thesis by (intro shared_out_cong [OF inv]) (auto simp: map_fst_update)
next
  case (found c t i k w)
  have "running d p' = running d p" for d
    using count_remove_at [OF found(1), of fst d] found(2) by (auto simp: found(6) running_def)
  moreover have "\<exists>k w. p_links p' l = Some (k, w) \<and> m < length (l_tunnels w)" if "(d, l, m) \<in> set (p_spliced p')" for d l m
    using that shared_outD(2) [OF inv, of d l m] found(5) by (cases "l = i") (auto simp: found(6))
  ultimately show ?thesis by (intro shared_outI) (simp_all add: shared_outD(1) [OF inv] found(6))
qed

lemma shared_out_ends:
  assumes inv: "shared_out p" and "drop_share i (p_clients p) = Some cs" and "p_clients p' = cs"
    and "p_links p' = p_links p" and "set (p_spliced p') \<subseteq> set (p_spliced p)"
    and "\<And>c. running c p' + (if i = c then 1 else 0) = running c p"
  shows "shared_out p'"
proof (rule shared_out_clients [OF inv assms(4,5)])
  fix c
  show "running c p' = (if c < length (cls (p_clients p')) then shares (cl_pc (cls (p_clients p') ! c)) else 0)"
    using assms(6) [of c] drop_share_shares [OF assms(2)] shared_outD(1) [OF inv, of c]
    by (auto simp: assms(3) split: if_splits)
qed

lemma shared_out_do:
  assumes linked: "linked p" and inv: "shared_out p" and run: "proxy_do rt lim sha1 b64 e p = Some p'"
  shows "shared_out p'"
proof (cases e)
  case (Accept ip first preamble)
  with run show ?thesis
    by (auto simp: proxy_do_def proxy_accept_def intro: shared_out_cong [OF inv] shared_out_accept [OF inv] inv
        split: first_route.splits served.splits)
next
  case (HandshakeEnds i res)
  with run linkedD(3) [OF linked, of i] show ?thesis
    by (auto simp: proxy_do_def proxy_handshake_def early_def intro!: shared_out_cong [OF inv] split: if_splits option.splits)
next
  case (BridgeMoves i)
  with run tunnels_grow show ?thesis
    by (fastforce simp: proxy_do_def proxy_bridge_def elim!: proxy_displaceE intro!: shared_out_cong [OF inv]
        split: if_splits bridge_pc.splits)
next
  case (LinkActs i a)
  with run have "proxy_link rt i a p = Some p'" by (simp add: proxy_do_def)
  then show ?thesis by (rule proxy_linkE) (intro shared_out_cong [OF inv], auto dest: tunnels_grow)
next
  case (PreambleTurn j expired)
  with run show ?thesis
    by (auto simp: proxy_do_def proxy_preamble_def map_fst_update intro!: shared_out_cong [OF inv] split: if_splits prod.splits)
next
  case (UnroutedEnds j)
  with run obtain cs where j: "j < length (p_waiting p)" "drop_share (fst (p_waiting p ! j)) (p_clients p) = Some cs"
    and p': "p' = p\<lparr>p_clients := cs, p_waiting := remove_at j (p_waiting p)\<rparr>"
    by (auto simp: proxy_do_def proxy_unrouted_ends_def split: if_splits)
  show ?thesis
    by (rule shared_out_ends [OF inv j(2)]) (use count_remove_at [OF j(1), of fst] in \<open>auto simp: p' running_def\<close>)
next
  case (TunnelEnds j)
  with run obtain cs where j: "j < length (p_spliced p)" "drop_share (fst (p_spliced p ! j)) (p_clients p) = Some cs"
    and p': "p' = p\<lparr>p_clients := cs, p_spliced := remove_at j (p_spliced p)\<rparr>"
    by (auto simp: proxy_do_def proxy_tunnel_ends_def split: if_splits prod.splits option.splits)
  show ?thesis
    by (rule shared_out_ends [OF inv j(2)])
      (use count_remove_at [OF j(1), of fst] set_remove_at [of j "p_spliced p"] in \<open>auto simp: p' running_def\<close>)
qed (use run shared_out_request [OF inv] shared_out_tls [OF inv] shared_out_client [OF inv] shared_out_route [OF inv] in \<open>auto simp: proxy_do_def\<close>)

interpretation slots: part rt lim sha1 b64 "\<lambda>p. p" shared_out for rt lim sha1 b64
proof unfold_locales
  show "shared_out p" if "proxy_start rt lim = Some p" for p
    using that by (auto simp: proxy_start_def shared_out_def running_def split: if_splits)
qed (rule shared_out_do)

end
