(* ===== verification/Link_Props.thy ===== *)
theory Link_Props
  imports Link_Flow
begin

text \<open>
  The properties of a bridge link with its client tunnels, and a link evaluated at a concrete
  schedule.
\<close>

section \<open>A run\<close>

text \<open>
  A phone whose preamble comes in two frames, cut in the middle of the second, and which then hangs
  up; its socket takes what is written to it.
\<close>

definition demo_client :: sock where
  "demo_client = demo_phone\<lparr>rd := rd demo_phone @ [RdEof], wr := [WrAccept 100, WrAccept 100]\<rparr>"

definition demo_key :: bytes where
  "demo_key = replicate 32 7"

text \<open>The bridge sends two bytes on the first stream.\<close>

definition demo_reply :: frame where
  "demo_reply = \<lparr>frame_id = 1, frame_kind = KIND_DATA, frame_payload = [7, 8]\<rparr>"

text \<open>
  The phone connects and is routed, its stream is opened, the preamble and one more byte go to the
  bridge, and the reply goes back.
\<close>

definition demo_up :: "act list" where
  "demo_up = [Connect demo_client, Turn 0 Main, Turn 0 (Lookup True)] @ replicate 7 (Turn 0 Main)
     @ replicate 4 (Turn 0 (Uplink 0)) @ replicate 3 WriterTakes"

definition demo_down :: "act list" where
  "demo_down = [ReadNext (Decoded (frame_bytes demo_reply)), Turn 0 Downlink, Turn 0 Downlink, Turn 0 Downlink]"

definition demo_link_start :: "(nat \<times> bool, bytes list_chan, frame list_chan) link" where
  "demo_link_start = \<lparr>l_ses = demo_session, l_reader = Reading, l_tunnels = [], l_heard = [], l_wire = []\<rparr>"

lemma demo_link_begun: "link_run demo_rt demo_key 1 demo_link_start"
  by (rule link_run.begun) (use demo_start in \<open>simp add: link_start_def demo_link_start_def\<close>)

lemma demo_link:
  obtains w t where "link_run demo_rt demo_key 1 w" and "l_tunnels w = [t]" and "t_half t = Some \<lparr>tx_id = 1, tx_addr = 0\<rparr>"
    and "t_head t = MAGIC_CLIENT @ VERSION # demo_key" and "t_read t = [7]" and "t_pc t = Selecting" and "t_up t = UpReading"
    and "t_down t = DownRecv" and "t_chunks t = [[7, 8]]" and "t_since t = 0" and "outgoing (t_ws t) = []"
    and "l_heard w = [frame_bytes demo_reply]" and "ch_items (outch demo_rt) (out (l_ses w)) = []"
    and "ch_rx_open (outch demo_rt) (out (l_ses w))" and "length (l_wire w) = 3"
    and "streams (l_ses w) = [(1, 0)]" and "items demo_rt (l_ses w) 0 = []"
proof -
  have "case link_exec demo_rt demo_key (demo_up @ demo_down) demo_link_start of None \<Rightarrow> False
    | Some w \<Rightarrow> (case l_tunnels w of [t] \<Rightarrow> t_half t = Some \<lparr>tx_id = 1, tx_addr = 0\<rparr>
        \<and> t_head t = MAGIC_CLIENT @ VERSION # demo_key \<and> t_read t = [7] \<and> t_pc t = Selecting \<and> t_up t = UpReading
        \<and> t_down t = DownRecv \<and> t_chunks t = [[7, 8]] \<and> t_since t = 0 \<and> outgoing (t_ws t) = []
        \<and> l_heard w = [frame_bytes demo_reply] \<and> ch_items (outch demo_rt) (out (l_ses w)) = []
        \<and> ch_rx_open (outch demo_rt) (out (l_ses w)) \<and> length (l_wire w) = 3
        \<and> streams (l_ses w) = [(1, 0)] \<and> items demo_rt (l_ses w) 0 = [] | _ \<Rightarrow> False)"
    by code_simp
  with that link_exec_run [OF demo_link_begun] show thesis
    by (auto split: option.splits list.splits simp del: link_exec.simps)
qed

lemma demo_eof:
  obtains w t where "link_run demo_rt demo_key 1 w" and "l_tunnels w = [t]" and "t_half t = Some \<lparr>tx_id = 1, tx_addr = 0\<rparr>"
    and "t_pc t = Selecting" and "t_up t = UpEnded" and "ch_rx_open (outch demo_rt) (out (l_ses w))"
    and "0 < room demo_rt (l_ses w)"
proof -
  have "case link_exec demo_rt demo_key (demo_up @ [Turn 0 (Uplink 0)]) demo_link_start of None \<Rightarrow> False
    | Some w \<Rightarrow> (case l_tunnels w of [t] \<Rightarrow> t_half t = Some \<lparr>tx_id = 1, tx_addr = 0\<rparr> \<and> t_pc t = Selecting
        \<and> t_up t = UpEnded \<and> ch_rx_open (outch demo_rt) (out (l_ses w)) \<and> 0 < room demo_rt (l_ses w) | _ \<Rightarrow> False)"
    by code_simp
  with that link_exec_run [OF demo_link_begun] show thesis
    by (auto split: option.splits list.splits simp del: link_exec.simps)
qed

lemma demo_over:
  obtains w t where "link_run demo_rt demo_key 1 w" and "l_tunnels w = [t]" and "t_half t = Some \<lparr>tx_id = 1, tx_addr = 0\<rparr>"
    and "t_pc t = Returned (Inr ())"
proof -
  have "case link_exec demo_rt demo_key (demo_up @ Turn 0 (Uplink 0) # replicate 3 (Turn 0 Main)) demo_link_start of None \<Rightarrow> False
    | Some w \<Rightarrow> (case l_tunnels w of [t] \<Rightarrow> t_half t = Some \<lparr>tx_id = 1, tx_addr = 0\<rparr> \<and> t_pc t = Returned (Inr ()) | _ \<Rightarrow> False)"
    by code_simp
  with that link_exec_run [OF demo_link_begun] show thesis
    by (auto split: option.splits list.splits simp del: link_exec.simps)
qed

section \<open>Properties\<close>

text \<open>
  C6. A link with its tunnels is a session under its step relation. Whatever the clients send,
  whatever the bridge sends, and however the tunnel, uplink, downlink, reader and writer tasks are
  scheduled, the state is one that the session's tasks reach under \<open>mux_step\<close>, with every tunnel
  that is opening a stream as an opener and every send in flight as a sender, and the reader has
  handled the same frames. So every property of the session's runs holds of the link.
\<close>

theorem link_refines_session:
  assumes "runtime_laws rt" and "link_run rt k n w"
  shows "\<exists>ls. mux_run rt n False ls (world_of w) \<and> frames_in ls = l_heard w"
  using assms by (rule link_run_session)

theorem link_refines_session_witness:
  "\<exists>w ls. link_run demo_rt demo_key 1 w \<and> mux_run demo_rt 1 False ls (world_of w) \<and> frames_in ls = [frame_bytes demo_reply]"
proof -
  obtain w t where "link_run demo_rt demo_key 1 w" "l_heard w = [frame_bytes demo_reply]" by (rule demo_link)
  with link_refines_session [OF demo_rt_laws this(1)] show ?thesis by auto
qed

text \<open>
  C21. The bridge is sent the client's preamble and then the phone's bytes, all of them and in
  order. In every run of a link, for every tunnel with a stream: the preamble is the first 37
  bytes of what the phone put into its WebSocket frames, it has the client magic and the version
  and names this bridge; the bytes the uplink read follow it there; the payloads of the frames
  queued for the stream, followed by what the send in flight still owes, are a prefix of preamble
  and bytes read, and are exactly those as long as neither the forwarding of the preamble nor the
  uplink has ended; and all these frames are data frames with the stream's id that respect
  \<open>MAX_PAYLOAD\<close>.
\<close>

theorem uplink_in_order:
  assumes "runtime_laws rt" and "link_run rt k n w" and "t \<in> set (l_tunnels w)" and "t_half t = Some tx"
  shows "length (t_head t) = HEAD_LEN \<and> take 5 (t_head t) = MAGIC_CLIENT @ [VERSION] \<and> bridge_key (t_head t) = k
    \<and> prefix (t_head t @ t_read t) (payload_stream (taken (inner (t_ws t))))
    \<and> prefix (t_payload t @ t_owed t) (t_head t @ t_read t)
    \<and> (t_flowing t \<longrightarrow> t_payload t @ t_owed t = t_head t @ t_read t)
    \<and> (\<forall>f \<in> set (t_queued t). frame_id f = tx_id tx \<and> frame_kind f = KIND_DATA \<and> length (frame_payload f) \<le> MAX_PAYLOAD)"
  using tunnel_facts [OF assms] by (auto simp: data_frame_def)

theorem uplink_in_order_witness:
  "\<exists>w t. link_run demo_rt demo_key 1 w \<and> t \<in> set (l_tunnels w) \<and> t_read t = [7]
    \<and> t_payload t @ t_owed t = MAGIC_CLIENT @ VERSION # replicate 33 7"
proof -
  obtain w t where run: "link_run demo_rt demo_key 1 w" and t: "l_tunnels w = [t]" "t_half t = Some \<lparr>tx_id = 1, tx_addr = 0\<rparr>"
    "t_head t = MAGIC_CLIENT @ VERSION # demo_key" "t_read t = [7]" "t_up t = UpReading"
    by (rule demo_link)
  have "t \<in> set (l_tunnels w)" "t_flowing t" using t by (simp_all add: t_flowing_def)
  with uplink_in_order [OF demo_rt_laws run this(1) t(2)] run t show ?thesis
    by (intro exI [of _ w] exI [of _ t]) (simp add: demo_key_def replicate_append_same flip: replicate_Suc)
qed



text \<open>
  C7. A tunnel that has returned without an error leaves no stream behind: whatever ended it, and
  whatever the bridge and the other tunnels do before and after, the table has no entry for its
  stream, so the slot is free again; and as long as an entry is there it is under the tunnel's own
  id.
\<close>

theorem tunnel_leaves_nothing:
  assumes "runtime_laws rt" and "link_run rt k n w" and "t \<in> set (l_tunnels w)" and "t_half t = Some tx"
  shows "(t_pc t = Returned (Inr ()) \<longrightarrow> tx_addr tx \<notin> snd ` set (streams (l_ses w)))
    \<and> (\<forall>i. (i, tx_addr tx) \<in> set (streams (l_ses w)) \<longrightarrow> i = tx_id tx)"
  using owns.run [OF assms(1-3)] assms(4) by (auto simp: t_owns_def t_closed_def)

theorem tunnel_leaves_nothing_witness:
  "\<exists>w t. link_run demo_rt demo_key 1 w \<and> t \<in> set (l_tunnels w) \<and> t_half t = Some \<lparr>tx_id = 1, tx_addr = 0\<rparr>
    \<and> 0 \<notin> snd ` set (streams (l_ses w))"
proof -
  obtain w t where run: "link_run demo_rt demo_key 1 w" and t: "l_tunnels w = [t]" "t_half t = Some \<lparr>tx_id = 1, tx_addr = 0\<rparr>"
    "t_pc t = Returned (Inr ())"
    by (rule demo_over)
  have "t \<in> set (l_tunnels w)" using t by simp
  with tunnel_leaves_nothing [OF demo_rt_laws run this t(2)] run t show ?thesis
    by (intro exI [of _ w] exI [of _ t]) simp
qed

text \<open>
  C8. Either end hanging up ends the tunnel. Once the uplink task or the downlink has ended, three
  turns of the tunnel task are enough, provided that the outbox is not full: it then has returned,
  its stream is out of the table, and the bridge is told with a CLOSE frame unless the link is
  already dead.
\<close>

theorem tunnel_hangs_up:
  assumes laws: "runtime_laws rt" and run: "link_run rt k n w" and j: "j < length (l_tunnels w)"
    and t: "t_pc (l_tunnels w ! j) = Selecting" "t_half (l_tunnels w ! j) = Some tx"
    and ended: "t_up (l_tunnels w ! j) = UpEnded \<or> t_down (l_tunnels w ! j) = DownEnded"
    and room: "l_open rt w \<longrightarrow> 0 < room rt (l_ses w)"
  shows "\<exists>w'. link_exec rt k [Turn j Main, Turn j Main, Turn j Main] w = Some w'
    \<and> t_pc (l_tunnels w' ! j) = Returned (Inr ()) \<and> tx_addr tx \<notin> snd ` set (streams (l_ses w'))
    \<and> (l_open rt w \<longrightarrow> l_frames rt w' = l_frames rt w @ [control (tx_id tx) KIND_CLOSE])"
proof -
  let ?t = "l_tunnels w ! j" and ?f = "control (tx_id tx) KIND_CLOSE"
  define s where "s = remove_stream rt (tx_id tx) (l_ses w)"
  have outs: "chan_laws (outch rt)" using laws by (simp add: runtime_laws_def)
  have out: "out s = out (l_ses w)" by (simp add: s_def)
  obtain s' y where send: "session_send rt ?f s = (s', Ready y)"
    and frames: "l_open rt w \<longrightarrow> queue_of rt s' = queue_of rt (l_ses w) @ [?f]"
  proof (cases "l_open rt w")
    case True
    then obtain s' where "session_send rt ?f s = (s', Ready (Inr ()))"
      using session_send_room [OF outs, of s ?f] room out by (auto simp: room_def)
    with session_send_Ready(1) [OF outs this] out that show thesis by simp
  next
    case False
    then have "session_send rt ?f s = (s, Ready (Inl broken))"
      using ch_try_send_laws [OF outs, of ?f "out s"] out
      by (cases "ch_try_send (outch rt) ?f (out s)") (auto simp: session_send_def)
    with that False show thesis by simp
  qed
  define w3 where "w3 = w\<lparr>l_ses := drop_rx rt (tx_addr tx) s', l_tunnels := (l_tunnels w)[j := ?t\<lparr>t_pc := Returned (Inr ())\<rparr>]\<rparr>"
  have "link_exec rt k [Turn j Main, Turn j Main, Turn j Main] w = Some w3"
    using j t ended send
    by (simp add: link_do_def tunnel_turn_def main_turn_def select_turn_def close_turn_def tx_close_def return_turn_def
        w3_def s_def)
  moreover from this have run3: "link_run rt k n w3" by (rule link_exec_run [OF run])
  moreover have t3: "l_tunnels w3 ! j = ?t\<lparr>t_pc := Returned (Inr ())\<rparr>" "l_tunnels w3 ! j \<in> set (l_tunnels w3)"
    using j by (simp_all add: w3_def set_update_memI)
  moreover have "tx_addr tx \<notin> snd ` set (streams (l_ses w3))"
    using owns.run [OF laws run3 t3(2)] t3(1) t(2) by (auto simp: t_owns_def t_closed_def)
  ultimately show ?thesis using frames by (auto simp: l_frames_def w3_def)
qed

theorem tunnel_hangs_up_witness:
  "\<exists>w w'. link_run demo_rt demo_key 1 w \<and> link_exec demo_rt demo_key [Turn 0 Main, Turn 0 Main, Turn 0 Main] w = Some w'
    \<and> t_pc (l_tunnels w' ! 0) = Returned (Inr ()) \<and> 0 \<notin> snd ` set (streams (l_ses w'))
    \<and> l_frames demo_rt w' = l_frames demo_rt w @ [control 1 KIND_CLOSE]"
proof -
  obtain w t where run: "link_run demo_rt demo_key 1 w" and t: "l_tunnels w = [t]" "t_half t = Some \<lparr>tx_id = 1, tx_addr = 0\<rparr>"
    "t_pc t = Selecting" "t_up t = UpEnded" and out: "l_open demo_rt w" "0 < room demo_rt (l_ses w)"
    by (rule demo_eof)
  from tunnel_hangs_up [OF demo_rt_laws run, of 0 "\<lparr>tx_id = 1, tx_addr = 0\<rparr>"] t out
  obtain w' where "link_exec demo_rt demo_key [Turn 0 Main, Turn 0 Main, Turn 0 Main] w = Some w'"
    "t_pc (l_tunnels w' ! 0) = Returned (Inr ())" "0 \<notin> snd ` set (streams (l_ses w'))"
    "l_frames demo_rt w' = l_frames demo_rt w @ [control 1 KIND_CLOSE]"
    by (auto simp del: link_exec.simps)
  with run show ?thesis by blast
qed

section \<open>A failed preamble\<close>

text \<open>
  When the writer dies while the preamble is being forwarded, \<open>serve_client\<close> returns the error of
  \<open>send\<close> without closing the stream: the tunnel is over, but its entry stays in the table and holds
  its slot of the budget, so the next client is refused, until the reader ends too.
\<close>

theorem failed_forward_keeps_slot:
  "\<exists>w t tx. link_run demo_rt demo_key 1 w \<and> t \<in> set (l_tunnels w) \<and> t_pc t = Returned (Inl broken)
    \<and> t_half t = Some tx \<and> map_of (streams (l_ses w)) (tx_id tx) = Some (tx_addr tx) \<and> l_reader w = Reading
    \<and> open_reserve demo_rt (l_ses w) = None"
proof -
  have "case link_exec demo_rt demo_key ([Connect demo_client, Turn 0 Main, Turn 0 (Lookup True)] @ replicate 5 (Turn 0 Main)
        @ [WriterEnds, Turn 0 Main]) demo_link_start of None \<Rightarrow> False
    | Some w \<Rightarrow> (case l_tunnels w of [t] \<Rightarrow> t_half t = Some \<lparr>tx_id = 1, tx_addr = 0\<rparr> \<and> t_pc t = Returned (Inl broken)
        \<and> map_of (streams (l_ses w)) 1 = Some 0 \<and> l_reader w = Reading \<and> open_reserve demo_rt (l_ses w) = None | _ \<Rightarrow> False)"
    by code_simp
  then obtain w t where w: "link_exec demo_rt demo_key ([Connect demo_client, Turn 0 Main, Turn 0 (Lookup True)]
        @ replicate 5 (Turn 0 Main) @ [WriterEnds, Turn 0 Main]) demo_link_start = Some w" "l_tunnels w = [t]"
    "t_half t = Some \<lparr>tx_id = 1, tx_addr = 0\<rparr>" "t_pc t = Returned (Inl broken)" "map_of (streams (l_ses w)) 1 = Some 0"
    "l_reader w = Reading" "open_reserve demo_rt (l_ses w) = None"
    by (auto split: option.splits list.splits simp del: link_exec.simps)
  from link_exec_run [OF demo_link_begun w(1)] w(2-) show ?thesis
    by (intro exI [of _ w] exI [of _ t] exI [of _ "\<lparr>tx_id = 1, tx_addr = 0\<rparr>"]) simp
qed

section \<open>Data behind a CLOSE\<close>

text \<open>
  The uplink is not stopped when \<open>serve_client\<close> returns. If the write to the phone failed, the bytes
  it has still buffered go to the bridge behind the CLOSE frame of their stream.
\<close>

theorem uplink_outlives_tunnel:
  "\<exists>w t fs. link_run demo_rt demo_key 1 w \<and> t \<in> set (l_tunnels w) \<and> t_pc t = Returned (Inr ())
    \<and> streams (l_ses w) = []
    \<and> l_frames demo_rt w = fs @ [control 1 KIND_CLOSE, \<lparr>frame_id = 1, frame_kind = KIND_DATA, frame_payload = [7]\<rparr>]"
proof -
  let ?acts = "[Connect (demo_client\<lparr>wr := [WrErr broken, WrErr broken]\<rparr>), Turn 0 Main, Turn 0 (Lookup True)]
    @ replicate 7 (Turn 0 Main) @ [ReadNext (Decoded (frame_bytes demo_reply))] @ replicate 3 (Turn 0 Downlink)
    @ replicate 3 (Turn 0 Main) @ replicate 3 (Turn 0 (Uplink 0))"
  let ?last = "[control 1 KIND_CLOSE, \<lparr>frame_id = 1, frame_kind = KIND_DATA, frame_payload = [7]\<rparr>]"
  have "case link_exec demo_rt demo_key ?acts demo_link_start of None \<Rightarrow> False
    | Some w \<Rightarrow> map t_pc (l_tunnels w) = [Returned (Inr ())] \<and> streams (l_ses w) = []
        \<and> drop (length (l_frames demo_rt w) - 2) (l_frames demo_rt w) = ?last"
    by code_simp
  then obtain w t where w: "link_exec demo_rt demo_key ?acts demo_link_start = Some w" "l_tunnels w = [t]"
    "t_pc t = Returned (Inr ())" "streams (l_ses w) = []"
    and last: "drop (length (l_frames demo_rt w) - 2) (l_frames demo_rt w) = ?last"
    by (auto split: option.splits simp del: link_exec.simps)
  have "l_frames demo_rt w = take (length (l_frames demo_rt w) - 2) (l_frames demo_rt w) @ ?last"
    by (metis append_take_drop_id last)
  with link_exec_run [OF demo_link_begun w(1)] w(2-) show ?thesis by fastforce
qed

end
