(* ===== verification/Proxy_Props.thy ===== *)
theory Proxy_Props
  imports Proxy_Inv Link_Props
begin

text \<open>The properties of the whole proxy, and a run of it.\<close>

section \<open>A run\<close>

text \<open>
  A bridge dials in, proves its key and is registered; a phone connects over TLS, upgrades, names
  that key, and its stream is opened; then the bridge dials in again, and its new link is about to
  shut the old one down.
\<close>

definition demo_lim :: limits where
  "demo_lim = \<lparr>max_bridges = 2, max_bridges_per_ip = 2, max_streams_per_bridge = 1,
     handshake_timeout = 10000, max_clients_per_ip = 1\<rparr>"

definition demo_upgrade :: request where
  "demo_upgrade = \<lparr>req_path = ''/tunnel'', req_header = [''upgrade'' \<mapsto> ''websocket'', ''sec-websocket-key'' \<mapsto> ''abc'']\<rparr>"

definition demo_dials :: "nat \<Rightarrow> nat event list" where
  "demo_dials i = [Accept 7 (Some 0x44) (Some (Inr (MAGIC_BRIDGE @ VERSION # replicate 32 0))),
     BridgeMoves i, HandshakeEnds i (Some demo_key), BridgeMoves i]"

definition demo_joins :: "nat event list" where
  "demo_joins = [Accept 8 (Some 0x16) None, TlsEnds 0 True, Request 0 demo_upgrade demo_client, PreambleTurn 0 False, Route 0]
     @ replicate 7 (LinkActs 0 (Turn 0 Main))"

definition demo_begin :: "(nat \<times> bool, bytes list_chan, frame list_chan, nat) proxy" where
  "demo_begin = \<lparr>p_reg = registry_start (sem demo_rt) demo_lim, p_clients = \<lparr>cls = [], per_client = Map.empty\<rparr>,
     p_links = Map.empty, p_waiting = [], p_spliced = []\<rparr>"

abbreviation demo_runs :: "(nat \<times> bool, bytes list_chan, frame list_chan, nat) proxy \<Rightarrow> bool" where
  "demo_runs \<equiv> proxy_run demo_rt demo_lim (\<lambda>_. []) (\<lambda>_. [])"

lemma demo_begins: "demo_runs demo_begin"
  by (rule proxy_run.begins) (simp add: proxy_start_def demo_begin_def demo_rt_def count_sem_def demo_lim_def)

lemma demo_proxy:
  obtains p w t where "demo_runs p" and "length (conns (p_reg p)) = 2" and "pc (conns (p_reg p) ! 0) = Up demo_key"
    and "pc (conns (p_reg p) ! 1) = Displacing demo_key 0" and "p_links p 0 = Some (demo_key, w)" and "l_tunnels w = [t]"
    and "t_half t = Some \<lparr>tx_id = 1, tx_addr = 0\<rparr>" and "p_spliced p = [(0, 0, 0)]"
    and "cls (p_clients p) = [\<lparr>cl_ip = 8, cl_pc = Live True 1\<rparr>]" and "routes (p_reg p) demo_key = Some 1"
    and "stream_count (l_ses w) = 1"
proof -
  have "case proxy_exec demo_rt demo_lim (\<lambda>_. []) (\<lambda>_. []) (demo_dials 0 @ demo_joins @ demo_dials 1) demo_begin of
      None \<Rightarrow> False
    | Some p \<Rightarrow> length (conns (p_reg p)) = 2 \<and> pc (conns (p_reg p) ! 0) = Up demo_key
        \<and> pc (conns (p_reg p) ! 1) = Displacing demo_key 0 \<and> p_spliced p = [(0, 0, 0)]
        \<and> cls (p_clients p) = [\<lparr>cl_ip = 8, cl_pc = Live True 1\<rparr>] \<and> routes (p_reg p) demo_key = Some 1
        \<and> (case p_links p 0 of None \<Rightarrow> False | Some (k, w) \<Rightarrow> k = demo_key \<and> stream_count (l_ses w) = 1
            \<and> map t_half (l_tunnels w) = [Some \<lparr>tx_id = 1, tx_addr = 0\<rparr>])"
    by code_simp
  then obtain p w where p: "proxy_exec demo_rt demo_lim (\<lambda>_. []) (\<lambda>_. []) (demo_dials 0 @ demo_joins @ demo_dials 1) demo_begin = Some p"
    and facts: "length (conns (p_reg p)) = 2" "pc (conns (p_reg p) ! 0) = Up demo_key"
      "pc (conns (p_reg p) ! 1) = Displacing demo_key 0" "p_links p 0 = Some (demo_key, w)"
    and tunnel: "map t_half (l_tunnels w) = [Some \<lparr>tx_id = 1, tx_addr = 0\<rparr>]"
    and more: "p_spliced p = [(0, 0, 0)]" "cls (p_clients p) = [\<lparr>cl_ip = 8, cl_pc = Live True 1\<rparr>]"
      "routes (p_reg p) demo_key = Some 1" "stream_count (l_ses w) = 1"
    by (auto split: option.splits simp del: proxy_exec.simps)
  from tunnel obtain t where "l_tunnels w = [t]" "t_half t = Some \<lparr>tx_id = 1, tx_addr = 0\<rparr>" by auto
  with that [OF proxy_exec_run [OF demo_begins p]] facts more show thesis by blast
qed

section \<open>Properties\<close>

text \<open>
  C4. The proxy is made of its parts. In every run of \<open>run_edge\<close>, whatever connects and however
  all tasks are scheduled, the bridge connections are in a run of \<open>serve_bridge\<close>, the client
  connections in a run of theirs, every link in a run of its session and tunnels under the key its
  connection proved, and a bridge connection counts as dead exactly when the reader of its link is
  gone. So what is proved of the parts holds of the proxy.
\<close>

theorem proxy_refines_parts:
  assumes "proxy_run rt lim sha1 b64 p"
  shows "bridge_run (sem rt) lim (p_reg p) \<and> client_run lim (p_clients p)
    \<and> (\<forall>i k w. p_links p i = Some (k, w) \<longrightarrow>
          i < length (conns (p_reg p)) \<and> link_run rt k (max_streams_per_bridge lim) w
          \<and> (dead (conns (p_reg p) ! i) \<longleftrightarrow> l_reader w = Gone))"
proof (intro conjI allI impI)
  show "bridge_run (sem rt) lim (p_reg p)" by (rule registry.run [OF assms])
  show "client_run lim (p_clients p)" by (rule clients.run [OF assms])
  fix i k w
  assume l: "p_links p i = Some (k, w)"
  note linked = proxy_run_linked [OF assms]
  show i: "i < length (conns (p_reg p))" by (rule linkedD(1) [OF linked l])
  show "link_run rt k (max_streams_per_bridge lim) w" using links.run [OF assms] l by (simp add: links_run_def)
  show "dead (conns (p_reg p) ! i) \<longleftrightarrow> l_reader w = Gone" using linkedD(4) [OF linked i] l by (simp add: link_gone_def)
qed

theorem proxy_refines_parts_witness:
  "\<exists>p w. demo_runs p \<and> p_links p 0 = Some (demo_key, w) \<and> bridge_run (sem demo_rt) demo_lim (p_reg p)
    \<and> client_run demo_lim (p_clients p) \<and> link_run demo_rt demo_key (max_streams_per_bridge demo_lim) w"
proof -
  obtain p w where "demo_runs p" "p_links p 0 = Some (demo_key, w)" by (rule demo_proxy)
  with proxy_refines_parts [OF this(1)] show ?thesis by blast
qed

text \<open>
  C3. A phone reaches the bridge that proved the key it names, and no other. In every run: a
  route for a key leads to a link whose connection proved that key; a tunnel whose preamble names
  a routed key is put on that link when it is looked up; every tunnel that has a stream on a link
  named the key the link's connection proved; and a registered link whose reader is alive is the
  route for its key or is about to be shut down by the link that displaced it.
\<close>

theorem proxy_routes_by_key:
  assumes "runtime_laws rt" and "proxy_run rt lim sha1 b64 p"
  shows "(\<forall>k i. routes (p_reg p) k = Some i \<longrightarrow> (\<exists>w. p_links p i = Some (k, w)))
    \<and> (\<forall>j c t i. j < length (p_waiting p) \<and> p_waiting p ! j = (c, t) \<and> t_pc t = Routing
          \<and> routes (p_reg p) (bridge_key (t_head t)) = Some i \<longrightarrow>
        (\<exists>p' w ts. proxy_do rt lim sha1 b64 (Route j) p = Some p' \<and> p_links p' i = Some (bridge_key (t_head t), w)
           \<and> l_tunnels w = ts @ [t\<lparr>t_pc := Calling\<rparr>] \<and> p_spliced p' = p_spliced p @ [(c, i, length ts)]))
    \<and> (\<forall>i k w t. p_links p i = Some (k, w) \<and> t \<in> set (l_tunnels w) \<and> t_half t \<noteq> None \<longrightarrow> bridge_key (t_head t) = k)
    \<and> (\<forall>i k w. i < length (conns (p_reg p)) \<and> pc (conns (p_reg p) ! i) = Up k \<and> p_links p i = Some (k, w) \<and> l_reader w \<noteq> Gone
        \<longrightarrow> routes (p_reg p) k = Some i
          \<or> (\<exists>j k'. j < length (conns (p_reg p)) \<and> pc (conns (p_reg p) ! j) = Displacing k' i))"
proof -
  have sem: "sem_laws (sem rt)" using assms(1) by (simp add: runtime_laws_def)
  note linked = proxy_run_linked [OF assms(2)]
  have routes: "routes_inv (p_reg p)" using bridge_run_inv [OF sem registry.run [OF assms(2)]] by blast
  have route: "\<exists>w. p_links p i = Some (k, w)" if "routes (p_reg p) k = Some i" for k i
    using routes_invD(1) [OF routes that] linkedD(2) [OF linked] by (simp add: keyed_def)
  have joins: "\<exists>p' w ts. proxy_do rt lim sha1 b64 (Route j) p = Some p' \<and> p_links p' i = Some (bridge_key (t_head t), w)
      \<and> l_tunnels w = ts @ [t\<lparr>t_pc := Calling\<rparr>] \<and> p_spliced p' = p_spliced p @ [(c, i, length ts)]"
    if j: "j < length (p_waiting p)" "p_waiting p ! j = (c, t)" "t_pc t = Routing"
      and r: "routes (p_reg p) (bridge_key (t_head t)) = Some i" for j c t i
  proof -
    obtain w where "p_links p i = Some (bridge_key (t_head t), w)" using route [OF r] by blast
    with j r show ?thesis by (auto simp: proxy_do_def proxy_route_def route_turn_def)
  qed
  have keys: "bridge_key (t_head t) = k"
    if l: "p_links p i = Some (k, w)" and t: "t \<in> set (l_tunnels w)" "t_half t \<noteq> None" for i k w t
  proof -
    have "link_run rt k (max_streams_per_bridge lim) w" using links.run [OF assms(2)] l by (simp add: links_run_def)
    with t tunnel_facts(3) [OF assms(1)] show ?thesis by blast
  qed
  have alive: "routes (p_reg p) k = Some i \<or> (\<exists>j k'. j < length (conns (p_reg p)) \<and> pc (conns (p_reg p) ! j) = Displacing k' i)"
    if i: "i < length (conns (p_reg p))" "pc (conns (p_reg p) ! i) = Up k" and l: "p_links p i = Some (k, w)" "l_reader w \<noteq> Gone" for i k w
  proof -
    have "\<not> dead (conns (p_reg p) ! i)" using linkedD(4) [OF linked i(1)] l by (simp add: link_gone_def)
    with routes_invD(3) [OF routes i(1), of k] i show ?thesis by (auto simp: at_def)
  qed
  show ?thesis using route joins keys alive by blast
qed

theorem proxy_routes_by_key_witness:
  "\<exists>p w t. demo_runs p \<and> p_links p 0 = Some (demo_key, w) \<and> t \<in> set (l_tunnels w) \<and> bridge_key (t_head t) = demo_key
    \<and> (\<exists>w'. routes (p_reg p) demo_key = Some 1 \<and> p_links p 1 = Some (demo_key, w'))"
proof -
  obtain p w t where p: "demo_runs p" "p_links p 0 = Some (demo_key, w)" "l_tunnels w = [t]"
    "t_half t = Some \<lparr>tx_id = 1, tx_addr = 0\<rparr>" "routes (p_reg p) demo_key = Some 1"
    by (rule demo_proxy)
  with proxy_routes_by_key [OF demo_rt_laws p(1)] show ?thesis
    by (intro exI [of _ p] exI [of _ w] exI [of _ t]) (metis list.set_intros(1) option.distinct(1))
qed

text \<open>The streams of all links whose connection is still served.\<close>

definition link_streams :: "('q, 'b, 'o, 'ip) proxy \<Rightarrow> nat \<Rightarrow> nat" where
  "link_streams p i =
     (case p_links p i of
        None \<Rightarrow> 0
      | Some (k, w) \<Rightarrow> if pc (conns (p_reg p) ! i) = Finished then 0 else stream_count (l_ses w))"

definition proxy_streams :: "('q, 'b, 'o, 'ip) proxy \<Rightarrow> nat" where
  "proxy_streams p = (\<Sum>i\<leftarrow>[0..<length (conns (p_reg p))]. link_streams p i)"

text \<open>The client connections of an address that have a tunnel running.\<close>

definition tunnelling :: "'ip \<Rightarrow> ('q, 'b, 'o, 'ip) proxy \<Rightarrow> nat" where
  "tunnelling ip p =
     length (filter (\<lambda>c. cl_ip (cls (p_clients p) ! c) = ip \<and> 0 < running c p) [0..<length (cls (p_clients p))])"

lemma sum_filter_nth: "(\<Sum>i\<leftarrow>[0..<length xs]. if P (xs ! i) then m else 0) = m * length (filter P xs)" for m :: nat
proof -
  have "map (\<lambda>i. if P (xs ! i) then m else 0) [0..<length xs] = map (\<lambda>x. if P x then m else 0) xs"
    by (rule nth_equalityI) simp_all
  moreover have "(\<Sum>x\<leftarrow>xs. if P x then m else 0) = m * length (filter P xs)" by (induction xs) simp_all
  ultimately show ?thesis by simp
qed

lemma length_filter_nth: "length (filter (\<lambda>i. P (xs ! i)) [0..<length xs]) = length (filter P xs)"
  using arg_cong [OF map_nth, of "\<lambda>ys. length (filter P ys)" xs] by (simp add: filter_map o_def)

lemma length_filter_mono:
  assumes "\<And>x. x \<in> set xs \<Longrightarrow> P x \<Longrightarrow> Q x"
  shows "length (filter P xs) \<le> length (filter Q xs)"
proof -
  have "filter P xs = filter P (filter Q xs)" using assms by (induction xs) auto
  then show ?thesis by (metis length_filter_le)
qed

text \<open>
  C14. The ceilings of the command line bound the whole proxy. In every run, the streams open on
  all links being served are at most \<open>max_bridges\<close> times \<open>max_streams_per_bridge\<close> (at least one),
  and the client connections of one address that have a tunnel running, before or after routing,
  are at most \<open>max_clients_per_ip\<close>.
\<close>

theorem proxy_within_limits:
  assumes "runtime_laws rt" and "proxy_run rt lim sha1 b64 p"
  shows "proxy_streams p \<le> max_bridges lim * max (max_streams_per_bridge lim) 1
    \<and> tunnelling ip p \<le> max_clients_per_ip lim"
proof
  let ?m = "max (max_streams_per_bridge lim) 1"
  have sem: "sem_laws (sem rt)" using assms(1) by (simp add: runtime_laws_def)
  have "link_streams p i \<le> (if holds_budget (conns (p_reg p) ! i) then ?m else 0)" for i
    using links.run [OF assms(2)]
    by (auto simp: link_streams_def links_run_def holds_budget_def simp del: One_nat_def split: option.splits
        intro!: link_run_streams [OF assms(1)])
  then have "proxy_streams p \<le> ?m * count_conns holds_budget (p_reg p)"
    unfolding proxy_streams_def count_conns_def sum_filter_nth [symmetric] by (rule sum_list_mono)
  also have "count_conns holds_budget (p_reg p) \<le> max_bridges lim"
    using bridge_run_inv [OF sem registry.run [OF assms(2)]] by (auto simp: slots_inv_def)
  finally show "proxy_streams p \<le> max_bridges lim * ?m" by (simp add: mult.commute)
next
  have "holding (cl_pc (cls (p_clients p) ! c))" if "c < length (cls (p_clients p))" "0 < running c p" for c
    using shared_outD(1) [OF slots.run [OF assms(2)], of c] that by (cases "cl_pc (cls (p_clients p) ! c)") auto
  moreover have "holders_of ip (p_clients p) = length (filter (\<lambda>c. cl_ip (cls (p_clients p) ! c) = ip \<and> holding (cl_pc (cls (p_clients p) ! c)))
      [0..<length (cls (p_clients p))])"
    unfolding holders_of_def by (rule length_filter_nth [symmetric])
  ultimately have "tunnelling ip p \<le> holders_of ip (p_clients p)"
    by (auto simp: tunnelling_def intro!: length_filter_mono)
  also have "\<dots> \<le> max_clients_per_ip lim"
    using clients_inv_run [OF clients.run [OF assms(2)]] by (simp add: clients_inv_def)
  finally show "tunnelling ip p \<le> max_clients_per_ip lim" .
qed

theorem proxy_within_limits_witness:
  "\<exists>p. demo_runs p \<and> cls (p_clients p) = [\<lparr>cl_ip = 8, cl_pc = Live True 1\<rparr>]
    \<and> proxy_streams p \<le> 2 \<and> tunnelling 8 p \<le> 1"
proof -
  obtain p where "demo_runs p" "cls (p_clients p) = [\<lparr>cl_ip = 8, cl_pc = Live True 1\<rparr>]" by (rule demo_proxy)
  with proxy_within_limits [OF demo_rt_laws this(1), of 8] show ?thesis by (auto simp: demo_lim_def)
qed

text \<open>
  C15. A bridge that dials in again takes over. In every run, when a new link has displaced a
  registered one, two moves are enough: the new connection shuts the displaced link down (its
  reader and writer are gone, no stream is left), and the displaced connection leaves, without
  removing the route, which stays with the links that came later.
\<close>

theorem displaced_link_leaves:
  assumes "runtime_laws rt" and "proxy_run rt lim sha1 b64 p" and "i < length (conns (p_reg p))"
    and "pc (conns (p_reg p) ! i) = Displacing k j" and "pc (conns (p_reg p) ! j) = Up k"
  shows "\<exists>p' w. proxy_exec rt lim sha1 b64 [BridgeMoves i, BridgeMoves j] p = Some p'
    \<and> p_links p' j = Some (k, w) \<and> l_reader w = Gone \<and> stream_count (l_ses w) = 0 \<and> \<not> l_open rt w
    \<and> pc (conns (p_reg p') ! i) = Up k \<and> pc (conns (p_reg p') ! j) = Leaving \<and> routes (p_reg p') = routes (p_reg p)"
proof -
  have sem: "sem_laws (sem rt)" and chan: "chan_laws (outch rt)" using assms(1) by (simp_all add: runtime_laws_def)
  note run = registry.run [OF assms(2)] and linked = proxy_run_linked [OF assms(2)]
  have at: "at (p_reg p) i (Displacing k j)" using assms(3,4) by (simp add: at_def)
  have j: "j < length (conns (p_reg p))" "j \<noteq> i" "routes (p_reg p) k \<noteq> Some j"
    using bridge_run_inv [OF sem run] at routes_invD(2) displaced_unroutedD(2) [OF bridge_run_displaced [OF sem run] at]
    by (auto simp: displaced_known_def)
  obtain w where w: "p_links p j = Some (k, w)"
    using linkedD(2) [OF linked j(1), of k] assms(5) by (auto simp: keyed_def)
  define w' where "w' = w\<lparr>l_ses := shutdown rt (l_ses w), l_reader := Gone\<rparr>"
  define p' where "p' = p\<lparr>p_reg := bridge_displace i k j (p_reg p), p_links := (p_links p)(j \<mapsto> (k, w'))\<rparr>"
  have "proxy_do rt lim sha1 b64 (BridgeMoves i) p = Some p'"
    using assms(3,4) w by (simp add: proxy_do_def proxy_bridge_def proxy_displace_def link_do_def p'_def w'_def)
  moreover have "link_gone p' j" by (simp add: link_gone_def p'_def w'_def)
  moreover have "pc (conns (p_reg p') ! j) = Up k" "j < length (conns (p_reg p'))"
    using j assms(3,5) by (simp_all add: p'_def bridge_displace_def set_conn_def nth_list_update)
  ultimately have "proxy_exec rt lim sha1 b64 [BridgeMoves i, BridgeMoves j] p = Some (p'\<lparr>p_reg := bridge_done j k (p_reg p')\<rparr>)"
    by (simp add: proxy_do_def [of _ _ _ _ "BridgeMoves j"] proxy_bridge_def)
  moreover have "stream_count (l_ses w') = 0" "\<not> l_open rt w'"
    by (simp_all add: w'_def shutdown_def Let_def stream_count_def ch_drop_laws [OF chan])
  ultimately show ?thesis
    using j assms(3) by (intro exI [of _ "p'\<lparr>p_reg := bridge_done j k (p_reg p')\<rparr>"] exI [of _ w'])
      (simp add: p'_def bridge_done_def bridge_displace_def set_conn_def nth_list_update w'_def)
qed

theorem displaced_link_leaves_witness:
  "\<exists>p p' w. demo_runs p \<and> proxy_exec demo_rt demo_lim (\<lambda>_. []) (\<lambda>_. []) [BridgeMoves 1, BridgeMoves 0] p = Some p'
    \<and> p_links p' 0 = Some (demo_key, w) \<and> stream_count (l_ses w) = 0 \<and> routes (p_reg p') demo_key = Some 1"
proof -
  obtain p where p: "demo_runs p" "length (conns (p_reg p)) = 2" "pc (conns (p_reg p) ! 0) = Up demo_key"
    "pc (conns (p_reg p) ! 1) = Displacing demo_key 0" "routes (p_reg p) demo_key = Some 1"
    by (rule demo_proxy)
  then have "1 < length (conns (p_reg p))" by simp
  from displaced_link_leaves [OF demo_rt_laws p(1) this p(4,3)] p(1,5) show ?thesis by metis
qed

end
