(* ===== verification/Spec2Isabelle.thy ===== *)
theory Spec2Isabelle
  imports Handshake Mux_Io Registry_Drain Cli Writer Proxy_Props
begin

text \<open>
  A verification of the dsh mobile-access proxy (\<open>src/\<close>, Rust).

  \<^bold>\<open>The program.\<close> A Mac behind NAT (a \<^emph>\<open>bridge\<close>) dials the proxy, sends a 37-byte preamble,
  proves a static key in a Noise_XX handshake and keeps the link open. A phone (a \<^emph>\<open>client\<close>)
  comes over TLS, upgrades \<open>/tunnel\<close> to a WebSocket, and sends a preamble that names a bridge's
  key. The proxy opens a mux stream on that bridge's link and moves bytes both ways. One port
  serves both kinds; the first byte tells them apart.

  \<^bold>\<open>Theories and sources.\<close> Paths are relative to \<open>src/src\<close>.

    \<^item> \<open>Prelude\<close>: types, errors, polls, big-endian integers, generic lemmas. \<open>Framing\<close>: decoders
      that are fed chunks of a byte stream (locales \<open>incr_decoder\<close>, \<open>framing\<close>), interpreted for
      the Noise codec and for the WebSocket parser. \<open>Wire\<close>: \<open>wire.rs\<close> and the mux frame.
    \<^item> \<open>Noise\<close>, \<open>Handshake\<close>: \<open>noise.rs\<close>. The encoder and decoder of a link, \<open>xx_respond\<close>, the
      length-prefixed messages, the key helpers.
    \<^item> \<open>Sock\<close>, \<open>Ws\<close>: \<open>ws.rs\<close>, over a socket that answers each poll as it likes. \<open>Ws_Read\<close>,
      \<open>Ws_Wire\<close>, \<open>Ws_Pipe\<close>, \<open>Ws_Bounds\<close> are its proofs: reads refine the payload stream of the
      raw bytes, writes arrive at the client's parser, memory is bounded.
    \<^item> \<open>Tokio\<close>: \<open>Semaphore\<close> and bounded \<open>mpsc\<close> channels as records of operations with their
      documented laws. \<open>Mux\<close>: \<open>mux.rs\<close>, the session, its streams and the handling of each
      frame. \<open>Mux_Table\<close>: what each operation does to slots and credit. \<open>Mux_Steps\<close>: all tasks
      on one session as the step relation \<open>mux_step\<close>, and its invariant. \<open>Mux_Send\<close>,
      \<open>Mux_Props\<close>: the properties of the session. \<open>Mux_Faults\<close>: two defects.
      \<open>Mux_Bounds\<close>: capacities, and a stream opened during the teardown. \<open>Mux_Inbox\<close>: what
      arrives on one stream. \<open>Mux_Io\<close>: \<open>MuxStreamIo\<close>.
    \<^item> \<open>Admission\<close>: \<open>Limits\<close> and \<open>IpSlot\<close> of \<open>lib.rs\<close>; the locale \<open>admission\<close> is the contract of a
      gate that counts its holders, and \<open>IpSlot\<close> is an interpretation. \<open>Registry\<close>: \<open>serve_bridge\<close>
      as run by many connections (\<open>bridge_step\<close>). \<open>Registry_Drain\<close>: its way out. \<open>Splice\<close>:
      \<open>run_edge\<close>'s routing, \<open>serve\<close>, the routing key.
    \<^item> \<open>Edge\<close>: \<open>edge.rs\<close>, routes, upgrade, tunnel task. \<open>Clients\<close>: the per-address slot of a TLS
      connection, shared with its tunnels. \<open>Tls\<close>: \<open>tls.rs\<close>. \<open>Cli\<close>: \<open>main.rs\<close>.
    \<^item> \<open>Tunnel\<close>: one client tunnel, the task of \<open>Edge::tunnel\<close> with all of \<open>serve_client\<close>: one
      definition per stretch between two awaits of the tunnel task, the uplink task and the
      downlink. \<open>Link\<close>: a session with its reader, its writer and any number of tunnels; \<open>link_do\<close>
      is one turn of one task and \<open>link_run\<close> the states any schedule reaches; each is a run of
      \<open>mux_step\<close>. \<open>Link_Inv\<close>: that tunnels do not disturb each other, and the locales
      \<open>tunnel_invariant\<close> and \<open>local_invariant\<close>, which reduce an invariant of all tunnels of a link
      to the turns of one. \<open>Tunnel_Data\<close>, \<open>Link_Streams\<close>, \<open>Link_Flow\<close>: their interpretations:
      bytes read and forwarded, bytes written, credit returned; stream ids and what is on the
      wire; what arrives, and who owns which entry of the table. \<open>Link_Props\<close>: the properties.
    \<^item> \<open>Writer\<close>: the writer task of a link with its encoder: batches, the buffer of \<open>FramedWrite\<close>,
      partial and failed writes.
    \<^item> \<open>Proxy\<close>: \<open>run_edge\<close>, the whole proxy: registry, clients, links and tunnels composed; \<open>proxy_do\<close>
      is one event and \<open>proxy_run\<close> the states any schedule reaches. \<open>Proxy_Inv\<close>: the locale \<open>part\<close>, a
      view of the proxy that stays in its own runs, with the registry, the clients, the links and
      the slots as interpretations. \<open>Proxy_Props\<close>: the properties.
    \<^item> This theory: properties that span components. From the phone's WebSocket frames through
      tunnel, mux frames and Noise link to what the bridge's reader sees, and back from the
      bridge's frames through reader, inbox, tunnel and WebSocket to what the phone's parser gets.

  \<^bold>\<open>How code becomes definitions.\<close> A struct is a record, an operation a function on it that
  returns the new state and a result; an error is \<open>Inl\<close> of an \<open>io_error\<close>, a panic is \<open>None\<close> or a
  constructor of its own; machine integers are words where they can wrap. An \<open>async\<close> function is
  cut at its awaits: one definition per access to shared state, and step relations interleave
  them. \<open>DashMap\<close> operations and those of semaphores and channels are indivisible; the reader
  handles one frame, up to the send it awaits, in one step. A stream's inbox and credit are
  shared between the session's table and the stream's two halves, so they live in a store and
  are referred to by address.

  \<^bold>\<open>What is a parameter.\<close> \<open>snow\<close> (Noise), SHA-1, Base64, X25519, \<open>tokio\<close>'s primitives, \<open>rustls\<close>,
  \<open>rcgen\<close>, \<open>hyper\<close>, the file system and sockets. Where a theorem depends on their behaviour it has
  a named hypothesis (\<open>noise_session\<close>, \<open>noise_accepts\<close>, \<open>sem_laws\<close>, \<open>chan_laws\<close>,
  \<open>runtime_laws\<close>), and a concrete instance proved to satisfy it, at which the theorem is
  applied. No definition uses fuel: loops are structural or have a termination proof (a
  WebSocket poll consumes the socket's scripted answers or its own buffer, a send its data).

  \<^bold>\<open>What the theorems show.\<close> \<^emph>\<open>Transport\<close>: frames cross
  the link unchanged however the network cuts the bytes; nonces are used in order; WebSocket reads
  and writes are a faithful byte stream; the bytes of a phone reach its bridge, and the bridge's
  bytes the phone, in order and unmixed, for every tunnel of a link and every schedule.
  \<^emph>\<open>Resources\<close>: the ceilings on streams, bridges and connections per address
  are exact under every interleaving; credit is conserved; buffers are bounded; batches of the
  writer do not show on the wire; a tunnel ends when either side hangs up and leaves no stream
  behind; everything is released when links end. \<^emph>\<open>Routing\<close>: a phone reaches
  the bridge that proved the key it names, a bridge that dials in again takes over, and no live
  link is stranded. All of this holds of the whole proxy, because every run of it is a run of its
  parts. \<^emph>\<open>Refusals\<close>: what is not a bridge, a client, a valid frame or a valid
  command line is turned away where the code says. \<^emph>\<open>Defects\<close>: a flood of
  grants panics the reader; \<open>StreamTx::close\<close> leaves a parked sender parked; a stream
  can be opened on a dying link and stay; a preamble that cannot be forwarded leaves its stream in
  the table; data is sent behind the \<open>CLOSE\<close> of its stream.

  \<^bold>\<open>Not modelled.\<close> Timers are nondeterminism: a deadline may expire whenever
  its operation is pending. An error of \<open>listener.accept\<close>, which ends
  \<open>run_edge\<close>, is not an event. Wakers are not modelled, so liveness is about what a
  poll does. \<open>Edge::serve\<close> hands the socket to \<open>rustls\<close> and
  \<open>hyper\<close>: how the TLS handshake ends, and the requests, are input. The test peers
  and the benchmark are test code, of which only the parser of the WebSocket client is modelled,
  as the receiving end.
\<close>

section \<open>The bridge link end to end\<close>

text \<open>
  C5. The bridge link carries frames. From a fresh link, any sequence of fewer than
  \<open>2 ^ 64\<close> frames whose payloads respect \<open>MAX_PAYLOAD\<close> is encoded without an error, and however
  the network cuts the resulting bytes, the other end decodes them without an error, with
  nothing left over and its nonce in step with the encoder's, and its reader parses exactly
  those frames, in order: id, kind and payload.
\<close>

theorem link_delivers_frames:
  assumes "noise_session wm rm" and "noise_accepts wm"
    and "\<forall>f \<in> set fs. length (frame_payload f) \<le> MAX_PAYLOAD"
    and "length fs < 2 ^ 64"
  shows "\<exists>e wire. feed_frames wm (snd codecs) fs [] = Inr (e, wire)
    \<and> (\<forall>cs. concat cs = wire \<longrightarrow>
          (\<exists>ms. feed_all (noise_decode rm) (fst codecs) [] cs = (ms, None, \<lparr>dec_nonce = enc_nonce e\<rparr>, [])
             \<and> map parse_frame ms = map (\<lambda>f. Inr (frame_id f, frame_kind f, frame_payload f)) fs))"
proof -
  obtain e wire where "feed_frames wm (snd codecs) fs [] = Inr (e, wire)"
    and "\<And>cs. concat cs = wire \<Longrightarrow> feed_all (noise_decode rm) (fst codecs) [] cs
      = (map frame_bytes fs, None, \<lparr>dec_nonce = enc_nonce e\<rparr>, [])"
    using link_transport [OF assms] by blast
  then show ?thesis
    by (intro exI [of _ e] exI [of _ wire]) (simp add: parse_frame_bytes)
qed

theorem link_delivers_frames_witness:
  "\<exists>e wire ms. feed_frames demo_seal (snd codecs) [\<lparr>frame_id = 7, frame_kind = KIND_DATA, frame_payload = [1, 2]\<rparr>] [] = Inr (e, wire)
    \<and> feed_all (noise_decode demo_open) (fst codecs) [] [take 5 wire, drop 5 wire]
        = (ms, None, \<lparr>dec_nonce = enc_nonce e\<rparr>, [])
    \<and> map parse_frame ms = [Inr (7, KIND_DATA, [1, 2])]"
proof -
  let ?f = "\<lparr>frame_id = 7, frame_kind = KIND_DATA, frame_payload = [1, 2]\<rparr>"
  from link_delivers_frames [of demo_seal demo_open "[?f]"] obtain e wire where
    run: "feed_frames demo_seal (snd codecs) [?f] [] = Inr (e, wire)"
    and cut: "\<And>cs. concat cs = wire \<Longrightarrow> \<exists>ms. feed_all (noise_decode demo_open) (fst codecs) [] cs
        = (ms, None, \<lparr>dec_nonce = enc_nonce e\<rparr>, [])
      \<and> map parse_frame ms = map (\<lambda>f. Inr (frame_id f, frame_kind f, frame_payload f)) [?f]"
    by (auto simp: wire_consts simp del: feed_frames.simps)
  from cut [of "[take 5 wire, drop 5 wire]"] run show ?thesis
    by (auto simp del: feed_frames.simps feed_all.simps)
qed

section \<open>From the phone to the bridge\<close>

text \<open>What a bridge's read loop sees of one stream: the bodies of its data frames.\<close>

definition stream_payload :: "u32 \<Rightarrow> bytes list \<Rightarrow> bytes" where
  "stream_payload i ms = concat (bodies i ms)"

lemma bodies_frames: "bodies i (map frame_bytes fs) = map frame_payload (filter (data_of_stream i) fs)"
  by (induction fs) (simp_all add: bodies_def parse_frame_bytes)

lemma stream_payload_frames:
  "stream_payload i (map frame_bytes fs) = concat (map frame_payload (filter (data_of_stream i) fs))"
  by (simp add: stream_payload_def bodies_frames)

lemma prefix_concat: "prefix xs ys \<Longrightarrow> prefix (concat xs) (concat ys)"
  by (auto simp: prefix_def)

lemma prefix_bodies: "prefix ms ns \<Longrightarrow> prefix (bodies i ms) (bodies i ns)"
  by (auto simp: prefix_def)

lemma prefix_map: "prefix xs ys \<Longrightarrow> prefix (map f xs) (map f ys)"
  by (auto simp: prefix_def)

text \<open>
  C1. From the phone to the Mac. In every run of a bridge link, with any number of tunnels on it
  (fewer than stream ids) and under every schedule of their tasks: the writer task has encoded the
  frames it took in batches as it likes and the socket has taken some of the bytes, the network
  cuts these as it likes, the bridge decodes them without an error, and what it sees on a tunnel's
  stream is a prefix of the bytes that phone put into its WebSocket frames: nothing altered,
  reordered, dropped or taken from another stream. The bridge is the one the preamble names. When
  the tunnel is running, owes nothing, has nothing waiting in the outbox, and the writer has
  flushed, the bridge sees exactly the preamble and the bytes read.
\<close>

theorem phone_to_bridge:
  assumes "runtime_laws rt" and "link_run rt k n w" and "length (l_tunnels w) < 2 ^ 32 - 1"
    and "t \<in> set (l_tunnels w)" and "t_half t = Some half"
    and "noise_session wm rm" and "writer_run wm boundary (l_wire w) v" and "concat cs = w_sock v"
  shows "bridge_key (t_head t) = k
    \<and> (\<exists>ms d r. feed_all (noise_decode rm) (fst codecs) [] cs = (ms, None, d, r)
         \<and> prefix (stream_payload (tx_id half) ms) (payload_stream (taken (inner (t_ws t))))
         \<and> (t_flowing t \<and> t_owed t = [] \<and> ch_rx_open (outch rt) (out (l_ses w)) \<and> w_pc v = Receiving
              \<and> filter (data_of_stream (tx_id half)) (queue_of rt (l_ses w)) = [] \<longrightarrow>
              stream_payload (tx_id half) ms = t_head t @ t_read t))"
proof -
  note facts = tunnel_facts [OF assms(1,2,4,5)]
  have "t_wf t" using link_run_ok [OF assms(1,2)] assms(4) by (auto simp: link_ok_def t_placed_def)
  then have "t_number t = Some (tx_id half)" using assms(5) by (rule t_number_half)
  then have wired: "prefix (filter (data_of_stream (tx_id half)) (l_wire w)) (t_queued t)"
    "ch_rx_open (outch rt) (out (l_ses w)) \<Longrightarrow> filter (data_of_stream (tx_id half)) (l_frames rt w) = t_queued t"
    using wired.run [OF assms(1,2,4)] assms(3) by (simp_all add: t_wired_def unwrapped_def)
  obtain ms d r where ms: "feed_all (noise_decode rm) (fst codecs) [] cs = (ms, None, d, r)"
    and got: "prefix ms (map frame_bytes (l_wire w))" "w_pc v = Receiving \<longrightarrow> ms = map frame_bytes (l_wire w)"
    using writer_received [OF assms(6-8)] by blast
  have "prefix (stream_payload (tx_id half) ms) (stream_payload (tx_id half) (map frame_bytes (l_wire w)))"
    unfolding stream_payload_def by (intro prefix_concat prefix_bodies got(1))
  also have "prefix \<dots> (t_payload t)"
    unfolding stream_payload_frames t_payload_def by (intro prefix_concat prefix_map wired(1))
  also have "prefix \<dots> (t_head t @ t_read t)" using facts(5) by (rule append_prefixD)
  also note facts(4)
  finally have "prefix (stream_payload (tx_id half) ms) (payload_stream (taken (inner (t_ws t))))" .
  moreover have "stream_payload (tx_id half) ms = t_head t @ t_read t"
    if "t_flowing t" "t_owed t = []" "ch_rx_open (outch rt) (out (l_ses w))" "w_pc v = Receiving"
      "filter (data_of_stream (tx_id half)) (queue_of rt (l_ses w)) = []"
    using facts(6) [OF that(1)] wired(2) [OF that(3)] that(2,5) got(2) that(4)
    by (simp add: stream_payload_frames l_frames_def t_payload_def)
  ultimately show ?thesis using ms facts(3) by blast
qed

theorem phone_to_bridge_witness:
  "\<exists>w v ms d r. link_run demo_rt demo_key 1 w \<and> writer_run demo_seal 8192 (l_wire w) v
    \<and> feed_all (noise_decode demo_open) (fst codecs) [] [w_sock v] = (ms, None, d, r)
    \<and> stream_payload 1 ms = MAGIC_CLIENT @ VERSION # replicate 33 7"
proof -
  obtain w t where run: "link_run demo_rt demo_key 1 w" and t: "l_tunnels w = [t]" "t_half t = Some \<lparr>tx_id = 1, tx_addr = 0\<rparr>"
    "t_head t = MAGIC_CLIENT @ VERSION # demo_key" "t_read t = [7]" "t_pc t = Selecting" "t_up t = UpReading"
    and w: "queue_of demo_rt (l_ses w) = []" "ch_rx_open (outch demo_rt) (out (l_ses w))" "length (l_wire w) = 3"
    by (rule demo_link)
  have mem: "t \<in> set (l_tunnels w)" "t_flowing t" "t_owed t = []" "length (l_tunnels w) < 2 ^ 32 - 1"
    using t by (simp_all add: t_flowing_def t_owed_def t_futs_def)
  have "\<forall>f \<in> set (l_wire w). length (frame_payload f) \<le> MAX_PAYLOAD"
    using link_run_frames [OF demo_rt_laws run] by (simp add: frames_ok_def l_frames_def)
  moreover have "l_wire w \<noteq> []" "length (l_wire w) \<le> WRITE_BATCH" using w(3) by (auto simp: WRITE_BATCH_def)
  ultimately obtain v where v: "writer_run demo_seal 8192 (l_wire w) v" "w_pc v = Receiving"
    using writer_completes [of demo_seal "l_wire w" 8192] by auto
  have "concat [w_sock v] = w_sock v" by simp
  from phone_to_bridge [OF demo_rt_laws run mem(4,1) t(2) demo_session v(1) this] mem(2,3) v(2) w
  obtain ms d r where "feed_all (noise_decode demo_open) (fst codecs) [] [w_sock v] = (ms, None, d, r)"
    "stream_payload 1 ms = t_head t @ t_read t" by auto
  moreover have "t_head t @ t_read t = MAGIC_CLIENT @ VERSION # replicate 33 7"
    by (simp add: t(3,4) demo_key_def replicate_append_same flip: replicate_Suc)
  ultimately show ?thesis using run v(1) by metis
qed

section \<open>From the bridge to the phone\<close>

text \<open>
  C2. From the Mac to the phone. The bridge's frames, of this stream and of others, cross the link
  however the network cuts them; the reader handles them while every other task of the link and of
  its tunnels runs in between; the tunnel's downlink writes the chunks to its WebSocket, whose
  bytes are cut again. Then the phone's parser accepts all of it, and what it gets is a prefix of
  the data the bridge sent on that stream since it was inserted; and exactly that data when every
  frame has been handled, the stream is still open, the downlink waits for the next chunk, and
  nothing is left in the inbox or staged in the WebSocket.
\<close>

theorem bridge_to_phone:
  assumes "runtime_laws rt" and "link_run rt k n w" and "length (l_tunnels w) < 2 ^ 32 - 1"
    and "t \<in> set (l_tunnels w)" and "t_half t = Some half"
    and link: "noise_session wm rm" "noise_accepts wm"
      "\<forall>f \<in> set gs. length (frame_payload f) \<le> MAX_PAYLOAD" "length gs < 2 ^ 64"
      "feed_frames wm (snd codecs) gs [] = Inr (e, wire)" "concat cs = wire"
      "feed_all (noise_decode rm) (fst codecs) [] cs = (ms, err, dec, rest)"
    and heard: "prefix (l_heard w) ms" and "concat bs = sent (inner (t_ws t))"
  shows "\<exists>fs r. feed_all client_item () [] bs = (fs, None, (), r)
    \<and> prefix (data_of fs) (concat (map frame_payload (filter (data_of_stream (tx_id half)) (drop (t_since t) gs))))
    \<and> (l_heard w = ms \<and> t_down t = DownRecv \<and> t_rx t = Some (tx_addr half)
         \<and> map_of (streams (l_ses w)) (tx_id half) = Some (tx_addr half) \<and> items rt (l_ses w) (tx_addr half) = []
         \<and> outgoing (t_ws t) = [] \<longrightarrow>
       data_of fs = concat (map frame_payload (filter (data_of_stream (tx_id half)) (drop (t_since t) gs))))"
proof -
  let ?sent = "map frame_payload (filter (data_of_stream (tx_id half)) (drop (t_since t) gs))"
  have ms: "ms = map frame_bytes gs" using link_transport [OF link(1-4)] link(5-7) by (metis Inr_inject Pair_inject)
  have wf: "t_wf t" using link_run_ok [OF assms(1,2)] assms(4) by (auto simp: link_ok_def t_placed_def)
  have "tx_id half \<noteq> 0"
    using link_run_ids [OF assms(1,2)] assms(3,4) t_number_half [OF wf assms(5)] by (auto simp: ids_ok_def unwrapped_def)
  then have fed: "t_since t \<le> length (l_heard w)" "prefix (t_chunks t) (bodies (tx_id half) (t_heard w t))"
    "t_rx t \<noteq> None \<Longrightarrow> arrives rt (tx_id half) (tx_addr half) (t_heard w t) (t_chunks t) (l_ses w)"
    using fed.run [OF assms(1,2,4)] assms(5) by (simp_all add: t_fed_def)
  have bodies: "bodies (tx_id half) (drop (t_since t) ms) = ?sent"
    by (simp add: ms drop_map bodies_frames)
  have "prefix (t_heard w t) (drop (t_since t) ms)"
    using heard fed(1) by (auto simp: prefix_def t_heard_def)
  from prefix_order.trans [OF fed(2) prefix_bodies [OF this]]
  have chunks: "prefix (concat (t_chunks t)) (concat ?sent)" unfolding bodies by (rule prefix_concat)
  obtain v where v: "write_inv v (t_ws t)" "t_wrote t v"
    using writes.run [OF assms(1,2,4)] by (auto simp: t_writes_def)
  obtain fs r where fs: "feed_all client_item () [] bs = (fs, None, (), r)" "prefix (data_of fs) v"
    "outgoing (t_ws t) = [] \<longrightarrow> data_of fs = v \<and> r = []"
    using write_inv_received [OF v(1) assms(14)] by blast
  have "prefix v (concat (t_chunks t))"
    using v(2) by (auto simp: t_wrote_def split: down_pc.splits) (metis prefixI)
  with fs(2) chunks have safe: "prefix (data_of fs) (concat ?sent)" by (blast intro: prefix_order.trans)
  have "data_of fs = concat ?sent" if "l_heard w = ms" "t_down t = DownRecv" "t_rx t = Some (tx_addr half)"
    "map_of (streams (l_ses w)) (tx_id half) = Some (tx_addr half)" "items rt (l_ses w) (tx_addr half) = []" "outgoing (t_ws t) = []"
    using fed(3) that fs(3) v(2) bodies by (simp add: arrives_def t_heard_def t_wrote_def)
  with fs(1) safe show ?thesis by blast
qed

theorem bridge_to_phone_witness:
  "\<exists>w t fs r. link_run demo_rt demo_key 1 w \<and> t \<in> set (l_tunnels w)
    \<and> feed_all client_item () [] [sent (inner (t_ws t))] = (fs, None, (), r) \<and> data_of fs = [7, 8]"
proof -
  obtain w t where run: "link_run demo_rt demo_key 1 w" and t: "l_tunnels w = [t]" "t_half t = Some \<lparr>tx_id = 1, tx_addr = 0\<rparr>"
    "t_pc t = Selecting" "t_down t = DownRecv" "t_since t = 0" "outgoing (t_ws t) = []"
    and w: "l_heard w = [frame_bytes demo_reply]" "streams (l_ses w) = [(1, 0)]" "items demo_rt (l_ses w) 0 = []"
    by (rule demo_link)
  have mem: "t \<in> set (l_tunnels w)" "length (l_tunnels w) < 2 ^ 32 - 1" "t_rx t = Some 0"
    using t by (simp_all add: t_rx_def)
  have small: "\<forall>f \<in> set [demo_reply]. length (frame_payload f) \<le> MAX_PAYLOAD" by (simp add: demo_reply_def wire_consts)
  obtain e wire where enc: "feed_frames demo_seal (snd codecs) [demo_reply] [] = Inr (e, wire)"
    and cut: "\<And>cs. concat cs = wire \<Longrightarrow> feed_all (noise_decode demo_open) (fst codecs) [] cs
      = (map frame_bytes [demo_reply], None, \<lparr>dec_nonce = enc_nonce e\<rparr>, [])"
    by (rule link_transport [of demo_seal demo_open "[demo_reply]"]) (use small in simp_all)
  have dec: "feed_all (noise_decode demo_open) (fst codecs) [] [wire]
      = ([frame_bytes demo_reply], None, \<lparr>dec_nonce = enc_nonce e\<rparr>, [])"
    using cut [of "[wire]"] by simp
  have heard: "prefix (l_heard w) [frame_bytes demo_reply]" by (simp add: w)
  from bridge_to_phone [OF demo_rt_laws run mem(2,1) t(2) _ _ small _ enc _ dec heard, of "[sent (inner (t_ws t))]"] mem t w
  obtain fs r where "feed_all client_item () [] [sent (inner (t_ws t))] = (fs, None, (), r)" "data_of fs = [7, 8]"
    by (auto simp: demo_reply_def simp del: feed_all.simps)
  with run mem(1) show ?thesis by blast
qed

end
